(* ===== verification/Go_Prelude.thy ===== *)
theory Go_Prelude
  imports Main "HOL-Library.AList" "HOL-Library.Multiset" "HOL-Library.Word"
begin

text \<open>
  Shared vocabulary of the development: Go strings as byte lists, instants and durations as
  nanosecond counts, Go maps as association lists with distinct keys, the arbitrary order of
  a \<^verbatim>\<open>range\<close> over a map as a parameter, and the generic lemmas the
  component theories use.

  A Go \<^verbatim>\<open>string\<close> is a sequence of bytes and an Isabelle \<^typ>\<open>char\<close> is
  one byte, so \<^typ>\<open>string\<close> is Go's string type. A \<^verbatim>\<open>time.Time\<close> is
  an instant in nanoseconds; the zone and the separate monotonic reading are not part of it. A
  \<^verbatim>\<open>time.Duration\<close> is an int64 of nanoseconds, kept as an \<^typ>\<open>int\<close>
  whose bounds are written out where the library saturates.
\<close>

named_theorems gomap_simps "look-up laws of Go maps"
named_theorems frame_simps "fields an operation leaves alone"

type_synonym time = int
type_synonym duration = int
type_synonym error = string
type_synonym uuid = "128 word"
type_synonym ('k, 'v) gomap = "('k \<times> 'v) list"

subsection \<open>Durations and instants\<close>

abbreviation microsecond :: duration where "microsecond \<equiv> 1000"
abbreviation millisecond :: duration where "millisecond \<equiv> 1000000"
abbreviation second :: duration where "second \<equiv> 1000000000"
abbreviation minute :: duration where "minute \<equiv> 60000000000"
abbreviation hour :: duration where "hour \<equiv> 3600000000000"

abbreviation max_duration :: duration where "max_duration \<equiv> 9223372036854775807"
abbreviation min_duration :: duration where "min_duration \<equiv> - 9223372036854775808"

text \<open>\<^verbatim>\<open>t.Sub(u)\<close>: the difference, saturated at the int64 range.\<close>

definition time_Sub :: "time \<Rightarrow> time \<Rightarrow> duration" where
  "time_Sub t u = max min_duration (min max_duration (t - u))"

lemma time_Sub_mono: "t \<le> t' \<Longrightarrow> time_Sub t u \<le> time_Sub t' u"
  by (auto simp: time_Sub_def)

lemma time_Sub_nonneg: "u \<le> t \<Longrightarrow> 0 \<le> time_Sub t u"
  by (auto simp: time_Sub_def)

text \<open>Arithmetic of a Go \<^verbatim>\<open>int\<close> wraps at 64 bits.\<close>

definition int64 :: "int \<Rightarrow> int" where
  "int64 x = (x + 2 ^ 63) mod 2 ^ 64 - 2 ^ 63"

lemma int64_id: "- (2 ^ 63) \<le> x \<Longrightarrow> x < 2 ^ 63 \<Longrightarrow> int64 x = x"
  by (simp add: int64_def)

subsection \<open>Go maps\<close>

text \<open>
  \<^verbatim>\<open>m[k]\<close> with its \<^verbatim>\<open>ok\<close> result is \<open>gm_get m k\<close>, an
  assignment \<open>gm_put\<close>, \<^verbatim>\<open>delete(m, k)\<close> is \<open>gm_del\<close>. Reading an
  absent key of a map of slices gives the empty slice: \<open>gm_list\<close>.
\<close>

abbreviation gm_get :: "('k, 'v) gomap \<Rightarrow> 'k \<Rightarrow> 'v option" where
  "gm_get \<equiv> map_of"

abbreviation gm_put :: "'k \<Rightarrow> 'v \<Rightarrow> ('k, 'v) gomap \<Rightarrow> ('k, 'v) gomap" where
  "gm_put \<equiv> AList.update"

abbreviation gm_del :: "'k \<Rightarrow> ('k, 'v) gomap \<Rightarrow> ('k, 'v) gomap" where
  "gm_del \<equiv> AList.delete"

abbreviation gm_keys :: "('k, 'v) gomap \<Rightarrow> 'k list" where
  "gm_keys \<equiv> map fst"

definition gm_list :: "('k, 'v list) gomap \<Rightarrow> 'k \<Rightarrow> 'v list" where
  "gm_list m k = (case gm_get m k of None \<Rightarrow> [] | Some xs \<Rightarrow> xs)"

definition gm_ok :: "('k, 'v) gomap \<Rightarrow> bool" where
  "gm_ok m = distinct (gm_keys m)"

lemma gm_ok_empty [simp]: "gm_ok []"
  by (simp add: gm_ok_def)

lemma gm_ok_put [simp]: "gm_ok m \<Longrightarrow> gm_ok (gm_put k v m)"
  by (simp add: gm_ok_def distinct_update)

lemma gm_ok_del [simp]: "gm_ok m \<Longrightarrow> gm_ok (gm_del k m)"
  by (simp add: gm_ok_def distinct_delete)

lemma gm_get_put [gomap_simps]: "gm_get (gm_put k v m) = (gm_get m)(k \<mapsto> v)"
  by (rule update_conv')

lemma gm_get_del [gomap_simps]: "gm_get (gm_del k m) = (gm_get m)(k := None)"
  by (rule delete_conv')

lemma set_gm_put: "set (gm_put k v m) \<subseteq> insert (k, v) (set m)"
  by (induction m) auto

lemma gm_list_empty [simp]: "gm_list [] k = []"
  by (simp add: gm_list_def)

lemma gm_list_put [gomap_simps]: "gm_list (gm_put k v m) k' = (if k' = k then v else gm_list m k')"
  by (simp add: gm_list_def gm_get_put)

lemma gm_list_del [gomap_simps]: "gm_list (gm_del k m) k' = (if k' = k then [] else gm_list m k')"
  by (simp add: gm_list_def gm_get_del)

lemma gm_keys_iff: "k \<in> set (gm_keys m) \<longleftrightarrow> gm_get m k \<noteq> None"
  by (simp add: map_of_eq_None_iff)

lemma gm_list_nonempty_key: "gm_list m k \<noteq> [] \<Longrightarrow> k \<in> set (gm_keys m)"
  by (auto simp: gm_list_def gm_keys_iff simp del: set_map split: option.splits)

text \<open>
  The order in which \<^verbatim>\<open>range\<close> visits a map is unspecified. Every definition
  that ranges over a map takes a function \<open>ord\<close> that arranges the keys; nothing more is
  known of it than that it permutes them.
\<close>

type_synonym range_order = "string list \<Rightarrow> string list"

definition range_order_ok :: "range_order \<Rightarrow> bool" where
  "range_order_ok ord \<longleftrightarrow> (\<forall>ks. mset (ord ks) = mset ks)"

lemma range_order_id [simp]: "range_order_ok (\<lambda>ks. ks)"
  by (simp add: range_order_ok_def)

lemma range_order_set: "range_order_ok ord \<Longrightarrow> set (ord ks) = set ks"
  unfolding range_order_ok_def by (metis mset_eq_setD)

lemma range_order_distinct: "range_order_ok ord \<Longrightarrow> distinct (ord ks) = distinct ks"
  unfolding range_order_ok_def by (metis mset_eq_imp_distinct_iff)

lemma range_order_length: "range_order_ok ord \<Longrightarrow> length (ord ks) = length ks"
  unfolding range_order_ok_def by (metis size_mset)

subsection \<open>Lists\<close>

text \<open>Appending the elements of a list that were not seen yet, in order: the pattern of
  \<^verbatim>\<open>seen\<close>/\<^verbatim>\<open>out\<close> closures in the source.\<close>

fun add_new :: "'a list \<Rightarrow> 'a list \<Rightarrow> 'a list" where
  "add_new out [] = out"
| "add_new out (x # xs) = (if x \<in> set out then add_new out xs else add_new (out @ [x]) xs)"

lemma set_add_new [simp]: "set (add_new out xs) = set out \<union> set xs"
  by (induction out xs rule: add_new.induct) auto

lemma distinct_add_new [simp]: "distinct (add_new out xs) = distinct out"
  by (induction out xs rule: add_new.induct) auto

lemma add_new_prefix: "\<exists>ys. add_new out xs = out @ ys"
  by (induction out xs rule: add_new.induct) auto

lemma add_new_fresh: "distinct (out @ xs) \<Longrightarrow> add_new out xs = out @ xs"
  by (induction out xs rule: add_new.induct) auto

end
