(* ===== verification/Go_Strings.thy ===== *)
theory Go_Strings
  imports Go_Prelude
begin

text \<open>
  The parts of Go's \<^verbatim>\<open>strings\<close> and \<^verbatim>\<open>unicode/utf8\<close> packages
  the program calls: rune decoding, \<^verbatim>\<open>ContainsAny\<close> on ASCII sets,
  \<^verbatim>\<open>IndexByte\<close>, \<^verbatim>\<open>Split\<close> on a one-byte separator,
  \<^verbatim>\<open>TrimSpace\<close> and \<^verbatim>\<open>ToLower\<close>.
\<close>

abbreviation byte :: "char \<Rightarrow> nat" where "byte \<equiv> of_char"

abbreviation rune_error :: nat where "rune_error \<equiv> 0xFFFD"

subsection \<open>UTF-8\<close>

definition cont_in :: "nat \<Rightarrow> nat \<Rightarrow> char \<Rightarrow> bool" where
  "cont_in lo hi c = (lo \<le> byte c \<and> byte c \<le> hi)"

text \<open>\<^verbatim>\<open>utf8.DecodeRuneInString\<close>: the rune and its width; an invalid
  encoding is the replacement rune with width 1.\<close>

fun decode_rune :: "string \<Rightarrow> nat \<times> nat" where
  "decode_rune [] = (rune_error, 0)"
| "decode_rune (c # s) =
     (let b = byte c in
      if b < 0x80 then (b, 1)
      else if 0xC2 \<le> b \<and> b \<le> 0xDF then
        (case s of
           c1 # _ \<Rightarrow> if cont_in 0x80 0xBF c1 then ((b - 0xC0) * 64 + (byte c1 - 0x80), 2)
                     else (rune_error, 1)
         | _ \<Rightarrow> (rune_error, 1))
      else if 0xE0 \<le> b \<and> b \<le> 0xEF then
        (case s of
           c1 # c2 # _ \<Rightarrow>
             if cont_in (if b = 0xE0 then 0xA0 else 0x80) (if b = 0xED then 0x9F else 0xBF) c1
                \<and> cont_in 0x80 0xBF c2
             then ((b - 0xE0) * 4096 + (byte c1 - 0x80) * 64 + (byte c2 - 0x80), 3)
             else (rune_error, 1)
         | _ \<Rightarrow> (rune_error, 1))
      else if 0xF0 \<le> b \<and> b \<le> 0xF4 then
        (case s of
           c1 # c2 # c3 # _ \<Rightarrow>
             if cont_in (if b = 0xF0 then 0x90 else 0x80) (if b = 0xF4 then 0x8F else 0xBF) c1
                \<and> cont_in 0x80 0xBF c2 \<and> cont_in 0x80 0xBF c3
             then ((b - 0xF0) * 262144 + (byte c1 - 0x80) * 4096 + (byte c2 - 0x80) * 64
                     + (byte c3 - 0x80), 4)
             else (rune_error, 1)
         | _ \<Rightarrow> (rune_error, 1))
      else (rune_error, 1))"

lemma decode_rune_width:
  "s \<noteq> [] \<Longrightarrow> 1 \<le> snd (decode_rune s) \<and> snd (decode_rune s) \<le> length s"
  by (cases s) (auto simp: Let_def split: list.splits)

lemma decode_rune_shrinks:
  "(r, w) = decode_rune s \<Longrightarrow> s \<noteq> [] \<Longrightarrow> length s - w < length s"
  using decode_rune_width [of s] by (metis diff_less le_zero_eq length_greater_0_conv
      less_one linorder_not_le snd_conv zero_less_iff_neq_zero)

lemma decode_rune_ascii: "byte c < 0x80 \<Longrightarrow> decode_rune (c # s) = (byte c, 1)"
  by (simp add: Let_def)

text \<open>\<^verbatim>\<open>utf8.DecodeLastRuneInString\<close>: look back at most four bytes for the
  byte that starts the last rune.\<close>

definition rune_start :: "char \<Rightarrow> bool" where
  "rune_start c = (\<not> (0x80 \<le> byte c \<and> byte c < 0xC0))"

definition decode_last_rune :: "string \<Rightarrow> nat \<times> nat" where
  "decode_last_rune s =
     (let n = length s in
      if n = 0 then (rune_error, 0)
      else if byte (last s) < 0x80 then (byte (last s), 1)
      else case find (\<lambda>k. k \<le> n \<and> rune_start (s ! (n - k))) [2, 3, 4] of
             None \<Rightarrow> (rune_error, 1)
           | Some k \<Rightarrow> (let (r, w) = decode_rune (drop (n - k) s)
                       in if w = k then (r, w) else (rune_error, 1)))"

lemma decode_last_rune_width:
  assumes "s \<noteq> []"
  shows "1 \<le> snd (decode_last_rune s)" and "snd (decode_last_rune s) \<le> length s"
proof -
  have w: "1 \<le> k \<and> k \<le> length s"
    if "find (\<lambda>k. k \<le> length s \<and> rune_start (s ! (length s - k))) [2, 3, 4] = Some k" for k
    using that by (auto split: if_splits)
  have pos: "1 \<le> length s" using assms by (cases s) auto
  show "1 \<le> snd (decode_last_rune s)" and "snd (decode_last_rune s) \<le> length s"
    using assms pos w
    by (auto simp: decode_last_rune_def Let_def simp del: find.simps
        split: option.splits prod.splits if_splits)
qed

lemma decode_last_rune_shrinks:
  "(r, w) = decode_last_rune s \<Longrightarrow> s \<noteq> [] \<Longrightarrow> length s - w < length s"
  using decode_last_rune_width [of s] by (metis diff_less le_zero_eq length_greater_0_conv
      less_one linorder_not_le snd_conv zero_less_iff_neq_zero)

subsection \<open>Searching, splitting, trimming\<close>

definition ContainsAny :: "string \<Rightarrow> string \<Rightarrow> bool" where
  "ContainsAny s cs = list_ex (\<lambda>c. c \<in> set cs) s"

text \<open>\<^verbatim>\<open>strings.Split(s, sep)\<close> for a separator of one byte: the pieces
  between separators, \<^verbatim>\<open>[""]\<close> for the empty string.\<close>

fun Split :: "char \<Rightarrow> string \<Rightarrow> string list" where
  "Split sep [] = [[]]"
| "Split sep (c # s) =
     (if c = sep then [] # Split sep s
      else case Split sep s of p # ps \<Rightarrow> (c # p) # ps | [] \<Rightarrow> [[c]])"

lemma Split_not_Nil [simp]: "Split sep s \<noteq> []"
  by (induction s) (auto split: list.splits)

lemma Split_pieces: "p \<in> set (Split sep s) \<Longrightarrow> sep \<notin> set p"
  by (induction s arbitrary: p) (fastforce split: list.splits if_splits)+

definition Join :: "char \<Rightarrow> string list \<Rightarrow> string" where
  "Join sep ps = (case ps of [] \<Rightarrow> [] | p # qs \<Rightarrow> p @ concat (map (\<lambda>q. sep # q) qs))"

lemma Split_append:
  "sep \<notin> set p \<Longrightarrow> Split sep (p @ sep # s) = p # Split sep s"
  by (induction p) auto

lemma Split_plain: "sep \<notin> set p \<Longrightarrow> Split sep p = [p]"
  by (induction p) auto

lemma Split_Join:
  "\<forall>p \<in> set ps. sep \<notin> set p \<Longrightarrow> ps \<noteq> [] \<Longrightarrow> Split sep (Join sep ps) = ps"
proof (induction ps)
  case Nil
  then show ?case by simp
next
  case (Cons p ps)
  then show ?case
    by (cases ps) (auto simp: Join_def Split_append Split_plain)
qed

text \<open>\<^verbatim>\<open>unicode.IsSpace\<close>.\<close>

definition is_space :: "nat \<Rightarrow> bool" where
  "is_space r = (r \<in> set [0x09, 0x0A, 0x0B, 0x0C, 0x0D, 0x20, 0x85, 0xA0, 0x1680, 0x2028,
                        0x2029, 0x202F, 0x205F, 0x3000] \<or> (0x2000 \<le> r \<and> r \<le> 0x200A))"

function trim_left :: "string \<Rightarrow> string" where
  "trim_left s =
     (if s = [] then []
      else let (r, w) = decode_rune s in if is_space r then trim_left (drop w s) else s)"
  by pat_completeness auto
termination
  by (relation "measure length") (auto intro: decode_rune_shrinks)

function trim_right :: "string \<Rightarrow> string" where
  "trim_right s =
     (if s = [] then []
      else let (r, w) = decode_last_rune s
           in if is_space r then trim_right (take (length s - w) s) else s)"
  by pat_completeness auto
termination
  by (relation "measure length") (auto intro: decode_last_rune_shrinks)

declare trim_left.simps [simp del] trim_right.simps [simp del]

definition TrimSpace :: "string \<Rightarrow> string" where
  "TrimSpace s = trim_right (trim_left s)"

lemma TrimSpace_plain:
  assumes "\<forall>c \<in> set s. byte c < 0x80 \<and> \<not> is_space (byte c)"
  shows "TrimSpace s = s"
proof (cases s)
  case Nil
  then show ?thesis by (simp add: TrimSpace_def trim_left.simps trim_right.simps)
next
  case (Cons c t)
  then have l: "trim_left s = s"
    using assms by (subst trim_left.simps) (auto simp: Let_def)
  have "last s \<in> set s" using Cons by simp
  then have "decode_last_rune s = (byte (last s), 1)" "\<not> is_space (byte (last s))"
    using assms Cons by (auto simp: decode_last_rune_def)
  then have "trim_right s = s" by (subst trim_right.simps) simp
  with l show ?thesis by (simp add: TrimSpace_def)
qed

text \<open>
  \<^verbatim>\<open>strings.ToLower\<close>, as far as a comparison of the result with an ASCII name
  can tell: ASCII letters, and the two other runes whose lower case is an ASCII letter (U+0130
  and U+212A). Other runes are kept; the library maps them to runes outside ASCII, which no
  name the program looks up contains.
\<close>

function ToLower :: "string \<Rightarrow> string" where
  "ToLower s =
     (if s = [] then []
      else let (r, w) = decode_rune s in
        (if 0x41 \<le> r \<and> r \<le> 0x5A then [char_of (r + 32)]
         else if r = 0x130 then ''i''
         else if r = 0x212A then ''k''
         else take w s) @ ToLower (drop w s))"
  by pat_completeness auto
termination
  by (relation "measure length") (auto intro: decode_rune_shrinks)

declare ToLower.simps [simp del]

end
