(* ===== verification/Topics.thy ===== *)
theory Topics
  imports Go_Strings "HOL-Library.Sublist"
begin

text \<open>
  Wildcard topics (\<^verbatim>\<open>src/topics.go\<close>) over Go's \<^verbatim>\<open>path.Match\<close>.
  The matcher is modelled byte for byte: \<open>scanChunk\<close> cuts the pattern at unbracketed stars,
  \<open>matchChunk\<close> matches one chunk and reports a malformed pattern as \<open>None\<close>, and
  \<open>path_Match\<close> tries the leftmost place for every starred chunk.
\<close>

subsection \<open>path.Match\<close>

abbreviation backslash :: char where "backslash \<equiv> CHR 0x5C"

definition getEsc :: "string \<Rightarrow> (nat \<times> string) option" where
  "getEsc chunk =
     (case chunk of
        [] \<Rightarrow> None
      | c # cs \<Rightarrow>
          if c = CHR ''-'' \<or> c = CHR '']'' then None
          else let chunk1 = (if c = backslash then cs else chunk) in
            if chunk1 = [] then None
            else let (r, n) = decode_rune chunk1; nchunk = drop n chunk1 in
              if (r = rune_error \<and> n = 1) \<or> nchunk = [] then None else Some (r, nchunk))"

lemma getEsc_shrinks: "getEsc chunk = Some (r, nchunk) \<Longrightarrow> length nchunk < length chunk"
  by (fastforce simp: getEsc_def Let_def split: list.splits if_splits prod.splits
      dest: decode_rune_shrinks [OF sym])

text \<open>The loop over the ranges of a character class, after the opening bracket.\<close>

function class_loop :: "nat \<Rightarrow> string \<Rightarrow> nat \<Rightarrow> bool \<Rightarrow> (bool \<times> string) option" where
  "class_loop r chunk nrange matched =
     (if chunk \<noteq> [] \<and> hd chunk = CHR '']'' \<and> 0 < nrange then Some (matched, tl chunk)
      else case getEsc chunk of
        None \<Rightarrow> None
      | Some (lo, chunk1) \<Rightarrow>
          (case (if hd chunk1 = CHR ''-'' then getEsc (tl chunk1) else Some (lo, chunk1)) of
             None \<Rightarrow> None
           | Some (hi, chunk2) \<Rightarrow>
               class_loop r chunk2 (Suc nrange) (matched \<or> (lo \<le> r \<and> r \<le> hi))))"
  by pat_completeness auto
termination
proof (relation "measure (\<lambda>(r, chunk, n, m). length chunk)", simp, goal_cases)
  case (1 r chunk nrange matched x lo chunk1 y hi chunk2)
  then have "length chunk1 < length chunk" by (auto dest: getEsc_shrinks)
  moreover have "length chunk2 \<le> length chunk1"
    using 1 by (auto dest!: getEsc_shrinks split: if_splits)
  ultimately show ?case by simp
qed

declare class_loop.simps [simp del]

lemma class_loop_shrinks:
  "class_loop r chunk n m = Some (m', rest) \<Longrightarrow> length rest < length chunk"
proof (induction r chunk n m rule: class_loop.induct)
  case (1 r chunk n m)
  show ?case
  proof (cases "chunk \<noteq> [] \<and> hd chunk = CHR '']'' \<and> 0 < n")
    case True
    with "1.prems" have "rest = tl chunk" by (simp add: class_loop.simps [of r chunk])
    with True show ?thesis by (cases chunk) auto
  next
    case False
    with "1.prems" obtain lo c1 hi c2 where
      e: "getEsc chunk = Some (lo, c1)"
      and h: "(if hd c1 = CHR ''-'' then getEsc (tl c1) else Some (lo, c1)) = Some (hi, c2)"
      and l: "class_loop r c2 (Suc n) (m \<or> (lo \<le> r \<and> r \<le> hi)) = Some (m', rest)"
      by (auto simp: class_loop.simps [of r chunk] split: option.splits)
    have "length rest < length c2"
      using "1.IH" [OF False e _ h _ l] by auto
    moreover have "length c2 \<le> length c1"
      using h by (auto dest!: getEsc_shrinks split: if_splits)
    ultimately show ?thesis using getEsc_shrinks [OF e] by simp
  qed
qed

text \<open>
  \<^verbatim>\<open>matchChunk\<close>: \<open>Some (rest, ok)\<close>, or \<open>None\<close> for
  \<^verbatim>\<open>ErrBadPattern\<close>. After a mismatch the loop only checks the chunk's syntax.
\<close>

function match_loop :: "bool \<Rightarrow> string \<Rightarrow> string \<Rightarrow> (string \<times> bool) option" where
  "match_loop failed0 chunk s =
     (if chunk = [] then Some (if failed0 then ([], False) else (s, True))
      else let failed = (failed0 \<or> s = []) in
        if hd chunk = CHR ''['' then
          (let (r, n) = (if failed then (0, 0) else decode_rune s);
               negated = (tl chunk \<noteq> [] \<and> hd (tl chunk) = CHR ''^'');
               body = (if negated then tl (tl chunk) else tl chunk) in
           case class_loop r body 0 False of
             None \<Rightarrow> None
           | Some (m, chunk') \<Rightarrow> match_loop (failed \<or> m = negated) chunk' (drop n s))
        else if hd chunk = CHR ''?'' then
          (if failed then match_loop True (tl chunk) s
           else match_loop (hd s = CHR ''/'') (tl chunk) (drop (snd (decode_rune s)) s))
        else if hd chunk = backslash \<and> tl chunk = [] then None
        else (let lit = (if hd chunk = backslash then tl chunk else chunk) in
              if failed then match_loop True (tl lit) s
              else match_loop (hd lit \<noteq> hd s) (tl lit) (tl s)))"
  by pat_completeness auto
termination
proof (relation "measure (\<lambda>(f, chunk, s). length chunk)", goal_cases)
  case 1
  show ?case by simp
next
  case (2 failed0 chunk s failed x r n negated body y m chunk')
  then have "length chunk' < length (tl chunk)"
    by (auto dest!: class_loop_shrinks split: if_splits)
  with 2 show ?case by simp
qed (auto simp: neq_Nil_conv split: if_splits)

declare match_loop.simps [simp del]

abbreviation matchChunk :: "string \<Rightarrow> string \<Rightarrow> (string \<times> bool) option" where
  "matchChunk \<equiv> match_loop False"

fun scan_loop :: "bool \<Rightarrow> string \<Rightarrow> string \<times> string" where
  "scan_loop inrange [] = ([], [])"
| "scan_loop inrange (c # p) =
     (if c = backslash then
        (case p of
           [] \<Rightarrow> ([c], [])
         | d # q \<Rightarrow> (let (a, b) = scan_loop inrange q in (c # d # a, b)))
      else if c = CHR ''*'' \<and> \<not> inrange then ([], c # p)
      else (let (a, b) = scan_loop (if c = CHR ''['' then True else if c = CHR '']'' then False
                                    else inrange) p
            in (c # a, b)))"

definition scanChunk :: "string \<Rightarrow> bool \<times> string \<times> string" where
  "scanChunk pattern =
     (let p = dropWhile (\<lambda>c. c = CHR ''*'') pattern
      in (p \<noteq> pattern, scan_loop False p))"

lemma scan_loop_length: "length (fst (scan_loop b p)) + length (snd (scan_loop b p)) = length p"
proof (induction b p rule: scan_loop.induct)
  case (2 inrange c p)
  show ?case
  proof (cases "c = backslash")
    case True
    with "2.IH"(1) [OF True] show ?thesis by (cases p) (simp_all add: case_prod_beta)
  next
    case False
    with "2.IH"(2) [OF False] show ?thesis
      by (cases "c = CHR ''*'' \<and> \<not> inrange") (simp_all add: case_prod_beta)
  qed
qed simp

lemma scan_loop_nonempty: "p \<noteq> [] \<Longrightarrow> hd p \<noteq> CHR ''*'' \<Longrightarrow> fst (scan_loop False p) \<noteq> []"
proof (cases p)
  case (Cons c q)
  assume "hd p \<noteq> CHR ''*''"
  with Cons show ?thesis by (cases q) (simp_all add: case_prod_beta)
qed simp

lemma scanChunk_shrinks:
  assumes "pattern \<noteq> []" and "scanChunk pattern = (star, chunk, rest)"
  shows "length rest < length pattern"
proof -
  let ?p = "dropWhile (\<lambda>c. c = CHR ''*'') pattern"
  have s: "scan_loop False ?p = (chunk, rest)" and star: "star = (?p \<noteq> pattern)"
    using assms(2) by (auto simp: scanChunk_def Let_def)
  have len: "length chunk + length rest = length ?p" using scan_loop_length [of False ?p] s by simp
  show ?thesis
  proof (cases "hd pattern = CHR ''*''")
    case True
    with assms(1) have "length ?p < length pattern"
      by (cases pattern) (auto intro: le_imp_less_Suc length_dropWhile_le)
    with len show ?thesis by simp
  next
    case False
    with assms(1) have "?p = pattern" by (cases pattern) auto
    with False assms(1) s have "chunk \<noteq> []" using scan_loop_nonempty [of pattern] by simp
    with len \<open>?p = pattern\<close> show ?thesis by (cases chunk) auto
  qed
qed

text \<open>After a star: the first later place, not beyond a slash, where the chunk matches (up to
  the end of the name when it is the last chunk).\<close>

fun star_skip :: "bool \<Rightarrow> string \<Rightarrow> string \<Rightarrow> string option option" where
  "star_skip is_last chunk [] = Some None"
| "star_skip is_last chunk (c # name) =
     (if c = CHR ''/'' then Some None
      else case matchChunk chunk name of
        None \<Rightarrow> None
      | Some (t, ok) \<Rightarrow>
          if ok \<and> \<not> (is_last \<and> t \<noteq> []) then Some (Some t) else star_skip is_last chunk name)"

text \<open>The syntax check of the rest of the pattern before a clean "no match".\<close>

function valid_rest :: "string \<Rightarrow> bool" where
  "valid_rest pattern =
     (if pattern = [] then True
      else let (star, chunk, rest) = scanChunk pattern
           in matchChunk chunk [] \<noteq> None \<and> valid_rest rest)"
  by pat_completeness auto
termination
  by (relation "measure length") (auto intro: scanChunk_shrinks [OF _ sym])

function path_Match :: "string \<Rightarrow> string \<Rightarrow> bool option" where
  "path_Match pattern name =
     (if pattern = [] then Some (name = [])
      else let (star, chunk, rest) = scanChunk pattern in
        if star \<and> chunk = [] then Some (CHR ''/'' \<notin> set name)
        else case matchChunk chunk name of
          None \<Rightarrow> None
        | Some (t, ok) \<Rightarrow>
            if ok \<and> (t = [] \<or> rest \<noteq> []) then path_Match rest t
            else case (if star then star_skip (rest = []) chunk name else Some None) of
              None \<Rightarrow> None
            | Some (Some t') \<Rightarrow> path_Match rest t'
            | Some None \<Rightarrow> if valid_rest rest then Some False else None)"
  by pat_completeness auto
termination
  by (relation "measure (\<lambda>(p, n). length p)") (auto intro: scanChunk_shrinks [OF _ sym])

declare valid_rest.simps [simp del] path_Match.simps [simp del]

subsection \<open>topics.go\<close>

definition hasWildcard :: "string \<Rightarrow> bool" where
  "hasWildcard key = ContainsAny key ''*?[''"

definition keyMatches :: "string \<Rightarrow> string \<Rightarrow> bool" where
  "keyMatches pattern key =
     (if \<not> hasWildcard pattern then pattern = key
      else case path_Match pattern key of None \<Rightarrow> False | Some ok \<Rightarrow> ok)"

subsection \<open>What patterns match\<close>

text \<open>A byte with no special meaning in a pattern.\<close>

definition plain_byte :: "char \<Rightarrow> bool" where
  "plain_byte c = (c \<notin> {CHR ''*'', CHR ''?'', CHR ''['', backslash})"

lemma hasWildcard_append [simp]: "hasWildcard (p @ q) = (hasWildcard p \<or> hasWildcard q)"
  by (auto simp: hasWildcard_def ContainsAny_def)

lemma plain_no_wildcard: "\<forall>c \<in> set p. plain_byte c \<Longrightarrow> \<not> hasWildcard p"
  by (auto simp: hasWildcard_def ContainsAny_def plain_byte_def list_ex_iff)

lemma matchChunk_plain:
  "\<forall>c \<in> set p. plain_byte c \<Longrightarrow>
     match_loop failed p s =
       Some (if \<not> failed \<and> prefix p s then (drop (length p) s, True) else ([], False))"
proof (induction p arbitrary: failed s)
  case Nil
  then show ?case by (simp add: match_loop.simps)
next
  case (Cons c p)
  then have "c \<noteq> CHR ''[''" "c \<noteq> CHR ''?''" "c \<noteq> backslash" by (auto simp: plain_byte_def)
  with Cons show ?case
    by (cases s) (simp_all add: match_loop.simps [of failed "c # p"] Let_def)
qed

lemma scan_loop_plain:
  "\<forall>c \<in> set p. plain_byte c \<Longrightarrow> scan_loop False (p @ ''*'') = (p, ''*'')"
proof (induction p)
  case Nil
  then show ?case by simp
next
  case (Cons c p)
  then have "c \<noteq> CHR ''[''" "c \<noteq> CHR ''*''" "c \<noteq> backslash" by (auto simp: plain_byte_def)
  with Cons show ?case by simp
qed

lemma scanChunk_star: "scanChunk ''*'' = (True, [], [])"
  by (simp add: scanChunk_def)

lemma path_Match_star: "path_Match ''*'' name = Some (CHR ''/'' \<notin> set name)"
  by (subst path_Match.simps) (simp add: scanChunk_star)

lemma valid_rest_star: "valid_rest ''*''"
  by (subst valid_rest.simps) (auto simp: scanChunk_star valid_rest.simps [of "[]"] match_loop.simps [of False "[]"])

lemma path_Match_prefix_star:
  assumes "\<forall>c \<in> set p. plain_byte c"
  shows "path_Match (p @ ''*'') name = Some (prefix p name \<and> CHR ''/'' \<notin> set (drop (length p) name))"
proof (cases p)
  case Nil
  then show ?thesis by (simp add: path_Match_star)
next
  case (Cons c q)
  with assms have "c \<noteq> CHR ''*''" by (auto simp: plain_byte_def)
  with Cons have "dropWhile (\<lambda>c. c = CHR ''*'') (p @ ''*'') = p @ ''*''" by simp
  then have s: "scanChunk (p @ ''*'') = (False, p, ''*'')"
    using assms by (simp add: scanChunk_def scan_loop_plain)
  have "p \<noteq> []" using Cons by simp
  then show ?thesis
    by (subst path_Match.simps)
      (simp add: s matchChunk_plain [OF assms] path_Match_star valid_rest_star)
qed

lemma keyMatches_prefix_star:
  assumes "\<forall>c \<in> set p. plain_byte c"
  shows "keyMatches (p @ ''*'') k \<longleftrightarrow> (\<exists>r. k = p @ r \<and> CHR ''/'' \<notin> set r)"
proof -
  have "hasWildcard (p @ ''*'')" by (simp add: hasWildcard_def ContainsAny_def)
  then show ?thesis
    by (auto simp: keyMatches_def path_Match_prefix_star [OF assms] prefix_def)
qed

text \<open>C34: A subscription \<open>p*\<close>, with no other pattern character in \<open>p\<close>, receives exactly the keys that extend \<open>p\<close>
  by text without a slash; a star does not cross a slash.\<close>

theorem prefix_subscription:
  assumes "\<forall>c \<in> set p. plain_byte c"
  shows "keyMatches (p @ ''*'') k \<longleftrightarrow> (\<exists>r. k = p @ r \<and> CHR ''/'' \<notin> set r)"
  by (rule keyMatches_prefix_star [OF assms])

theorem prefix_subscription_witness:
  "keyMatches ''user/*'' ''user/42'' \<and> \<not> keyMatches ''user/*'' ''user/42/x'' \<and> \<not> keyMatches ''user/*'' ''admin''"
proof -
  have "\<forall>c \<in> set ''user/''. plain_byte c" by (simp add: plain_byte_def)
  from prefix_subscription [OF this] show ?thesis by simp
qed

end
