(* ===== verification/Go_Float.thy ===== *)
theory Go_Float
  imports Complex_Main "HOL-Library.Log_Nat" Go_Prelude
begin

text \<open>
  Go's \<^verbatim>\<open>float64\<close>: binary64 with round to nearest, ties to even, on rationals,
  together with the infinities and NaN. The sign of zero is not kept: no operation used by the
  program can observe it. The rounding function satisfies the interface \<open>rounding\<close> (monotone,
  exact on the integers up to \<open>2 ^ 53\<close>), which is all that the users of floats rely on.
\<close>

subsection \<open>Rounding\<close>

text \<open>Nearest integer, ties to even.\<close>

definition rne :: "rat \<Rightarrow> int" where
  "rne y = (let f = \<lfloor>y\<rfloor>; d = y - of_int f in
            if d < 1/2 then f else if 1/2 < d then f + 1 else if even f then f else f + 1)"

lemma rne_of_int [simp]: "rne (of_int n) = n"
  by (simp add: rne_def)

lemma rne_bounds: "\<lfloor>y\<rfloor> \<le> rne y \<and> rne y \<le> \<lfloor>y\<rfloor> + 1"
  by (simp add: rne_def Let_def)

lemma rne_mono: "x \<le> y \<Longrightarrow> rne x \<le> rne y"
proof (cases "\<lfloor>x\<rfloor> = \<lfloor>y\<rfloor>")
  case True
  assume "x \<le> y"
  with True show ?thesis by (auto simp: rne_def Let_def)
next
  case False
  assume "x \<le> y"
  then have "\<lfloor>x\<rfloor> \<le> \<lfloor>y\<rfloor>" by (rule floor_mono)
  with False have "\<lfloor>x\<rfloor> + 1 \<le> \<lfloor>y\<rfloor>" by simp
  then show ?thesis using rne_bounds [of x] rne_bounds [of y] by linarith
qed

lemma rne_le_int: "y \<le> of_int n \<Longrightarrow> rne y \<le> n"
  using rne_mono [of y "of_int n"] by simp

lemma int_le_rne: "of_int n \<le> y \<Longrightarrow> n \<le> rne y"
  using rne_mono [of "of_int n" y] by simp

text \<open>The binary exponent of a rational: \<open>2 powi e \<le> \<bar>x\<bar> < 2 powi (e + 1)\<close>.\<close>

definition f64_expo :: "rat \<Rightarrow> int" where
  "f64_expo x = (let (p, q) = quotient_of \<bar>x\<bar>; e = bitlen p - bitlen q in
                 if 2 powi e \<le> \<bar>x\<bar> then e else e - 1)"

lemma bitlen_powi:
  assumes "0 < p"
  shows "(2::rat) powi (bitlen p - 1) \<le> of_int p" and "of_int p < (2::rat) powi bitlen p"
proof -
  have b: "1 \<le> bitlen p" using assms by (simp add: bitlen_def floorlog_def)
  have "2 ^ nat (bitlen p - 1) \<le> p \<and> p < 2 ^ nat (bitlen p)"
    using bitlen_bounds [OF assms] .
  then have "(of_int (2 ^ nat (bitlen p - 1)) :: rat) \<le> of_int p"
    and "(of_int p :: rat) < of_int (2 ^ nat (bitlen p))"
    by (metis of_int_le_iff, metis of_int_less_iff)
  with b show "(2::rat) powi (bitlen p - 1) \<le> of_int p" and "of_int p < (2::rat) powi bitlen p"
    by (simp_all add: power_int_def)
qed

lemma f64_expo_bounds:
  assumes "x \<noteq> 0"
  shows "2 powi f64_expo x \<le> \<bar>x\<bar>" and "\<bar>x\<bar> < 2 powi (f64_expo x + 1)"
proof -
  obtain p q where pq: "quotient_of \<bar>x\<bar> = (p, q)" by (cases "quotient_of \<bar>x\<bar>")
  have q: "0 < q" using pq by (rule quotient_of_denom_pos)
  have x: "\<bar>x\<bar> = of_int p / of_int q" using pq by (rule quotient_of_div)
  have "0 < \<bar>x\<bar>" using assms by simp
  then have p: "0 < p" using x q by (simp add: zero_less_divide_iff)
  let ?e = "bitlen p - bitlen q"
  have "of_int p / of_int q < (2::rat) powi bitlen p / 2 powi (bitlen q - 1)"
    using bitlen_powi [OF p] bitlen_powi [OF q] q p by (intro frac_less) auto
  also have "\<dots> = 2 powi (?e + 1)" by (simp add: power_int_diff [symmetric] algebra_simps)
  finally have u: "\<bar>x\<bar> < 2 powi (?e + 1)" using x by simp
  have "(2::rat) powi (bitlen p - 1) / 2 powi bitlen q \<le> of_int p / of_int q"
    using bitlen_powi [OF p] bitlen_powi [OF q] q p by (intro frac_le) auto
  moreover have "(2::rat) powi (bitlen p - 1) / 2 powi bitlen q = 2 powi (?e - 1)"
    by (simp add: power_int_diff [symmetric] algebra_simps)
  ultimately have l: "2 powi (?e - 1) \<le> \<bar>x\<bar>" using x by simp
  show "2 powi f64_expo x \<le> \<bar>x\<bar>" and "\<bar>x\<bar> < 2 powi (f64_expo x + 1)"
    using u l by (auto simp: f64_expo_def pq Let_def)
qed

definition f64_ulp :: "rat \<Rightarrow> rat" where
  "f64_ulp x = 2 powi (max (f64_expo x - 52) (- 1074))"

definition f64_round :: "rat \<Rightarrow> rat" where
  "f64_round x = (if x = 0 then 0 else of_int (rne (x / f64_ulp x)) * f64_ulp x)"

lemma f64_ulp_pos [simp]: "0 < f64_ulp x"
  by (simp add: f64_ulp_def)

lemma rne_minus: "rne (- y) = - rne y"
proof (cases "y = of_int \<lfloor>y\<rfloor>")
  case True
  then have "rne (- y) = - \<lfloor>y\<rfloor>" by (metis of_int_minus rne_of_int)
  then show ?thesis using True by (metis rne_of_int)
next
  case False
  then have fl: "\<lfloor>- y\<rfloor> = - \<lfloor>y\<rfloor> - 1"
    using floor_minus [of y] ceiling_altdef [of y] by (auto split: if_splits)
  have ev: "even (- \<lfloor>y\<rfloor> - 1) = odd \<lfloor>y\<rfloor>" by simp
  show ?thesis unfolding rne_def Let_def fl ev by (auto simp: field_simps)
qed

lemma f64_round_minus: "f64_round (- x) = - f64_round x"
  by (simp add: f64_round_def f64_ulp_def f64_expo_def rne_minus)

lemma powi_grid:
  assumes "k \<le> n"
  shows "(2::rat) powi n = of_int (2 ^ nat (n - k)) * 2 powi k"
proof -
  have "(2::rat) powi n = 2 powi (n - k) * 2 powi k"
    by (simp add: power_int_add [symmetric])
  with assms show ?thesis by (simp add: power_int_def)
qed

lemma f64_round_le_grid:
  assumes "0 < x" and "x \<le> of_int m * f64_ulp x"
  shows "f64_round x \<le> of_int m * f64_ulp x"
proof -
  have "x / f64_ulp x \<le> of_int m" using assms by (simp add: pos_divide_le_eq)
  then have "rne (x / f64_ulp x) \<le> m" by (rule rne_le_int)
  then have "(of_int (rne (x / f64_ulp x)) :: rat) \<le> of_int m" by simp
  with assms(1) show ?thesis by (simp add: f64_round_def)
qed

lemma f64_grid_le_round:
  assumes "0 < x" and "of_int m * f64_ulp x \<le> x"
  shows "of_int m * f64_ulp x \<le> f64_round x"
proof -
  have "of_int m \<le> x / f64_ulp x" using assms by (simp add: pos_le_divide_eq)
  then have "m \<le> rne (x / f64_ulp x)" by (rule int_le_rne)
  then have "(of_int m :: rat) \<le> of_int (rne (x / f64_ulp x))" by simp
  with assms(1) show ?thesis by (simp add: f64_round_def)
qed

lemma f64_expo_mono:
  assumes "0 < x" and "x \<le> y"
  shows "f64_expo x \<le> f64_expo y"
proof (rule ccontr)
  assume "\<not> ?thesis"
  then have "f64_expo y + 1 \<le> f64_expo x" by simp
  then have "(2::rat) powi (f64_expo y + 1) \<le> 2 powi f64_expo x"
    by (rule power_int_increasing) simp
  with f64_expo_bounds [of x] f64_expo_bounds [of y] assms show False by auto
qed

lemma f64_round_mono_pos:
  assumes "0 < x" and "x \<le> y"
  shows "f64_round x \<le> f64_round y"
proof (cases "f64_ulp x = f64_ulp y")
  case True
  have "x / f64_ulp y \<le> y / f64_ulp y" using assms by (intro divide_right_mono) (auto intro: less_imp_le)
  then have "(of_int (rne (x / f64_ulp y)) :: rat) \<le> of_int (rne (y / f64_ulp y))"
    using rne_mono by simp
  with True assms show ?thesis by (simp add: f64_round_def mult_right_mono)
next
  case False
  let ?ex = "f64_expo x" and ?ey = "f64_expo y"
  have le: "?ex \<le> ?ey" by (rule f64_expo_mono [OF assms])
  with False have lt: "?ex < ?ey" and ky: "max (?ey - 52) (- 1074) = ?ey - 52"
    and kx: "max (?ex - 52) (- 1074) \<le> ?ey"
    by (auto simp: f64_ulp_def max_def split: if_splits) (metis le le_less)+
  have gx: "(2::rat) powi ?ey = of_int (2 ^ nat (?ey - max (?ex - 52) (- 1074))) * f64_ulp x"
    unfolding f64_ulp_def by (rule powi_grid [OF kx])
  have gy: "(2::rat) powi ?ey = of_int (2 ^ nat (?ey - (?ey - 52))) * f64_ulp y"
    unfolding f64_ulp_def ky by (rule powi_grid) simp
  have "x \<le> 2 powi ?ey"
    using f64_expo_bounds(2) [of x] power_int_increasing [of "?ex + 1" ?ey "2::rat"] assms(1) lt
    by auto
  then have "f64_round x \<le> 2 powi ?ey"
    unfolding gx by (rule f64_round_le_grid [OF assms(1)])
  also have "2 powi ?ey \<le> f64_round y"
  proof -
    have "2 powi ?ey \<le> y" using f64_expo_bounds(1) [of y] assms by auto
    then show ?thesis unfolding gy using assms by (intro f64_grid_le_round) auto
  qed
  finally show ?thesis .
qed

lemma f64_round_nonneg: "0 \<le> x \<Longrightarrow> 0 \<le> f64_round x"
  using f64_grid_le_round [of x 0] by (cases "x = 0") (auto simp: f64_round_def)

lemma f64_round_mono: "x \<le> y \<Longrightarrow> f64_round x \<le> f64_round y"
proof -
  assume le: "x \<le> y"
  consider "0 < x" | "x \<le> 0" "0 \<le> y" | "y < 0" using le by linarith
  then show ?thesis
  proof cases
    case 1
    then show ?thesis using le by (rule f64_round_mono_pos)
  next
    case 2
    then have "0 \<le> f64_round (- x)" "0 \<le> f64_round y" by (auto intro: f64_round_nonneg)
    then show ?thesis by (simp add: f64_round_minus)
  next
    case 3
    with le have "f64_round (- y) \<le> f64_round (- x)" by (intro f64_round_mono_pos) auto
    then show ?thesis by (simp add: f64_round_minus)
  qed
qed

text \<open>A multiple of a power of two that needs at most 53 bits is its own rounding.\<close>

lemma f64_round_representable:
  assumes m: "\<bar>m\<bar> \<le> 2 ^ 53" and k: "- 1074 \<le> k" and x: "x = of_int m * 2 powi k"
  shows "f64_round x = x"
proof (cases "m = 0")
  case True
  with x show ?thesis by (simp add: f64_round_def)
next
  case False
  then have nz: "x \<noteq> 0" using x by simp
  have "(2::rat) powi f64_expo x \<le> of_int \<bar>m\<bar> * 2 powi k"
    using f64_expo_bounds(1) [OF nz] x by (simp add: abs_mult)
  also have "\<dots> \<le> (of_int (2 ^ 53) :: rat) * 2 powi k"
    using m by (intro mult_right_mono) (simp_all only: of_int_le_iff zero_le_power_int zero_le_numeral)
  also have "\<dots> = 2 powi (k + 53)" by (simp add: power_int_add)
  finally have "(2::rat) powi f64_expo x \<le> 2 powi (k + 53)" .
  then have e: "f64_expo x \<le> k + 53"
    using power_int_strict_increasing [of "k + 53" "f64_expo x" "2::rat"] by fastforce
  have "\<exists>n::int. x = of_int n * f64_ulp x"
  proof (cases "max (f64_expo x - 52) (- 1074) \<le> k")
    case True
    have "2 powi k = of_int (2 ^ nat (k - max (f64_expo x - 52) (- 1074))) * f64_ulp x"
      unfolding f64_ulp_def by (rule powi_grid [OF True])
    then have "x = of_int (m * 2 ^ nat (k - max (f64_expo x - 52) (- 1074))) * f64_ulp x"
      by (metis x of_int_mult mult.assoc)
    then show ?thesis by blast
  next
    case False
    with e k have ek: "f64_expo x = k + 53" by auto
    then have u: "f64_ulp x = 2 * 2 powi k"
      using k by (simp add: f64_ulp_def power_int_add)
    have "(2::rat) powi (k + 53) \<le> \<bar>of_int m * 2 powi k\<bar>"
      using f64_expo_bounds(1) [OF nz] unfolding ek using x by metis
    then have "(2::rat) ^ 53 * 2 powi k \<le> of_int \<bar>m\<bar> * 2 powi k"
      by (simp add: abs_mult power_int_add)
    then have "(of_int (2 ^ 53) :: rat) \<le> of_int \<bar>m\<bar>" by simp
    then have "\<bar>m\<bar> = 2 ^ 53" using m by (simp only: of_int_le_iff order_antisym)
    then have "even m" by (metis dvd_abs_iff dvd_power zero_less_numeral)
    then obtain j where mj: "m = 2 * j" ..
    have "x = of_int m * 2 powi k" by (rule x)
    also have "\<dots> = of_int j * (2 * 2 powi k)" by (simp add: mj)
    also have "\<dots> = of_int j * f64_ulp x" by (simp only: u)
    finally show ?thesis by blast
  qed
  then obtain n :: int where "x = of_int n * f64_ulp x" ..
  then have n: "x / f64_ulp x = of_int n" using f64_ulp_pos [of x] by (metis less_irrefl nonzero_eq_divide_eq)
  then have "f64_round x = x / f64_ulp x * f64_ulp x" using nz by (simp add: f64_round_def)
  then show ?thesis using f64_ulp_pos [of x] by simp
qed

lemma f64_round_int: "\<bar>n\<bar> \<le> 2 ^ 53 \<Longrightarrow> f64_round (of_int n) = of_int n"
  by (rule f64_round_representable [where m = n and k = 0]) auto

subsection \<open>The interface of rounding\<close>

locale rounding =
  fixes rnd :: "rat \<Rightarrow> rat"
  assumes rnd_mono: "x \<le> y \<Longrightarrow> rnd x \<le> rnd y"
    and rnd_int: "\<bar>n\<bar> \<le> 2 ^ 53 \<Longrightarrow> rnd (of_int n) = of_int n"
begin

lemma rnd_0: "rnd 0 = 0"
  using rnd_int [of 0] by simp

lemma rnd_nonneg: "0 \<le> x \<Longrightarrow> 0 \<le> rnd x"
  using rnd_mono [of 0 x] by (simp add: rnd_0)

lemma rnd_le_int: "x \<le> of_int n \<Longrightarrow> \<bar>n\<bar> \<le> 2 ^ 53 \<Longrightarrow> rnd x \<le> of_int n"
  using rnd_mono [of x "of_int n"] by (simp add: rnd_int)

lemma int_le_rnd: "of_int n \<le> x \<Longrightarrow> \<bar>n\<bar> \<le> 2 ^ 53 \<Longrightarrow> of_int n \<le> rnd x"
  using rnd_mono [of "of_int n" x] by (simp add: rnd_int)

end

interpretation f64r: rounding f64_round
  by unfold_locales (auto intro: f64_round_mono f64_round_int)

subsection \<open>float64 values\<close>

datatype f64 = Fin rat | PInf | NInf | NaN

definition f64_of_rat :: "rat \<Rightarrow> f64" where
  "f64_of_rat x = (let r = f64_round x in
     if 2 ^ 1024 \<le> r then PInf else if r \<le> - (2 ^ 1024) then NInf else Fin r)"

fun fadd :: "f64 \<Rightarrow> f64 \<Rightarrow> f64" where
  "fadd (Fin a) (Fin b) = f64_of_rat (a + b)"
| "fadd NaN _ = NaN"
| "fadd _ NaN = NaN"
| "fadd PInf NInf = NaN"
| "fadd NInf PInf = NaN"
| "fadd PInf _ = PInf"
| "fadd _ PInf = PInf"
| "fadd NInf _ = NInf"
| "fadd _ NInf = NInf"

fun fneg :: "f64 \<Rightarrow> f64" where
  "fneg (Fin a) = Fin (- a)"
| "fneg PInf = NInf"
| "fneg NInf = PInf"
| "fneg NaN = NaN"

definition fsub :: "f64 \<Rightarrow> f64 \<Rightarrow> f64" where
  "fsub a b = fadd a (fneg b)"

fun fsign :: "f64 \<Rightarrow> rat" where
  "fsign (Fin a) = sgn a"
| "fsign PInf = 1"
| "fsign NInf = - 1"
| "fsign NaN = 0"

text \<open>An infinity times a number of sign 0 is NaN.\<close>

fun fmul :: "f64 \<Rightarrow> f64 \<Rightarrow> f64" where
  "fmul (Fin a) (Fin b) = f64_of_rat (a * b)"
| "fmul a b = (let s = fsign a * fsign b in if s > 0 then PInf else if s < 0 then NInf else NaN)"

text \<open>Division, for a finite non-zero divisor.\<close>

definition fdiv_fin :: "rat \<Rightarrow> rat \<Rightarrow> f64" where
  "fdiv_fin a b = f64_of_rat (a / b)"

fun f_gt :: "f64 \<Rightarrow> f64 \<Rightarrow> bool" where
  "f_gt (Fin a) (Fin b) = (a > b)"
| "f_gt PInf (Fin _) = True"
| "f_gt PInf NInf = True"
| "f_gt (Fin _) NInf = True"
| "f_gt _ _ = False"

definition f_ge :: "f64 \<Rightarrow> f64 \<Rightarrow> bool" where
  "f_ge a b = (f_gt a b \<or> (a = b \<and> a \<noteq> NaN))"

lemma f_ge_Fin [simp]: "f_ge (Fin a) (Fin b) = (b \<le> a)"
  by (auto simp: f_ge_def)

lemma f64_of_rat_Fin: "f64_of_rat x = Fin r \<Longrightarrow> r = f64_round x"
  by (auto simp: f64_of_rat_def Let_def split: if_splits)

lemma f64_of_rat_small:
  assumes "\<bar>x\<bar> \<le> of_int n" and "n \<le> 2 ^ 53"
  shows "f64_of_rat x = Fin (f64_round x)"
proof -
  have "0 \<le> (of_int n :: rat)" using assms(1) abs_ge_zero [of x] by linarith
  then have "0 \<le> n" by simp
  then have n: "\<bar>n\<bar> \<le> 2 ^ 53" using assms(2) by simp
  have up: "f64_round x \<le> of_int n" using assms n by (intro f64r.rnd_le_int) auto
  have lo: "of_int (- n) \<le> f64_round x" using assms n by (intro f64r.int_le_rnd) auto
  have "(of_int n :: rat) \<le> of_int (2 ^ 53)" using assms(2) by (simp only: of_int_le_iff)
  then have "(of_int n :: rat) \<le> 2 ^ 53" by simp
  also have "\<dots> < (2::rat) ^ 1024" by (rule power_strict_increasing) simp_all
  finally have b: "(of_int n :: rat) < 2 ^ 1024" .
  have "f64_round x < 2 ^ 1024" by (rule le_less_trans [OF up b])
  moreover have "- (2 ^ 1024) < f64_round x"
    using lo by (rule less_le_trans [rotated]) (use b in \<open>simp only: of_int_minus neg_less_iff_less\<close>)
  ultimately show ?thesis unfolding f64_of_rat_def Let_def by (simp only: not_le [symmetric] if_False)
qed

subsection \<open>Duration.Seconds\<close>

text \<open>\<^verbatim>\<open>float64(d / Second) + float64(d % Second) / 1e9\<close>, where Go's division and
  remainder truncate towards zero.\<close>

definition Duration_Seconds :: "duration \<Rightarrow> f64" where
  "Duration_Seconds d =
     (let sec = sgn d * (\<bar>d\<bar> div second); nsec = sgn d * (\<bar>d\<bar> mod second)
      in fadd (f64_of_rat (of_int sec)) (fdiv_fin (of_int nsec) (10 ^ 9)))"

lemma Duration_Seconds_0 [simp]: "Duration_Seconds 0 = Fin 0"
  by (simp add: Duration_Seconds_def fdiv_fin_def f64_of_rat_def f64_round_def)

end
