(* ===== verification/Go_Duration.thy ===== *)
theory Go_Duration
  imports Go_Float Go_Strings
begin

text \<open>
  Go's \<^verbatim>\<open>time.ParseDuration\<close>: a signed sequence of decimal numbers with unit
  suffixes. The accumulators are uint64 in the source; the only sum that can reach \<open>2 ^ 64\<close> is
  the one over the terms, where the wrap-around is written out. Fractions go through float64
  arithmetic.
\<close>

definition is_digit :: "char \<Rightarrow> bool" where
  "is_digit c = (48 \<le> byte c \<and> byte c \<le> 57)"

definition digit_val :: "char \<Rightarrow> nat" where
  "digit_val c = byte c - 48"

text \<open>\<^verbatim>\<open>leadingInt\<close> on the digits themselves; \<open>None\<close> is overflow.\<close>

fun leading_int :: "nat \<Rightarrow> string \<Rightarrow> nat option" where
  "leading_int x [] = Some x"
| "leading_int x (c # s) =
     (if x > 2 ^ 63 div 10 then None
      else let y = x * 10 + digit_val c in if y > 2 ^ 63 then None else leading_int y s)"

text \<open>\<^verbatim>\<open>leadingFraction\<close>: digits beyond the range are dropped.\<close>

fun leading_fraction :: "nat \<Rightarrow> rat \<Rightarrow> bool \<Rightarrow> string \<Rightarrow> nat \<times> rat" where
  "leading_fraction x scale overflow [] = (x, scale)"
| "leading_fraction x scale overflow (c # s) =
     (if overflow then leading_fraction x scale True s
      else if x > (2 ^ 63 - 1) div 10 then leading_fraction x scale True s
      else let y = x * 10 + digit_val c in
        if y > 2 ^ 63 then leading_fraction x scale True s
        else leading_fraction y (f64_round (scale * 10)) False s)"

text \<open>The micro sign U+00B5 and the Greek mu U+03BC are both accepted before \<^verbatim>\<open>s\<close>.\<close>

definition unit_map :: "string \<Rightarrow> nat option" where
  "unit_map u = map_of
     [(''ns'', 1), (''us'', 1000), ([CHR 0xC2, CHR 0xB5, CHR ''s''], 1000),
      ([CHR 0xCE, CHR 0xBC, CHR ''s''], 1000), (''ms'', 1000000), (''s'', 1000000000),
      (''m'', 60000000000), (''h'', 3600000000000)] u"

text \<open>One term of the sum: its nanoseconds and the rest of the input.\<close>

definition pd_term :: "string \<Rightarrow> (nat \<times> string) option" where
  "pd_term s =
     (if \<not> (hd s = CHR ''.'' \<or> is_digit (hd s)) then None
      else let ds = takeWhile is_digit s; s1 = dropWhile is_digit s in
        case leading_int 0 ds of
          None \<Rightarrow> None
        | Some v \<Rightarrow>
            (let has_dot = (s1 \<noteq> [] \<and> hd s1 = CHR ''.'');
                 fs = (if has_dot then takeWhile is_digit (tl s1) else []);
                 s2 = (if has_dot then dropWhile is_digit (tl s1) else s1);
                 (f, scale) = leading_fraction 0 1 False fs in
             if ds = [] \<and> fs = [] then None
             else let u = takeWhile (\<lambda>c. \<not> (c = CHR ''.'' \<or> is_digit c)) s2;
                      s3 = dropWhile (\<lambda>c. \<not> (c = CHR ''.'' \<or> is_digit c)) s2 in
               if u = [] then None
               else case unit_map u of
                 None \<Rightarrow> None
               | Some unit \<Rightarrow>
                   if v > 2 ^ 63 div unit then None
                   else if f > 0 then
                     (let v' = v * unit
                        + nat \<lfloor>f64_round (f64_round (of_nat f) * f64_round (of_nat unit / scale))\<rfloor>
                      in if v' > 2 ^ 63 then None else Some (v', s3))
                   else Some (v * unit, s3)))"

lemma takeWhile_nonempty_shrinks:
  "takeWhile P s \<noteq> [] \<Longrightarrow> length (dropWhile P s) < length s"
  by (cases s) (auto intro: le_imp_less_Suc length_dropWhile_le split: if_splits)

lemma pd_term_shrinks:
  assumes "pd_term s = Some (v, s')"
  shows "length s' < length s"
proof -
  let ?u = "\<lambda>c. \<not> (c = CHR ''.'' \<or> is_digit c)"
  let ?s1 = "dropWhile is_digit s"
  obtain s2 where s2: "s2 = ?s1 \<or> s2 = dropWhile is_digit (tl ?s1)"
    and u: "takeWhile ?u s2 \<noteq> []" and s': "s' = dropWhile ?u s2"
    using assms unfolding pd_term_def Let_def
    by (fastforce split: if_splits option.splits prod.splits)
  have "length s2 \<le> length s"
    using s2 length_dropWhile_le [of is_digit s] length_dropWhile_le [of is_digit "tl ?s1"]
    by auto
  with takeWhile_nonempty_shrinks [OF u] s' show ?thesis by simp
qed

function pd_loop :: "nat \<Rightarrow> string \<Rightarrow> nat option" where
  "pd_loop d s =
     (if s = [] then Some d
      else case pd_term s of
        None \<Rightarrow> None
      | Some (v, s') \<Rightarrow>
          (let d' = (d + v) mod 2 ^ 64 in if d' > 2 ^ 63 then None else pd_loop d' s'))"
  by pat_completeness auto
termination
  by (relation "measure (\<lambda>(d, s). length s)") (auto dest: pd_term_shrinks)

declare pd_loop.simps [simp del]

definition ParseDuration :: "string \<Rightarrow> duration option" where
  "ParseDuration orig =
     (let neg = (orig \<noteq> [] \<and> hd orig = CHR ''-'');
          s = (if orig \<noteq> [] \<and> (hd orig = CHR ''-'' \<or> hd orig = CHR ''+'') then tl orig else orig) in
      if s = ''0'' then Some 0
      else if s = [] then None
      else case pd_loop 0 s of
        None \<Rightarrow> None
      | Some d \<Rightarrow> if neg then Some (- int d)
                  else if d > 2 ^ 63 - 1 then None else Some (int d))"

lemma pd_loop_bound: "pd_loop d s = Some r \<Longrightarrow> d \<le> 2 ^ 63 \<Longrightarrow> r \<le> 2 ^ 63"
proof (induction d s rule: pd_loop.induct)
  case (1 d s)
  show ?case
  proof (cases "s = []")
    case True
    with 1 show ?thesis by (simp add: pd_loop.simps)
  next
    case False
    with "1.prems"(1) obtain v s' where t: "pd_term s = Some (v, s')"
      and le: "\<not> (d + v) mod 2 ^ 64 > 2 ^ 63" and r: "pd_loop ((d + v) mod 2 ^ 64) s' = Some r"
      by (auto simp: pd_loop.simps [of d s] Let_def split: option.splits if_splits)
    show ?thesis using "1.IH" [OF False t _ refl le r] le by simp
  qed
qed

lemma ParseDuration_bounds:
  assumes "ParseDuration s = Some d"
  shows "min_duration \<le> d \<and> d \<le> max_duration"
proof -
  have b: "r \<le> 2 ^ 63" if "pd_loop 0 t = Some r" for t r
    using pd_loop_bound [OF that] by simp
  show ?thesis
    using assms b unfolding ParseDuration_def Let_def
    by (fastforce split: if_splits option.splits)
qed

lemmas ParseDuration_eval =
  ParseDuration_def pd_loop.simps pd_term_def unit_map_def is_digit_def digit_val_def

end
