(* ===== verification/Json.thy ===== *)
theory Json
  imports Go_Duration "HOL-Library.Char_ord" "HOL-Library.List_Lexorder"
begin

text \<open>
  JSON as \<^verbatim>\<open>encoding/json\<close> sees it: value trees, the canonical form a tree takes
  once decoded into \<^verbatim>\<open>any\<close> (object keys unique with the last one winning, sorted as
  \<^verbatim>\<open>Marshal\<close> prints maps), and the case-insensitive matching of object keys against
  struct tags. The text syntax, and the third-party UUID package, are parameters of the model,
  gathered in the record \<open>externs\<close>; the laws the program relies on are the locale
  \<open>codec\<close>.
\<close>

subsection \<open>Values\<close>

datatype json =
    JNull
  | JBool bool
  | JNum f64
  | JNegZero
  | JStr string
  | JArr "json list"
  | JObj "(string \<times> json) list"

definition dedup_last :: "(string \<times> 'v) list \<Rightarrow> (string \<times> 'v) list" where
  "dedup_last kvs = fold (\<lambda>(k, v). gm_put k v) kvs []"

primrec canon :: "json \<Rightarrow> json" where
  "canon JNull = JNull"
| "canon (JBool b) = JBool b"
| "canon (JNum x) = JNum x"
| "canon JNegZero = JNegZero"
| "canon (JStr s) = JStr s"
| "canon (JArr xs) = JArr (map canon xs)"
| "canon (JObj kvs) = JObj (sort_key fst (dedup_last (map (map_prod id canon) kvs)))"

function valid_utf8 :: "string \<Rightarrow> bool" where
  "valid_utf8 s =
     (if s = [] then True
      else let (r, w) = decode_rune s
           in \<not> (r = rune_error \<and> w = 1) \<and> valid_utf8 (drop w s))"
  by pat_completeness auto
termination
  by (relation "measure length") (auto intro: decode_rune_shrinks)

declare valid_utf8.simps [simp del]

text \<open>A string after a trip through JSON text: bytes that are not UTF-8 have become U+FFFD.\<close>

function to_utf8 :: "string \<Rightarrow> string" where
  "to_utf8 s =
     (if s = [] then []
      else let (r, w) = decode_rune s
           in (if r = rune_error \<and> w = 1 then [CHR 0xEF, CHR 0xBF, CHR 0xBD] else take w s) @
              to_utf8 (drop w s))"
  by pat_completeness auto
termination
  by (relation "measure length") (auto intro: decode_rune_shrinks)

declare to_utf8.simps [simp del]

lemma to_utf8_valid: "valid_utf8 s \<Longrightarrow> to_utf8 s = s"
proof (induction s rule: to_utf8.induct)
  case (1 s)
  then show ?case
    by (subst to_utf8.simps) (auto simp: valid_utf8.simps [of s] Let_def split: prod.splits)
qed

text \<open>The tree a printed tree is read back as.\<close>

primrec json_clean :: "json \<Rightarrow> json" where
  "json_clean JNull = JNull"
| "json_clean (JBool b) = JBool b"
| "json_clean (JNum x) = JNum (case x of Fin r \<Rightarrow> Fin (f64_round r) | _ \<Rightarrow> x)"
| "json_clean JNegZero = JNegZero"
| "json_clean (JStr s) = JStr (to_utf8 s)"
| "json_clean (JArr xs) = JArr (map json_clean xs)"
| "json_clean (JObj kvs) = JObj (map (map_prod to_utf8 json_clean) kvs)"

text \<open>Trees whose text form determines them: strings are UTF-8 and numbers are finite.\<close>

primrec json_ok :: "json \<Rightarrow> bool" where
  "json_ok JNull = True"
| "json_ok (JBool b) = True"
| "json_ok (JNum x) = (case x of Fin r \<Rightarrow> f64_round r = r | _ \<Rightarrow> False)"
| "json_ok JNegZero = True"
| "json_ok (JStr s) = valid_utf8 s"
| "json_ok (JArr xs) = list_all (\<lambda>b. b) (map json_ok xs)"
| "json_ok (JObj kvs) = list_all (\<lambda>(k, b). valid_utf8 k \<and> b) (map (map_prod id json_ok) kvs)"

lemma json_clean_ok: "json_ok j \<Longrightarrow> json_clean j = j"
proof (induction j)
  case (JArr xs)
  then show ?case by (auto simp: list_all_iff intro: map_idI)
next
  case (JObj kvs)
  have "map_prod to_utf8 json_clean kv = kv" if "kv \<in> set kvs" for kv
    using JObj.IH [OF that, of "snd kv"] JObj.prems that
    by (cases kv) (fastforce simp: list_all_iff to_utf8_valid)
  then show ?case by (simp add: map_idI)
qed (auto simp: to_utf8_valid split: f64.splits)

text \<open>
  A number literal beyond the range of \<^verbatim>\<open>float64\<close> is read as an infinity. The
  library reports it when the value is converted, that is inside an \<^verbatim>\<open>any\<close>; in a
  member that is skipped it does no harm.
\<close>

primrec nums_fit :: "json \<Rightarrow> bool" where
  "nums_fit JNull = True"
| "nums_fit (JBool b) = True"
| "nums_fit (JNum x) = (case x of Fin r \<Rightarrow> True | _ \<Rightarrow> False)"
| "nums_fit JNegZero = True"
| "nums_fit (JStr s) = True"
| "nums_fit (JArr xs) = list_all (\<lambda>b. b) (map nums_fit xs)"
| "nums_fit (JObj kvs) = list_all snd (map (map_prod id nums_fit) kvs)"

lemma nums_fit_clean [simp]: "nums_fit (json_clean j) = nums_fit j"
  by (induction j) (auto simp: list_all_iff split: f64.splits)

text \<open>The nesting depth, which the decoder limits.\<close>

primrec json_depth :: "json \<Rightarrow> nat" where
  "json_depth JNull = 0"
| "json_depth (JBool b) = 0"
| "json_depth (JNum x) = 0"
| "json_depth JNegZero = 0"
| "json_depth (JStr s) = 0"
| "json_depth (JArr xs) = Suc (fold max (map json_depth xs) 0)"
| "json_depth (JObj kvs) = Suc (fold max (map snd (map (map_prod id json_depth) kvs)) 0)"

definition max_depth :: nat where
  "max_depth = 10000"

lemma fold_max_le: "fold max ns a \<le> (d::nat) \<longleftrightarrow> a \<le> d \<and> (\<forall>n \<in> set ns. n \<le> d)"
  by (induction ns arbitrary: a) auto

subsection \<open>Field names\<close>

text \<open>\<^verbatim>\<open>foldName\<close>: ASCII letters in upper case, and the two other runes that fold
  to an ASCII letter (U+017F and U+212A). Other runes never fold to a byte of a field name.\<close>

function fold_name :: "string \<Rightarrow> string" where
  "fold_name s =
     (if s = [] then []
      else let (r, w) = decode_rune s in
        (if 0x61 \<le> r \<and> r \<le> 0x7A then [char_of (r - 32)]
         else if r = 0x17F then ''S''
         else if r = 0x212A then ''K''
         else take w s) @ fold_name (drop w s))"
  by pat_completeness auto
termination
  by (relation "measure length") (auto intro: decode_rune_shrinks)

declare fold_name.simps [simp del]

text \<open>The tag an object key is decoded into: an exact match first, then a folded one.\<close>

definition match_field :: "string list \<Rightarrow> string \<Rightarrow> string option" where
  "match_field tags k =
     (if k \<in> set tags then Some k else find (\<lambda>t. fold_name t = fold_name k) tags)"

lemma match_field_exact [simp]: "k \<in> set tags \<Longrightarrow> match_field tags k = Some k"
  by (simp add: match_field_def)

subsection \<open>Code outside the repository\<close>

record externs =
  json_decode :: "string \<Rightarrow> json option"
  json_encode :: "json \<Rightarrow> string option"
  uuid_Parse :: "string \<Rightarrow> uuid option"
  uuid_String :: "uuid \<Rightarrow> string"
  time_text :: "time \<Rightarrow> string option"
  time_parse :: "string \<Rightarrow> time option"

text \<open>
  What is documented of it: \<^verbatim>\<open>Parse\<close> reads back what \<^verbatim>\<open>String\<close>
  prints, JSON text that \<^verbatim>\<open>Marshal\<close> produced decodes to the (cleaned) value it
  was produced from (infinities and NaN are refused) unless it is nested too deeply, and so does the RFC 3339 text of an instant. Printed UUIDs and instants are ASCII.
\<close>

locale codec =
  fixes X :: externs
  assumes uuid_roundtrip: "uuid_Parse X (uuid_String X u) = Some u"
    and time_roundtrip: "time_text X t = Some s \<Longrightarrow> time_parse X s = Some t"
    and json_finite: "json_encode X j = Some b \<Longrightarrow> nums_fit j"
    and json_roundtrip: "json_encode X j = Some b \<Longrightarrow>
      json_decode X b = (if json_depth j \<le> max_depth then Some (json_clean j) else None)"
    and uuid_text_ok: "valid_utf8 (uuid_String X u)"
    and time_text_ok: "time_text X t = Some s \<Longrightarrow> valid_utf8 s"
begin

lemma uuid_String_inj: "uuid_String X u = uuid_String X v \<Longrightarrow> u = v"
  by (metis uuid_roundtrip option.inject)

end

end
