(* ===== verification/Message.thy ===== *)
theory Message
  imports Json
begin

text \<open>
  Messages (\<^verbatim>\<open>src/message.go\<close>): the record, the targets of a fan-out, decoding a
  POST body, expiry, and the representation used by persistent storage.
\<close>

record Message =
  msg_id :: uuid
  Key :: string
  Keys :: "string list"
  MessageID :: string
  Value :: json
  Expire :: string
  date :: time

definition zero_Message :: Message where
  "zero_Message = \<lparr>msg_id = 0, Key = [], Keys = [], MessageID = [], Value = JNull,
                   Expire = [], date = 0\<rparr>"

subsection \<open>Targets and views\<close>

definition targets :: "Message \<Rightarrow> string list" where
  "targets m = add_new [] (filter (\<lambda>k. k \<noteq> []) (Key m # Keys m))"

text \<open>The values of the map \<^verbatim>\<open>toMap\<close> builds keep their Go types until they are
  marshalled.\<close>

datatype gval = GUUID uuid | GAny json | GStr string | GTime time

definition toMap :: "Message \<Rightarrow> bool \<Rightarrow> (string, gval) gomap" where
  "toMap m extended =
     (let payload = [(''id'', GUUID (msg_id m)), (''payload'', GAny (Value m))] in
      if extended
      then payload @ [(''key'', GStr (Key m)), (''exp'', GStr (Expire m)), (''date'', GTime (date m))]
      else payload)"

fun gval_json :: "externs \<Rightarrow> gval \<Rightarrow> json option" where
  "gval_json X (GUUID u) = Some (JStr (uuid_String X u))"
| "gval_json X (GAny v) = Some v"
| "gval_json X (GStr s) = Some (JStr s)"
| "gval_json X (GTime t) = map_option JStr (time_text X t)"

text \<open>\<^verbatim>\<open>json.Marshal\<close> of such a map: keys in sorted order, an error as soon as a
  value cannot be represented.\<close>

definition map_json :: "externs \<Rightarrow> (string, gval) gomap \<Rightarrow> json option" where
  "map_json X kvs =
     (let sorted = sort_key fst kvs; vs = map (\<lambda>(k, v). gval_json X v) sorted in
      if None \<in> set vs then None else Some (JObj (zip (map fst sorted) (map the vs))))"

definition marshal :: "externs \<Rightarrow> Message \<Rightarrow> bool \<Rightarrow> string option" where
  "marshal X m extended = Option.bind (map_json X (toMap m extended)) (json_encode X)"

subsection \<open>Decoding a request body\<close>

definition INVALID_KEY :: string where "INVALID_KEY = ''invalid message key''"
definition INVALID_VALUE :: string where "INVALID_VALUE = ''invalid message value''"
definition INVALID_EXPIRE :: string where "INVALID_EXPIRE = ''invalid message expire duration''"
definition INVALID_MESSAGE_ID :: string where
  "INVALID_MESSAGE_ID = ''invalid message_id (must be a uuid)''"

text \<open>
  \<^verbatim>\<open>json.Unmarshal\<close> into the struct, one object member after the other. A member
  of the wrong type leaves its field alone and is reported at the end; \<^verbatim>\<open>null\<close>
  leaves a string alone, empties a slice and sets \<^verbatim>\<open>any\<close> to nil. An array is decoded
  into the cells of the slice that is there, also those beyond its length: a \<^verbatim>\<open>null\<close>
  element of a repeated member brings back what a cell held before. So a slice is its elements together
  with the cells hidden behind them.
\<close>

definition dec_string :: "json \<Rightarrow> string \<Rightarrow> string \<times> bool" where
  "dec_string j old = (case j of JStr s \<Rightarrow> (s, True) | JNull \<Rightarrow> (old, True) | _ \<Rightarrow> (old, False))"

definition dec_strings :: "json \<Rightarrow> string list \<times> string list \<Rightarrow> (string list \<times> string list) \<times> bool" where
  "dec_strings j old =
     (case j of
        JNull \<Rightarrow> (([], []), True)
      | JArr js \<Rightarrow>
          if js = [] then (([], []), True)
          else let cells = fst old @ snd old;
                   rs = map (\<lambda>(i, e). dec_string e (if i < length cells then cells ! i else [])) (enumerate 0 js)
               in ((map fst rs, drop (length js) cells), list_all snd rs)
      | _ \<Rightarrow> (old, False))"

definition message_tags :: "string list" where
  "message_tags = [''key'', ''keys'', ''message_id'', ''value'', ''expire'']"

text \<open>One member; \<open>hidden\<close> are the cells behind the slice \<^verbatim>\<open>Keys\<close>.\<close>

definition dec_member :: "string \<times> json \<Rightarrow> Message \<times> string list \<times> bool \<Rightarrow> Message \<times> string list \<times> bool" where
  "dec_member kv acc =
     (let (m, hidden, ok) = acc; (k, j) = kv in
      case match_field message_tags k of
        None \<Rightarrow> (m, hidden, ok)
      | Some t \<Rightarrow>
          if t = ''key'' then (let (s, b) = dec_string j (Key m) in (m\<lparr>Key := s\<rparr>, hidden, ok \<and> b))
          else if t = ''keys'' then
            (let ((ss, hs), b) = dec_strings j (Keys m, hidden) in (m\<lparr>Keys := ss\<rparr>, hs, ok \<and> b))
          else if t = ''message_id'' then
            (let (s, b) = dec_string j (MessageID m) in (m\<lparr>MessageID := s\<rparr>, hidden, ok \<and> b))
          else if t = ''value'' then (m\<lparr>Value := canon j\<rparr>, hidden, ok \<and> nums_fit j)
          else (let (s, b) = dec_string j (Expire m) in (m\<lparr>Expire := s\<rparr>, hidden, ok \<and> b)))"

definition dec_message :: "json \<Rightarrow> Message \<Rightarrow> Message option" where
  "dec_message j m =
     (case j of
        JObj kvs \<Rightarrow> (let (m', hidden, ok) = fold dec_member kvs (m, [], True) in if ok then Some m' else None)
      | _ \<Rightarrow> None)"

text \<open>
  \<^verbatim>\<open>unmarshal\<close> passes \<^verbatim>\<open>&m\<close>, the address of the receiver pointer, so the body
  \<^verbatim>\<open>null\<close> sets that pointer to nil and the next use of \<^verbatim>\<open>m\<close> panics:
  the result \<open>UPanic\<close>.
\<close>

datatype unmarshal_result = UErr error | UPanic | UOk Message

definition unmarshal ::
  "externs \<Rightarrow> error + string \<Rightarrow> string \<Rightarrow> time \<Rightarrow> error + uuid \<Rightarrow> Message \<Rightarrow> unmarshal_result" where
  "unmarshal X data defaultExpire now newid m0 =
     (case data of
        Inl e \<Rightarrow> UErr e
      | Inr b \<Rightarrow>
          (case json_decode X b of
             None \<Rightarrow> UErr ''json''
           | Some JNull \<Rightarrow> UPanic
           | Some j \<Rightarrow>
               (case dec_message j m0 of
                  None \<Rightarrow> UErr ''json''
                | Some m \<Rightarrow>
                    if targets m = [] then UErr INVALID_KEY
                    else if Value m = JNull then UErr INVALID_VALUE
                    else let m1 = (if Expire m = [] then m\<lparr>Expire := defaultExpire\<rparr> else m) in
                      if ParseDuration (Expire m1) = None then UErr INVALID_EXPIRE
                      else let m2 = m1\<lparr>date := now\<rparr> in
                        if MessageID m2 \<noteq> [] then
                          (case uuid_Parse X (MessageID m2) of
                             None \<Rightarrow> UErr INVALID_MESSAGE_ID
                           | Some u \<Rightarrow> UOk (m2\<lparr>msg_id := u\<rparr>))
                        else (case newid of Inl e \<Rightarrow> UErr e | Inr u \<Rightarrow> UOk (m2\<lparr>msg_id := u\<rparr>)))))"

definition isExpired :: "time \<Rightarrow> Message \<Rightarrow> bool" where
  "isExpired now m =
     ((case ParseDuration (Expire m) of None \<Rightarrow> 0 | Some d \<Rightarrow> d) < time_Sub now (date m))"

subsection \<open>The stored form\<close>

definition encode :: "externs \<Rightarrow> Message \<Rightarrow> string option" where
  "encode X m =
     (case time_text X (date m) of
        None \<Rightarrow> None
      | Some t \<Rightarrow> json_encode X (JObj
          [(''id'', JStr (uuid_String X (msg_id m))), (''key'', JStr (Key m)), (''value'', Value m),
           (''expire'', JStr (Expire m)), (''date'', JStr t)]))"

definition stored_tags :: "string list" where
  "stored_tags = [''id'', ''key'', ''value'', ''expire'', ''date'']"

definition dec_stored :: "externs \<Rightarrow> string \<times> json \<Rightarrow> Message \<times> bool \<Rightarrow> Message \<times> bool" where
  "dec_stored X kv acc =
     (let (m, ok) = acc; (k, j) = kv in
      case match_field stored_tags k of
        None \<Rightarrow> (m, ok)
      | Some t \<Rightarrow>
          if t = ''id'' then
            (case j of
               JStr s \<Rightarrow> (case uuid_Parse X s of None \<Rightarrow> (m, False) | Some u \<Rightarrow> (m\<lparr>msg_id := u\<rparr>, ok))
             | JNull \<Rightarrow> (m, ok)
             | _ \<Rightarrow> (m, False))
          else if t = ''key'' then (let (s, b) = dec_string j (Key m) in (m\<lparr>Key := s\<rparr>, ok \<and> b))
          else if t = ''value'' then (m\<lparr>Value := canon j\<rparr>, ok \<and> nums_fit j)
          else if t = ''expire'' then
            (let (s, b) = dec_string j (Expire m) in (m\<lparr>Expire := s\<rparr>, ok \<and> b))
          else
            (case j of
               JStr s \<Rightarrow> (case time_parse X s of None \<Rightarrow> (m, False) | Some d \<Rightarrow> (m\<lparr>date := d\<rparr>, ok))
             | JNull \<Rightarrow> (m, ok)
             | _ \<Rightarrow> (m, False)))"

definition decodeMessage :: "externs \<Rightarrow> string \<Rightarrow> Message option" where
  "decodeMessage X b =
     (case json_decode X b of
        None \<Rightarrow> None
      | Some JNull \<Rightarrow> Some zero_Message
      | Some (JObj kvs) \<Rightarrow>
          (let (m, ok) = fold (dec_stored X) kvs (zero_Message, True) in if ok then Some m else None)
      | Some _ \<Rightarrow> None)"

subsection \<open>Targets\<close>

lemma set_targets [simp]: "set (targets m) = {k \<in> insert (Key m) (set (Keys m)). k \<noteq> []}"
  by (auto simp: targets_def)

lemma distinct_targets [simp]: "distinct (targets m)"
  by (simp add: targets_def)

lemma targets_update [simp]:
  "targets (m\<lparr>Expire := e\<rparr>) = targets m" "targets (m\<lparr>date := d\<rparr>) = targets m"
  "targets (m\<lparr>msg_id := u\<rparr>) = targets m"
  by (simp_all add: targets_def)

subsection \<open>Accepted messages\<close>

text \<open>What \<^verbatim>\<open>unmarshal\<close> guarantees of a message it accepts.\<close>

definition accepted :: "externs \<Rightarrow> time \<Rightarrow> Message \<Rightarrow> bool" where
  "accepted X now m \<longleftrightarrow>
     targets m \<noteq> [] \<and> Value m \<noteq> JNull \<and> (\<exists>d. ParseDuration (Expire m) = Some d) \<and> date m = now \<and>
     (MessageID m \<noteq> [] \<longrightarrow> uuid_Parse X (MessageID m) = Some (msg_id m))"

lemma unmarshal_accepted:
  assumes "unmarshal X data def now newid m0 = UOk m"
  shows "accepted X now m"
  using assms
  unfolding unmarshal_def accepted_def
  by (auto simp: Let_def split: sum.splits option.splits json.splits if_splits)

lemma isExpired_mono: "isExpired t m \<Longrightarrow> t \<le> t' \<Longrightarrow> isExpired t' m"
  using time_Sub_mono [of t t' "date m"] by (simp add: isExpired_def)

lemma isExpired_iff:
  assumes "ParseDuration (Expire m) = Some d"
  shows "isExpired now m \<longleftrightarrow> (d < now - date m \<and> d < max_duration)"
  using ParseDuration_bounds [OF assms] assms by (auto simp: isExpired_def time_Sub_def)

subsection \<open>Round trip of the stored form\<close>

lemma valid_stored_tags: "list_all valid_utf8 stored_tags"
  by (simp add: stored_tags_def valid_utf8.simps)

text \<open>What is left of a message that was stored and read back.\<close>

definition stored_form :: "Message \<Rightarrow> Message" where
  "stored_form m = m\<lparr>Key := to_utf8 (Key m), Keys := [], MessageID := [],
     Value := canon (json_clean (Value m)), Expire := to_utf8 (Expire m)\<rparr>"

lemma stored_form_id [simp]: "msg_id (stored_form m) = msg_id m"
  by (simp add: stored_form_def)

lemma stored_form_plain:
  "valid_utf8 (Key m) \<Longrightarrow> valid_utf8 (Expire m) \<Longrightarrow> json_ok (Value m) \<Longrightarrow> canon (Value m) = Value m \<Longrightarrow>
     stored_form m = m\<lparr>Keys := [], MessageID := []\<rparr>"
  by (simp add: stored_form_def to_utf8_valid json_clean_ok)

context codec
begin

lemma decode_encode:
  assumes e: "encode X m = Some b"
  shows "decodeMessage X b = (if json_depth (Value m) < max_depth then Some (stored_form m) else None)"
proof -
  obtain t where t: "time_text X (date m) = Some t"
    using e by (auto simp: encode_def split: option.splits)
  let ?j = "JObj [(''id'', JStr (uuid_String X (msg_id m))), (''key'', JStr (Key m)),
      (''value'', Value m), (''expire'', JStr (Expire m)), (''date'', JStr t)]"
  have "json_encode X ?j = Some b" using e t by (simp add: encode_def)
  note law = json_roundtrip [OF this] json_finite [OF this]
  have depth: "json_depth ?j \<le> max_depth \<longleftrightarrow> json_depth (Value m) < max_depth" by (auto simp: max_depth_def)
  have "to_utf8 k = k" if "k \<in> set stored_tags" for k
    using that valid_stored_tags by (simp add: to_utf8_valid list_all_iff)
  then show ?thesis
    using t uuid_text_ok time_text_ok law unfolding depth
    by (simp add: decodeMessage_def dec_stored_def stored_tags_def uuid_roundtrip
        time_roundtrip dec_string_def zero_Message_def stored_form_def to_utf8_valid)
qed

lemma decode_encode_id: "encode X m = Some b \<Longrightarrow> decodeMessage X b = Some m' \<Longrightarrow> msg_id m' = msg_id m"
  by (auto simp: decode_encode split: if_splits)

end

text \<open>A message expires exactly when more time than its expiry has passed since its date. The subtraction
  of the clock saturates instead of wrapping, so only an expiry of the largest duration (292 years)
  never passes, and a message once expired stays expired.\<close>

lemma expiry_exact:
  assumes "ParseDuration (Expire m) = Some d"
  shows "(isExpired now m \<longleftrightarrow> d < now - date m \<and> d < max_duration) \<and>
         (isExpired now m \<longrightarrow> now \<le> later \<longrightarrow> isExpired later m)"
  using isExpired_iff [OF assms] isExpired_mono by blast

lemma expiry_exact_example:
  "let m = zero_Message\<lparr>Expire := ''30m'', date := 5\<rparr> in
     \<not> isExpired (5 + 30 * minute) m \<and> isExpired (6 + 30 * minute) m"
proof -
  have "ParseDuration (Expire (zero_Message\<lparr>Expire := ''30m'', date := 5\<rparr>)) = Some (30 * minute)"
    by (simp add: ParseDuration_eval)
  from expiry_exact [OF this] show ?thesis by (simp add: Let_def)
qed

end
