(* ===== verification/Client_Conn.thy ===== *)
theory Client_Conn
  imports Message
begin

text \<open>
  One websocket connection (the \<^verbatim>\<open>client\<close> struct of
  \<^verbatim>\<open>src/client.go\<close>). Frames written to the connection are appended to
  \<open>wire\<close>; whether a write succeeds is decided by the network and is an argument. Each
  operation on the in-flight table runs under \<^verbatim>\<open>imu\<close> and each frame write under
  \<^verbatim>\<open>wmu\<close>, so every definition here is one atomic step of the program.
\<close>

text \<open>Frames on the wire; a text frame says whether permessage-deflate was applied.\<close>

datatype frame = TextFrame bool string | PingFrame | PongFrame string

record client =
  ckeys :: "string list"
  writeTimeout :: duration
  compress :: bool
  inflight :: "uuid \<rightharpoonup> string"
  is_closed :: bool
  wire :: "frame list"
  write_deadline :: "time option"

definition newClient :: "string list \<Rightarrow> duration \<Rightarrow> bool \<Rightarrow> client" where
  "newClient keys wt cmpr =
     \<lparr>ckeys = keys, writeTimeout = wt, compress = cmpr, inflight = Map.empty, is_closed = False,
      wire = [], write_deadline = None\<rparr>"

definition setWriteDeadline :: "time \<Rightarrow> client \<Rightarrow> client" where
  "setWriteDeadline now c =
     (if 0 < writeTimeout c then c\<lparr>write_deadline := Some (now + writeTimeout c)\<rparr> else c)"

text \<open>The three writers return whether the write succeeded. For a compressed connection a
  failure of \<^verbatim>\<open>CompressFrame\<close> also counts as \<open>\<not> ok\<close>: nothing is written.\<close>

definition writeMessage :: "time \<Rightarrow> bool \<Rightarrow> string \<Rightarrow> client \<Rightarrow> bool \<times> client" where
  "writeMessage now ok data c =
     (let c1 = setWriteDeadline now c in
      if ok then (True, c1\<lparr>wire := wire c1 @ [TextFrame (compress c1) data]\<rparr>) else (False, c1))"

definition writePing :: "time \<Rightarrow> bool \<Rightarrow> client \<Rightarrow> bool \<times> client" where
  "writePing now ok c =
     (let c1 = setWriteDeadline now c in
      if ok then (True, c1\<lparr>wire := wire c1 @ [PingFrame]\<rparr>) else (False, c1))"

definition writePong :: "time \<Rightarrow> bool \<Rightarrow> string \<Rightarrow> client \<Rightarrow> bool \<times> client" where
  "writePong now ok payload c =
     (let c1 = setWriteDeadline now c in
      if ok then (True, c1\<lparr>wire := wire c1 @ [PongFrame payload]\<rparr>) else (False, c1))"

definition markInflight :: "uuid \<Rightarrow> string \<Rightarrow> client \<Rightarrow> bool \<times> client" where
  "markInflight i key c =
     (if is_closed c then (False, c)
      else if inflight c i \<noteq> None then (False, c)
      else (True, c\<lparr>inflight := (inflight c)(i \<mapsto> key)\<rparr>))"

definition takeInflight :: "uuid \<Rightarrow> client \<Rightarrow> string option \<times> client" where
  "takeInflight i c =
     (case inflight c i of
        None \<Rightarrow> (None, c)
      | Some key \<Rightarrow> (Some key, c\<lparr>inflight := (inflight c)(i := None)\<rparr>))"

definition clearInflight :: "uuid \<Rightarrow> client \<Rightarrow> client" where
  "clearInflight i c = c\<lparr>inflight := (inflight c)(i := None)\<rparr>"

definition close_client :: "client \<Rightarrow> client" where
  "close_client c = (if is_closed c then c else c\<lparr>is_closed := True\<rparr>)"

subsection \<open>The in-flight table\<close>

lemma markInflight_iff: "fst (markInflight i k c) \<longleftrightarrow> \<not> is_closed c \<and> inflight c i = None"
  by (auto simp: markInflight_def)

lemma markInflight_again: "\<not> fst (markInflight i k' (snd (markInflight i k c)))"
  by (auto simp: markInflight_def)

lemma mark_take:
  assumes "fst (markInflight i k c)"
  shows "takeInflight i (snd (markInflight i k c)) = (Some k, c)"
  using assms by (cases c) (auto simp: markInflight_def takeInflight_def fun_upd_idem split: if_splits)

lemma takeInflight_again: "fst (takeInflight i (snd (takeInflight i c))) = None"
  by (auto simp: takeInflight_def split: option.splits)

lemma close_idem [simp]: "close_client (close_client c) = close_client c"
  by (simp add: close_client_def)

lemma closed_close [simp]: "is_closed (close_client c)"
  by (simp add: close_client_def)

lemma client_frames [frame_simps]:
  "ckeys (setWriteDeadline now c) = ckeys c" "inflight (setWriteDeadline now c) = inflight c"
  "is_closed (setWriteDeadline now c) = is_closed c" "wire (setWriteDeadline now c) = wire c"
  "compress (setWriteDeadline now c) = compress c"
  "ckeys (clearInflight i c) = ckeys c" "is_closed (clearInflight i c) = is_closed c"
  "wire (clearInflight i c) = wire c" "ckeys (close_client c) = ckeys c"
  "inflight (close_client c) = inflight c" "wire (close_client c) = wire c"
  by (auto simp: setWriteDeadline_def clearInflight_def close_client_def)

subsection \<open>The in-flight table under concurrency\<close>

text \<open>The operations of the read loop, the ping loop and any number of flushes on one connection, in the order
  in which they get the mutex; each returns what the caller sees.\<close>

datatype client_op = Mark uuid string | Take uuid | Clear uuid | Close

fun client_do :: "client_op \<Rightarrow> client \<Rightarrow> bool \<times> client" where
  "client_do (Mark i k) c = markInflight i k c"
| "client_do (Take i) c = (let (k, c') = takeInflight i c in (k \<noteq> None, c'))"
| "client_do (Clear i) c = (True, clearInflight i c)"
| "client_do Close c = (True, close_client c)"

fun client_run :: "client_op list \<Rightarrow> client \<Rightarrow> bool list \<times> client" where
  "client_run [] c = ([], c)"
| "client_run (a # as) c = (let (b, c1) = client_do a c; (bs, c2) = client_run as c1 in (b # bs, c2))"

lemma client_run_length: "length (fst (client_run as c)) = length as"
  by (induction as arbitrary: c) (simp_all add: case_prod_beta Let_def)

lemma client_run_append:
  "client_run (as @ bs) c =
     (let (r1, c1) = client_run as c; (r2, c2) = client_run bs c1 in (r1 @ r2, c2))"
  by (induction as arbitrary: c) (auto split: prod.splits)

lemma client_do_keeps:
  "inflight c i \<noteq> None \<Longrightarrow> a \<noteq> Take i \<Longrightarrow> a \<noteq> Clear i \<Longrightarrow> inflight (snd (client_do a c)) i \<noteq> None"
  by (cases a) (auto simp: markInflight_def takeInflight_def clearInflight_def close_client_def split: option.splits)

lemma client_run_keeps:
  "inflight c i \<noteq> None \<Longrightarrow> Take i \<notin> set as \<Longrightarrow> Clear i \<notin> set as \<Longrightarrow> inflight (snd (client_run as c)) i \<noteq> None"
proof (induction as arbitrary: c)
  case (Cons a as)
  have "inflight (snd (client_do a c)) i \<noteq> None" using Cons.prems by (intro client_do_keeps) auto
  from Cons.IH [OF this] Cons.prems show ?case by (auto simp: case_prod_beta Let_def)
qed simp

text \<open>A mark succeeds only on an open connection, and a closed one stays closed.\<close>

lemma client_do_closed: "is_closed c \<Longrightarrow> is_closed (snd (client_do a c))"
  by (cases a) (auto simp: markInflight_def takeInflight_def clearInflight_def close_client_def split: option.splits)

lemma client_run_closed: "is_closed c \<or> Close \<in> set as \<Longrightarrow> is_closed (snd (client_run as c))"
proof (induction as arbitrary: c)
  case (Cons a as)
  have "is_closed (snd (client_do a c)) \<or> Close \<in> set as" using Cons.prems client_do_closed [of c a] by auto
  from Cons.IH [OF this] show ?case by (simp add: case_prod_beta Let_def)
qed simp

lemma mark_open:
  assumes "fst (client_run as c) = rs" and "j < length as" and "as ! j = Mark u k" and "rs ! j"
  shows "\<not> is_closed c \<and> Close \<notin> set (take j as)"
proof (rule ccontr)
  assume n: "\<not> ?thesis"
  define c1 where "c1 = snd (client_run (take j as) c)"
  have split: "as = take j as @ Mark u k # drop (Suc j) as" using id_take_nth_drop [OF assms(2)] assms(3) by simp
  have "rs = fst (client_run (take j as) c) @ fst (markInflight u k c1) # fst (client_run (drop (Suc j) as) (snd (markInflight u k c1)))"
    by (subst assms(1) [symmetric], subst split) (simp add: client_run_append case_prod_beta Let_def c1_def)
  moreover have "length (fst (client_run (take j as) c)) = j" using assms(2) by (simp add: client_run_length)
  ultimately have "fst (markInflight u k c1)" using assms(4) by (simp add: nth_append)
  moreover have "is_closed c1" unfolding c1_def using n by (intro client_run_closed) auto
  ultimately show False by (simp add: markInflight_iff)
qed

text \<open>C33: No two flushes send the same message, and none sends on a closed connection: whatever the interleaving
  of flushes, acknowledgements and closing on one connection, between two successful
  \<^verbatim>\<open>markInflight\<close> calls for an id
  there is a \<^verbatim>\<open>takeInflight\<close> or a \<^verbatim>\<open>clearInflight\<close> of
  this id, and no call that succeeds comes after a \<^verbatim>\<open>close\<close>.\<close>

theorem inflight_exclusive:
  assumes "fst (client_run as c) = rs" and "i < j" and "j < length as"
    and "as ! i = Mark u k" and "as ! j = Mark u k'" and "rs ! i" and "rs ! j"
  shows "(\<exists>l. i < l \<and> l < j \<and> as ! l \<in> {Take u, Clear u}) \<and> \<not> is_closed c \<and> (\<forall>l. l < j \<longrightarrow> as ! l \<noteq> Close)"
proof (intro conjI allI impI)
  have o: "\<not> is_closed c \<and> Close \<notin> set (take j as)" using mark_open assms(1,3,5,7) by blast
  then show "\<not> is_closed c" by blast
  show "as ! l \<noteq> Close" if "l < j" for l using o that assms(3) by (auto simp: in_set_conv_nth)
  show "\<exists>l. i < l \<and> l < j \<and> as ! l \<in> {Take u, Clear u}"
  proof (rule ccontr)
    assume n: "\<not> (\<exists>l. i < l \<and> l < j \<and> as ! l \<in> {Take u, Clear u})"
    define mid where "mid = take (j - i - 1) (drop (i + 1) as)"
    define c0 where "c0 = snd (client_run (take i as) c)"
    define c1 where "c1 = snd (markInflight u k c0)"
    define c2 where "c2 = snd (client_run mid c1)"
    have "drop (i + 1) as = mid @ drop j as" using append_take_drop_id [of "j - i - 1" "drop (i + 1) as"] assms(2)
      by (simp add: mid_def)
    then have split: "as = take i as @ Mark u k # mid @ Mark u k' # drop (j + 1) as"
      using id_take_nth_drop [of i as] Cons_nth_drop_Suc [of j as] assms(2-5) by simp
    have len: "length (take i as) = i" "length mid = j - i - 1" using assms(2,3) by (simp_all add: mid_def)
    have l: "length (fst (client_run (take i as) c)) = i" "length (fst (client_run mid c1)) = j - i - 1"
      by (simp_all only: client_run_length len)
    have rs: "rs = fst (client_run (take i as) c) @ fst (markInflight u k c0) # fst (client_run mid c1) @
        fst (markInflight u k' c2) # fst (client_run (drop (j + 1) as) (snd (markInflight u k' c2)))"
      by (subst assms(1) [symmetric], subst split)
        (simp add: client_run_append case_prod_beta Let_def c0_def c1_def c2_def)
    have "fst (markInflight u k c0)" using assms(6) unfolding rs by (simp add: nth_append l)
    then have "inflight c1 u \<noteq> None" by (auto simp: c1_def markInflight_def split: if_splits)
    moreover have "Take u \<notin> set mid" "Clear u \<notin> set mid"
      using n assms(2,3) by (fastforce simp: mid_def in_set_conv_nth)+
    ultimately have "inflight c2 u \<noteq> None" unfolding c2_def by (intro client_run_keeps)
    moreover have "fst (markInflight u k' c2)" using assms(2,7) unfolding rs
      by (simp add: nth_append l)
    ultimately show False by (simp add: markInflight_iff)
  qed
qed

theorem inflight_exclusive_witness:
  "\<exists>l. 0 < l \<and> l < 3 \<and> [Mark 7 ''a'', Mark 7 ''b'', Take 7, Mark 7 ''c''] ! l \<in> {Take 7, Clear 7}"
  by (rule conjunct1, rule inflight_exclusive [of _ "newClient [''a''] 0 False" "[True, False, True, True]" _ _ _ "''a''" "''c''"])
    (simp_all add: newClient_def markInflight_def takeInflight_def)

end
