(* ===== verification/History.thy ===== *)
theory History
  imports Message
begin

text \<open>
  The history buffer (\<^verbatim>\<open>src/history.go\<close>): per key, the most recent published
  messages within a time-to-live. A nil \<^verbatim>\<open>*historyStore\<close> is \<open>None\<close>; its methods
  do nothing. Each method reads the clock once, the argument \<open>now\<close>.
\<close>

record histItem =
  hist_m :: Message
  hist_at :: time

record historyStore =
  hist_size :: int
  hist_ttl :: duration
  byKey :: "(string, histItem list) gomap"

definition newHistoryStore :: "int \<Rightarrow> duration \<Rightarrow> historyStore" where
  "newHistoryStore sz ttl = \<lparr>hist_size = sz, hist_ttl = ttl, byKey = []\<rparr>"

definition prune :: "historyStore \<Rightarrow> histItem list \<Rightarrow> time \<Rightarrow> histItem list" where
  "prune h items now =
     (if hist_ttl h \<le> 0 then items
      else let cutoff = now - hist_ttl h in dropWhile (\<lambda>it. hist_at it < cutoff) items)"

definition history_add :: "time \<Rightarrow> string \<Rightarrow> Message \<Rightarrow> historyStore option \<Rightarrow> historyStore option" where
  "history_add now key m h0 =
     (case h0 of
        None \<Rightarrow> None
      | Some h \<Rightarrow>
          if hist_size h \<le> 0 then Some h
          else let items = prune h (gm_list (byKey h) key) now @ [\<lparr>hist_m = m, hist_at = now\<rparr>];
                   items' = (if int (length items) > hist_size h
                             then drop (nat (int (length items) - hist_size h)) items else items)
               in Some (h\<lparr>byKey := gm_put key items' (byKey h)\<rparr>))"

definition history_get :: "time \<Rightarrow> string \<Rightarrow> historyStore option \<Rightarrow> Message list \<times> historyStore option" where
  "history_get now key h0 =
     (case h0 of
        None \<Rightarrow> ([], None)
      | Some h \<Rightarrow>
          if hist_size h \<le> 0 then ([], Some h)
          else let items = prune h (gm_list (byKey h) key) now in
            if items = [] then ([], Some (h\<lparr>byKey := gm_del key (byKey h)\<rparr>))
            else (map hist_m items, Some (h\<lparr>byKey := gm_put key items (byKey h)\<rparr>)))"

text \<open>\<^verbatim>\<open>purge\<close> visits every key; deleting while ranging is allowed in Go and the
  visits do not depend on each other.\<close>

definition history_purge :: "time \<Rightarrow> historyStore option \<Rightarrow> historyStore option" where
  "history_purge now h0 =
     (case h0 of
        None \<Rightarrow> None
      | Some h \<Rightarrow>
          if hist_size h \<le> 0 \<or> hist_ttl h \<le> 0 then Some h
          else Some (h\<lparr>byKey := filter (\<lambda>(k, items). items \<noteq> [])
                                 (map (\<lambda>(k, items). (k, prune h items now)) (byKey h))\<rparr>))"

subsection \<open>Invariant\<close>

text \<open>
  \<open>hist_upto t h\<close>: the keys are distinct, each buffer holds at most the configured number of
  items, in the order of their times, none later than \<open>t\<close>.
\<close>

definition hist_upto :: "time \<Rightarrow> historyStore \<Rightarrow> bool" where
  "hist_upto t h \<longleftrightarrow> gm_ok (byKey h) \<and>
     (\<forall>k. let items = gm_list (byKey h) k in
        int (length items) \<le> max 0 (hist_size h) \<and> sorted (map hist_at items) \<and>
        (\<forall>it \<in> set items. hist_at it \<le> t))"

definition hist_fresh :: "historyStore \<Rightarrow> time \<Rightarrow> histItem \<Rightarrow> bool" where
  "hist_fresh h now it \<longleftrightarrow> (hist_ttl h \<le> 0 \<or> now - hist_ttl h \<le> hist_at it)"

lemma dropWhile_sorted:
  "sorted (map f xs) \<Longrightarrow> dropWhile (\<lambda>x. f x < (c::int)) xs = filter (\<lambda>x. c \<le> f x) xs"
  by (induction xs) (auto intro!: filter_True [symmetric])

text \<open>On a time-ordered buffer the scan of \<^verbatim>\<open>prune\<close> keeps exactly the fresh items.\<close>

lemma prune_filter:
  "sorted (map hist_at items) \<Longrightarrow> prune h items now = filter (hist_fresh h now) items"
  by (auto simp: prune_def hist_fresh_def [abs_def] dropWhile_sorted)

lemma prune_suffix: "\<exists>n. prune h items now = drop n items"
  by (auto simp: prune_def Let_def dropWhile_eq_drop) (metis drop0)

lemma sorted_drop_map: "sorted (map f xs) \<Longrightarrow> sorted (map f (drop n xs))"
  by (simp flip: drop_map add: sorted_wrt_drop)

lemma hist_upto_items:
  assumes "hist_upto t h"
  shows "int (length (gm_list (byKey h) k)) \<le> max 0 (hist_size h)"
    and "sorted (map hist_at (gm_list (byKey h) k))"
    and "it \<in> set (gm_list (byKey h) k) \<Longrightarrow> hist_at it \<le> t"
  using assms by (auto simp: hist_upto_def Let_def)

lemma hist_upto_put:
  assumes "hist_upto t h" "t \<le> t'" "int (length items) \<le> max 0 (hist_size h)"
    "sorted (map hist_at items)" "\<forall>it \<in> set items. hist_at it \<le> t'"
  shows "hist_upto t' (h\<lparr>byKey := gm_put k items (byKey h)\<rparr>)"
  using assms by (fastforce simp: hist_upto_def Let_def gomap_simps)

lemma hist_upto_del:
  "hist_upto t h \<Longrightarrow> t \<le> t' \<Longrightarrow> hist_upto t' (h\<lparr>byKey := gm_del k (byKey h)\<rparr>)"
  by (fastforce simp: hist_upto_def Let_def gomap_simps)

lemma hist_upto_suffixes:
  assumes "hist_upto t h" "t \<le> t'" "gm_ok m" "\<And>k. \<exists>n. gm_list m k = drop n (gm_list (byKey h) k)"
  shows "hist_upto t' (h\<lparr>byKey := m\<rparr>)"
proof -
  have "int (length (gm_list m k)) \<le> max 0 (hist_size h) \<and> sorted (map hist_at (gm_list m k)) \<and>
        (\<forall>it \<in> set (gm_list m k). hist_at it \<le> t')" for k
  proof -
    obtain n where n: "gm_list m k = drop n (gm_list (byKey h) k)" using assms(4) by blast
    have "\<forall>it \<in> set (gm_list m k). hist_at it \<le> t"
      unfolding n using hist_upto_items(3) [OF assms(1)] by (blast dest: in_set_dropD)
    with hist_upto_items(1,2) [OF assms(1), where k = k] assms(2) n show ?thesis
      by (auto simp: sorted_drop_map)
  qed
  with assms(3) show ?thesis by (simp add: hist_upto_def Let_def)
qed

lemma hist_upto_new: "hist_upto t (newHistoryStore sz ttl)"
  by (simp add: hist_upto_def newHistoryStore_def)

lemma history_add_upto:
  assumes "hist_upto t h" and "t \<le> now" and "history_add now k m (Some h) = Some h'"
  shows "hist_upto now h'"
proof (cases "hist_size h \<le> 0")
  case True
  with assms show ?thesis by (fastforce simp: history_add_def hist_upto_def Let_def)
next
  case False
  obtain n where p: "prune h (gm_list (byKey h) k) now = drop n (gm_list (byKey h) k)"
    using prune_suffix by blast
  let ?items = "drop n (gm_list (byKey h) k) @ [\<lparr>hist_m = m, hist_at = now\<rparr>]"
  have s: "sorted (map hist_at ?items)" and b: "\<forall>it \<in> set ?items. hist_at it \<le> now"
    using hist_upto_items [OF assms(1), where k = k] assms(2)
    by (fastforce simp: sorted_append sorted_drop_map dest: in_set_dropD)+
  let ?items' = "if int (length ?items) > hist_size h
    then drop (nat (int (length ?items) - hist_size h)) ?items else ?items"
  have "hist_upto now (h\<lparr>byKey := gm_put k ?items' (byKey h)\<rparr>)"
  proof (rule hist_upto_put [OF assms(1,2)])
    show "int (length ?items') \<le> max 0 (hist_size h)" using False by auto
    show "sorted (map hist_at ?items')"
      using s sorted_drop_map [OF s] by (simp only: simp_thms split: if_split)
    have "set ?items' \<subseteq> set ?items"
      by (cases "hist_size h < int (length ?items)")
        (simp_all only: if_True if_False set_drop_subset order_refl)
    then show "\<forall>it \<in> set ?items'. hist_at it \<le> now" using b by blast
  qed
  then show ?thesis using assms(3) False p by (simp add: history_add_def Let_def)
qed

lemma history_get_upto:
  assumes "hist_upto t h" and "t \<le> now" and "history_get now k (Some h) = (ms, Some h')"
  shows "hist_upto now h'"
proof (cases "hist_size h \<le> 0")
  case True
  with assms show ?thesis by (fastforce simp: history_get_def hist_upto_def Let_def)
next
  case False
  obtain n where p: "prune h (gm_list (byKey h) k) now = drop n (gm_list (byKey h) k)"
    using prune_suffix by blast
  have "hist_upto now (h\<lparr>byKey := gm_put k (drop n (gm_list (byKey h) k)) (byKey h)\<rparr>)"
    using hist_upto_items [OF assms(1), where k = k] assms(2)
    by (intro hist_upto_put [OF assms(1,2)]) (fastforce simp: sorted_drop_map dest: in_set_dropD)+
  then show ?thesis
    using assms(3) False p hist_upto_del [OF assms(1,2)]
    by (auto simp: history_get_def Let_def split: if_splits)
qed

lemma history_purge_upto:
  assumes "hist_upto t h" and "t \<le> now" and "history_purge now (Some h) = Some h'"
  shows "hist_upto now h'"
proof (cases "hist_size h \<le> 0 \<or> hist_ttl h \<le> 0")
  case True
  with assms show ?thesis by (fastforce simp: history_purge_def hist_upto_def Let_def)
next
  case False
  let ?m = "filter (\<lambda>(k, items). items \<noteq> []) (map (\<lambda>(k, items). (k, prune h items now)) (byKey h))"
  have get: "gm_list (filter (\<lambda>(k, items). items \<noteq> [])
      (map (\<lambda>(k, items). (k, prune h items now)) m)) k = prune h (gm_list m k) now"
    if "gm_ok m" for m :: "(string, histItem list) gomap" and k
    using that
  proof (induction m)
    case Nil
    show ?case by (simp add: prune_def)
  next
    case (Cons a m)
    moreover have "gm_list m k = []" if "fst a = k"
      using Cons.prems that gm_list_nonempty_key [of m k] by (auto simp: gm_ok_def)
    moreover have "prune h [] now = []" by (simp add: prune_def)
    ultimately show ?case
      by (cases a; cases "fst a = k"; cases "prune h (snd a) now = []") (simp_all add: gm_list_def gm_ok_def)
  qed
  have keys: "gm_keys (filter (\<lambda>(k, items). items \<noteq> [])
      (map (\<lambda>(k, items). (k, prune h items now)) m)) =
      map fst (filter (\<lambda>(k, items). prune h items now \<noteq> []) m)" for m
    by (induction m) auto
  have ok: "gm_ok (byKey h)" using assms(1) by (simp add: hist_upto_def)
  then have "gm_ok ?m" unfolding gm_ok_def keys by (induction "byKey h") (auto simp: distinct_map_filter)
  moreover have "\<exists>n. gm_list ?m k = drop n (gm_list (byKey h) k)" for k
    unfolding get [OF ok] by (rule prune_suffix)
  ultimately have "hist_upto now (h\<lparr>byKey := ?m\<rparr>)"
    by (rule hist_upto_suffixes [OF assms(1,2)])
  then show ?thesis using assms(3) False by (simp add: history_purge_def)
qed

subsection \<open>What a client reads back\<close>

definition last_n :: "nat \<Rightarrow> 'a list \<Rightarrow> 'a list" where
  "last_n n xs = drop (length xs - n) xs"

lemma last_n_snoc: "0 < n \<Longrightarrow> last_n n (xs @ [x]) = last_n n (last_n n xs @ [x])"
  by (cases "length xs < n") (auto simp: last_n_def Suc_diff_le)

lemma last_n_short: "length xs \<le> n \<Longrightarrow> last_n n xs = xs"
  by (simp add: last_n_def)

lemma trim_last_n:
  "0 < n \<Longrightarrow> (if n < int (length xs) then drop (nat (int (length xs) - n)) xs else xs) = last_n (nat n) xs"
  by (auto simp: last_n_def nat_diff_distrib)

text \<open>The buffer of a key agrees with the last published items as far as any later read can
  tell.\<close>

definition hist_shadow :: "time \<Rightarrow> historyStore \<Rightarrow> string \<Rightarrow> histItem list \<Rightarrow> bool" where
  "hist_shadow t h k pubs \<longleftrightarrow> sorted (map hist_at pubs) \<and>
     (\<forall>now \<ge> t. filter (hist_fresh h now) (gm_list (byKey h) k) =
                filter (hist_fresh h now) (last_n (nat (hist_size h)) pubs))"

lemma hist_fresh_antimono: "hist_fresh h t' it \<Longrightarrow> t \<le> t' \<Longrightarrow> hist_fresh h t it"
  by (auto simp: hist_fresh_def)

lemma sorted_last_n: "sorted (map f xs) \<Longrightarrow> sorted (map f (last_n n xs))"
  by (simp add: last_n_def sorted_drop_map)

lemma fresh_window:
  assumes L: "length L \<le> n" "0 < n" "sorted (map hist_at L)" and t: "t \<le> t'"
    and F: "F = filter (hist_fresh h t) L"
  shows "filter (hist_fresh h t') (last_n n (F @ [x])) = filter (hist_fresh h t') (last_n n (L @ [x]))"
proof -
  have filt: "filter (hist_fresh h t') F = filter (hist_fresh h t') L"
    using hist_fresh_antimono [OF _ t] unfolding F filter_filter by (auto intro: filter_cong)
  have len: "length F \<le> length L" by (simp add: F)
  show ?thesis
  proof (cases "length L < n")
    case True
    with len show ?thesis by (simp add: last_n_short filt)
  next
    case False
    with L(1,2) obtain y L' where y: "L = y # L'" and n: "n = Suc (length L')"
      by (cases L) auto
    show ?thesis
    proof (cases "hist_fresh h t y")
      case True
      then have "\<forall>z \<in> set L. hist_fresh h t z" using L(3) y by (fastforce simp: hist_fresh_def)
      then have "F = L" by (simp add: F)
      then show ?thesis by simp
    next
      case False
      then have "length F \<le> length L'" by (simp add: F y)
      moreover have "\<not> hist_fresh h t' y" using False hist_fresh_antimono [OF _ t] by blast
      moreover have "last_n n (L @ [x]) = L' @ [x]" by (simp add: last_n_def y n)
      ultimately show ?thesis using filt by (simp add: last_n_short n y)
    qed
  qed
qed

lemma history_add_shadow:
  assumes "hist_shadow t h k pubs" and "t \<le> now" and "0 < hist_size h"
    and "history_add now k' m (Some h) = Some h'" and "hist_upto t h"
    and "\<forall>it \<in> set pubs. hist_at it \<le> now"
  shows "hist_shadow now h' k (if k' = k then pubs @ [\<lparr>hist_m = m, hist_at = now\<rparr>] else pubs)"
proof -
  let ?x = "\<lparr>hist_m = m, hist_at = now\<rparr>" and ?n = "nat (hist_size h)"
  let ?items = "gm_list (byKey h) k'"
  let ?F = "filter (hist_fresh h now) ?items"
  have h': "h' = h\<lparr>byKey := gm_put k' (last_n ?n (?F @ [?x])) (byKey h)\<rparr>"
    using assms(3,4) prune_filter [OF hist_upto_items(2) [OF assms(5), where k = k'], of h now]
    by (simp add: history_add_def Let_def trim_last_n del: length_append)
  have fr: "hist_fresh h' = hist_fresh h" and sz: "hist_size h' = hist_size h"
    using h' by (auto simp: hist_fresh_def fun_eq_iff)
  show ?thesis
  proof (cases "k' = k")
    case False
    with assms(1,2) h' fr sz show ?thesis by (auto simp: hist_shadow_def gomap_simps)
  next
    case True
    let ?L = "last_n ?n pubs"
    have s: "sorted (map hist_at pubs)" using assms(1) by (simp add: hist_shadow_def)
    have F: "?F = filter (hist_fresh h now) ?L"
      using assms(1,2) True by (simp add: hist_shadow_def)
    have "filter (hist_fresh h t') (last_n ?n (?F @ [?x])) = filter (hist_fresh h t') (last_n ?n (pubs @ [?x]))"
      if "now \<le> t'" for t'
      using fresh_window [OF _ _ sorted_last_n [OF s] that F, of ?n ?x] assms(3)
      by (simp add: last_n_snoc [of ?n pubs]) (simp add: last_n_def)
    with True h' fr sz s assms(6) show ?thesis
      by (auto simp: hist_shadow_def gomap_simps sorted_append)
  qed
qed

text \<open>Publishing a sequence of messages, each with its time and key.\<close>

definition history_run :: "(time \<times> string \<times> Message) list \<Rightarrow> historyStore option \<Rightarrow> historyStore option" where
  "history_run evs h = fold (\<lambda>(t, k, m). history_add t k m) evs h"

definition published :: "string \<Rightarrow> (time \<times> string \<times> Message) list \<Rightarrow> histItem list" where
  "published k evs = [\<lparr>hist_m = m, hist_at = t\<rparr>. (t, k', m) \<leftarrow> evs, k' = k]"

lemma published_snoc:
  "published k (evs @ [(t, k', m)]) =
     (if k' = k then published k evs @ [\<lparr>hist_m = m, hist_at = t\<rparr>] else published k evs)"
  by (simp add: published_def)

lemma published_times: "it \<in> set (published k evs) \<Longrightarrow> hist_at it \<in> fst ` set evs"
  by (force simp: published_def)

lemma history_run_shadow:
  assumes "sorted (map fst evs)" and "\<forall>e \<in> set evs. fst e \<le> now" and "0 < sz"
  shows "\<exists>h. history_run evs (Some (newHistoryStore sz ttl)) = Some h \<and> hist_size h = sz \<and>
           hist_ttl h = ttl \<and> hist_upto now h \<and> hist_shadow now h k (published k evs)"
  using assms(1,2)
proof (induction evs arbitrary: now rule: rev_induct)
  case Nil
  show ?case
    using hist_upto_new [of now sz ttl]
    by (simp add: history_run_def hist_shadow_def newHistoryStore_def published_def last_n_def)
next
  case (snoc e evs)
  obtain t k' m where e: "e = (t, k', m)" by (cases e) auto
  have le: "\<forall>e \<in> set evs. fst e \<le> t" and s: "sorted (map fst evs)" and tn: "t \<le> now"
    using snoc.prems e by (auto simp: sorted_append)
  obtain h where h: "history_run evs (Some (newHistoryStore sz ttl)) = Some h"
    "hist_size h = sz" "hist_ttl h = ttl" "hist_upto t h" "hist_shadow t h k (published k evs)"
    using snoc.IH [OF s le] by blast
  obtain h' where h': "history_add t k' m (Some h) = Some h'"
    by (cases "hist_size h \<le> 0") (auto simp: history_add_def Let_def)
  have keep: "hist_size h' = sz" "hist_ttl h' = ttl"
    using h' h by (auto simp: history_add_def Let_def split: if_splits)
  have pub: "\<forall>it \<in> set (published k evs). hist_at it \<le> t" using published_times le by fastforce
  have sh: "hist_shadow t h' k (published k (evs @ [e]))"
    using history_add_shadow [OF h(5) order_refl _ h' h(4) pub] h(2) assms(3)
    by (simp add: e published_snoc)
  have up: "hist_upto t h'" by (rule history_add_upto [OF h(4) order_refl h'])
  have "hist_upto now h'" by (rule hist_upto_suffixes [OF up tn, of "byKey h'", simplified])
      (use up in \<open>auto simp: hist_upto_def intro: exI [of _ 0]\<close>)
  moreover have "hist_shadow now h' k (published k (evs @ [e]))"
    using sh tn by (auto simp: hist_shadow_def)
  ultimately show ?case using h(1) h' keep e by (auto simp: history_run_def)
qed

lemma history_get_fresh:
  assumes "hist_upto t h" and "0 < hist_size h"
  shows "fst (history_get now k (Some h)) = map hist_m (filter (hist_fresh h now) (gm_list (byKey h) k))"
  using assms prune_filter [OF hist_upto_items(2) [OF assms(1), where k = k], of h now]
  by (simp add: history_get_def Let_def)

text \<open>C13: Reading a key's history after any sequence of publishes (clock readings not
  decreasing) returns, in order, exactly those of the last \<open>sz\<close> messages published to that key
  that are not older than the time-to-live: nothing fresh is lost by pruning and trimming at
  each publish, and nothing stale or belonging to another key is returned.\<close>

theorem history_reads_back:
  assumes "sorted (map fst evs)" and "\<forall>e \<in> set evs. fst e \<le> now" and "0 < sz"
  shows "fst (history_get now k (history_run evs (Some (newHistoryStore sz ttl)))) =
         map hist_m (filter (\<lambda>it. ttl \<le> 0 \<or> now - ttl \<le> hist_at it)
                       (last_n (nat sz) (published k evs)))"
proof -
  obtain h where h: "history_run evs (Some (newHistoryStore sz ttl)) = Some h" "hist_size h = sz"
    "hist_ttl h = ttl" "hist_upto now h" "hist_shadow now h k (published k evs)"
    using history_run_shadow [OF assms] by blast
  have "fst (history_get now k (Some h)) = map hist_m (filter (hist_fresh h now) (gm_list (byKey h) k))"
    using history_get_fresh [OF h(4)] h(2) assms(3) by simp
  also have "filter (hist_fresh h now) (gm_list (byKey h) k)
      = filter (hist_fresh h now) (last_n (nat sz) (published k evs))"
    using h(2,5) by (simp add: hist_shadow_def)
  finally show ?thesis using h(1,3) by (simp add: hist_fresh_def [abs_def])
qed

theorem history_reads_back_witness:
  "let m1 = zero_Message\<lparr>Key := ''a''\<rparr>; m2 = zero_Message\<lparr>Key := ''b''\<rparr>;
       evs = [(0, ''r'', m1), (5, ''r'', m2), (6, ''q'', m1), (7, ''r'', m1)]
   in fst (history_get 10 ''r'' (history_run evs (Some (newHistoryStore 2 4)))) = [m1]"
  using history_reads_back [of "[(0, ''r'', zero_Message\<lparr>Key := ''a''\<rparr>),
      (5, ''r'', zero_Message\<lparr>Key := ''b''\<rparr>), (6, ''q'', zero_Message\<lparr>Key := ''a''\<rparr>),
      (7, ''r'', zero_Message\<lparr>Key := ''a''\<rparr>)]" 10 2 "''r''" 4]
  by (simp add: published_def last_n_def)

end
