(* ===== verification/Http.thy ===== *)
theory Http
  imports Message
begin

text \<open>
  What the handlers use of \<^verbatim>\<open>net/http\<close>, \<^verbatim>\<open>net\<close> and
  \<^verbatim>\<open>hash/fnv\<close>: requests as the server hands them over (query and headers already
  split), responses as status, content type and body, Basic Auth with its base64 decoding, host
  and port splitting, and the two FNV-1a hashes on machine words.
\<close>

record request =
  r_Method :: string
  r_Path :: string
  r_Query :: "(string \<times> string) list"
  r_Header :: "(string \<times> string) list"
  r_RemoteAddr :: string
  r_Body :: "error + string"

record response =
  status :: nat
  content_type :: string
  body :: string

text \<open>\<^verbatim>\<open>Header.Get\<close> and \<^verbatim>\<open>Values.Get\<close>: the first value, or the
  empty string. \<^verbatim>\<open>Values.Has\<close>: the name occurs.\<close>

definition Get :: "(string \<times> string) list \<Rightarrow> string \<Rightarrow> string" where
  "Get kvs k = (case map_of kvs k of None \<Rightarrow> [] | Some v \<Rightarrow> v)"

definition Has :: "(string \<times> string) list \<Rightarrow> string \<Rightarrow> bool" where
  "Has kvs k = (map_of kvs k \<noteq> None)"

text \<open>\<^verbatim>\<open>http.MaxBytesReader\<close> read to the end: an error beyond the limit.\<close>

definition MaxBytesReader :: "int \<Rightarrow> error + string \<Rightarrow> error + string" where
  "MaxBytesReader limit b =
     (case b of Inl e \<Rightarrow> Inl e
      | Inr s \<Rightarrow> if int (length s) > max 0 limit then Inl ''http: request body too large'' else Inr s)"

subsection \<open>Basic authentication\<close>

definition b64_val :: "char \<Rightarrow> nat option" where
  "b64_val c =
     (let b = byte c in
      if 65 \<le> b \<and> b \<le> 90 then Some (b - 65)
      else if 97 \<le> b \<and> b \<le> 122 then Some (b - 71)
      else if 48 \<le> b \<and> b \<le> 57 then Some (b + 4)
      else if c = CHR ''+'' then Some 62 else if c = CHR ''/'' then Some 63 else None)"

fun b64_quads :: "string \<Rightarrow> string option" where
  "b64_quads [] = Some []"
| "b64_quads (a # b # c # d # rest) =
     (case (b64_val a, b64_val b) of
        (Some x, Some y) \<Rightarrow>
          if c = CHR ''='' then
            (if d = CHR ''='' \<and> rest = [] then Some [char_of ((x * 64 + y) div 16)] else None)
          else (case b64_val c of
            None \<Rightarrow> None
          | Some z \<Rightarrow>
              if d = CHR ''='' then
                (if rest = [] then
                   Some [char_of ((x * 64 + y) div 16), char_of (((x * 64 + y) * 64 + z) div 4)]
                 else None)
              else (case (b64_val d, b64_quads rest) of
                (Some w, Some out) \<Rightarrow>
                  (let v = ((x * 64 + y) * 64 + z) * 64 + w in
                   Some (char_of (v div 65536) # char_of (v div 256) # char_of v # out))
              | _ \<Rightarrow> None))
      | _ \<Rightarrow> None)"
| "b64_quads _ = None"

definition b64_decode :: "string \<Rightarrow> string option" where
  "b64_decode s = b64_quads (filter (\<lambda>c. byte c \<noteq> 10 \<and> byte c \<noteq> 13) s)"

definition ascii_lower :: "char \<Rightarrow> char" where
  "ascii_lower c = (if 65 \<le> byte c \<and> byte c \<le> 90 then char_of (byte c + 32) else c)"

definition BasicAuth :: "request \<Rightarrow> (string \<times> string) option" where
  "BasicAuth r =
     (let auth = Get (r_Header r) ''Authorization'' in
      if length auth < 6 \<or> map ascii_lower (take 6 auth) \<noteq> ''basic '' then None
      else case b64_decode (drop 6 auth) of
        None \<Rightarrow> None
      | Some cs \<Rightarrow>
          if CHR '':'' \<in> set cs
          then Some (takeWhile (\<lambda>c. c \<noteq> CHR '':'') cs, tl (dropWhile (\<lambda>c. c \<noteq> CHR '':'') cs))
          else None)"

subsection \<open>Host and port\<close>

text \<open>\<^verbatim>\<open>net.SplitHostPort\<close>, the host part; \<open>None\<close> is an error.\<close>

definition index_byte :: "char \<Rightarrow> string \<Rightarrow> nat option" where
  "index_byte c s = (if c \<in> set s then Some (length (takeWhile (\<lambda>x. x \<noteq> c) s)) else None)"

definition last_index_byte :: "char \<Rightarrow> string \<Rightarrow> nat option" where
  "last_index_byte c s = map_option (\<lambda>i. length s - 1 - i) (index_byte c (rev s))"

definition SplitHost :: "string \<Rightarrow> string option" where
  "SplitHost hp =
     (case last_index_byte CHR '':'' hp of
        None \<Rightarrow> None
      | Some i \<Rightarrow>
          if hd hp = CHR ''['' then
            (case index_byte CHR '']'' hp of
               None \<Rightarrow> None
             | Some e \<Rightarrow>
                 if e + 1 = length hp \<or> e + 1 \<noteq> i then None
                 else if CHR ''['' \<in> set (drop 1 hp) \<or> CHR '']'' \<in> set (drop (e + 1) hp) then None
                 else Some (take (e - 1) (drop 1 hp)))
          else if CHR '':'' \<in> set (take i hp) then None
          else if CHR ''['' \<in> set hp \<or> CHR '']'' \<in> set hp then None
          else Some (take i hp))"

subsection \<open>FNV-1a\<close>

unbundle bit_operations_syntax

definition fnv32a :: "string \<Rightarrow> 32 word" where
  "fnv32a s = fold (\<lambda>c h. (h XOR of_nat (byte c)) * 16777619) s 2166136261"

definition fnv64a_write :: "string \<Rightarrow> 64 word \<Rightarrow> 64 word" where
  "fnv64a_write s h = fold (\<lambda>c h. (h XOR of_nat (byte c)) * 1099511628211) s h"

definition fnv64a_init :: "64 word" where
  "fnv64a_init = 14695981039346656037"

lemma fnv64a_write_append: "fnv64a_write (s @ t) h = fnv64a_write t (fnv64a_write s h)"
  by (simp add: fnv64a_write_def)

end
