(* ===== verification/Rate_Limit.thy ===== *)
theory Rate_Limit
  imports Http
begin

text \<open>
  The per-client token bucket (\<^verbatim>\<open>src/ratelimit.go\<close>) in float64 arithmetic.
  \<^verbatim>\<open>Allow\<close> runs under the limiter's mutex and reads the clock once.
  The operation counter is a Go integer of 64 bits; it only selects when to purge, every 1024 operations,
  and is kept unbounded here, which is the same because 1024 divides \<open>2 ^ 64\<close>.
\<close>

record bucket =
  tokens :: f64
  last_refill :: time

record rateLimiter =
  rl_rate :: f64
  rl_burst :: f64
  rl_buckets :: "(string, bucket) gomap"
  rl_ops :: int
  purgeEvr :: int

definition newRateLimiter :: "f64 \<Rightarrow> int \<Rightarrow> rateLimiter" where
  "newRateLimiter rate burst =
     (let b = f64_of_rat (of_int burst); b' = (if f_gt (Fin 1) b then Fin 1 else b) in
      \<lparr>rl_rate = rate, rl_burst = b', rl_buckets = [], rl_ops = 0, purgeEvr = 1024\<rparr>)"

text \<open>\<^verbatim>\<open>b.tokens + now.Sub(b.last).Seconds() * rl.rate\<close>.\<close>

definition refilled :: "rateLimiter \<Rightarrow> time \<Rightarrow> bucket \<Rightarrow> f64" where
  "refilled rl now b =
     fadd (tokens b) (fmul (Duration_Seconds (time_Sub now (last_refill b))) (rl_rate rl))"

definition rl_purge :: "time \<Rightarrow> rateLimiter \<Rightarrow> rateLimiter" where
  "rl_purge now rl =
     rl\<lparr>rl_buckets := filter (\<lambda>(k, b). \<not> f_ge (refilled rl now b) (rl_burst rl)) (rl_buckets rl)\<rparr>"

definition refill :: "rateLimiter \<Rightarrow> time \<Rightarrow> bucket option \<Rightarrow> bucket" where
  "refill rl now ob =
     (case ob of
        None \<Rightarrow> \<lparr>tokens = rl_burst rl, last_refill = now\<rparr>
      | Some b \<Rightarrow>
          (let t = refilled rl now b; t' = (if f_gt t (rl_burst rl) then rl_burst rl else t)
           in \<lparr>tokens = t', last_refill = now\<rparr>))"

definition Allow :: "time \<Rightarrow> string \<Rightarrow> rateLimiter \<Rightarrow> bool \<times> rateLimiter" where
  "Allow now key rl =
     (let rl1 = rl\<lparr>rl_ops := rl_ops rl + 1\<rparr>;
          rl2 = (if rl_ops rl1 mod purgeEvr rl1 = 0 then rl_purge now rl1 else rl1);
          b = refill rl2 now (gm_get (rl_buckets rl2) key) in
      if f_ge (tokens b) (Fin 1)
      then (True, rl2\<lparr>rl_buckets := gm_put key (b\<lparr>tokens := fsub (tokens b) (Fin 1)\<rparr>) (rl_buckets rl2)\<rparr>)
      else (False, rl2\<lparr>rl_buckets := gm_put key b (rl_buckets rl2)\<rparr>))"

definition clientIP :: "bool \<Rightarrow> request \<Rightarrow> string" where
  "clientIP trustProxyHeaders r =
     (let xff = Get (r_Header r) ''X-Forwarded-For''; xr = Get (r_Header r) ''X-Real-Ip'' in
      if trustProxyHeaders \<and> xff \<noteq> [] then TrimSpace (takeWhile (\<lambda>c. c \<noteq> CHR '','') xff)
      else if trustProxyHeaders \<and> xr \<noteq> [] then TrimSpace xr
      else case SplitHost (r_RemoteAddr r) of None \<Rightarrow> r_RemoteAddr r | Some host \<Rightarrow> host)"

subsection \<open>Token levels\<close>

text \<open>
  \<open>rl_ok B now rl\<close>: the capacity is the integer \<open>B\<close>, the rate is a finite number that is not
  negative, and every bucket was touched no later than \<open>now\<close> and holds between 0 and \<open>B\<close> tokens.
\<close>

definition level_ok :: "int \<Rightarrow> f64 \<Rightarrow> bool" where
  "level_ok B t \<longleftrightarrow> (\<exists>x. t = Fin x \<and> 0 \<le> x \<and> x \<le> of_int B)"

definition bucket_ok :: "int \<Rightarrow> time \<Rightarrow> bucket \<Rightarrow> bool" where
  "bucket_ok B now b \<longleftrightarrow> level_ok B (tokens b) \<and> last_refill b \<le> now"

definition rl_ok :: "int \<Rightarrow> time \<Rightarrow> rateLimiter \<Rightarrow> bool" where
  "rl_ok B now rl \<longleftrightarrow> 1 \<le> B \<and> B \<le> 2 ^ 53 \<and> rl_burst rl = Fin (of_int B) \<and>
     (\<exists>r. rl_rate rl = Fin r \<and> 0 \<le> r) \<and> gm_ok (rl_buckets rl) \<and>
     (\<forall>(k, b) \<in> set (rl_buckets rl). bucket_ok B now b)"

lemma newRateLimiter_ok:
  assumes "0 \<le> r" and "b \<le> 2 ^ 53"
  shows "rl_ok (max 1 b) now (newRateLimiter (Fin r) b)"
proof (cases "1 \<le> b")
  case True
  then have "f64_of_rat (of_int b) = Fin (of_int b)"
    using assms f64_of_rat_small [of "of_int b" b] f64r.rnd_int [of b] by simp
  then show ?thesis using assms True by (simp add: newRateLimiter_def rl_ok_def)
next
  case False
  then have "f64_round (of_int b) \<le> of_int 0" by (intro f64r.rnd_le_int) simp_all
  then have "f64_of_rat (of_int b) = NInf \<or> (\<exists>x. f64_of_rat (of_int b) = Fin x \<and> x < 1)"
    unfolding f64_of_rat_def Let_def
    by (auto simp del: of_int_le_iff simp: not_le intro: le_less_trans split: if_splits)
  then have "f_gt (Fin 1) (f64_of_rat (of_int b))" by auto
  then show ?thesis using assms False by (simp add: newRateLimiter_def rl_ok_def max_def)
qed

text \<open>Elapsed time in seconds, and with it the refill, grows with the clock.\<close>

lemma seconds_parts:
  assumes "0 \<le> d" and "d \<le> max_duration"
  shows "Duration_Seconds d =
           Fin (f64_round (of_int (d div second) + f64_round (of_int (d mod second) / 1000000000)))"
    and "0 \<le> f64_round (of_int (d mod second) / 1000000000)"
    and "f64_round (of_int (d mod second) / 1000000000) \<le> 1"
proof -
  define s n where "s = d div second" and "n = d mod second"
  have s: "0 \<le> s" "s \<le> 9223372036" and n: "0 \<le> n" "n < 1000000000"
    using assms by (auto simp: s_def n_def)
  have sd: "sgn d * (\<bar>d\<bar> div second) = s" "sgn d * (\<bar>d\<bar> mod second) = n"
    using assms by (auto simp: sgn_if s_def n_def)
  have a: "f64_of_rat (of_int s) = Fin (of_int s)"
    using s f64_of_rat_small [of "of_int s" s] f64r.rnd_int [of s] by simp
  define q where "q = f64_round (of_int n / 1000000000)"
  have q01: "0 \<le> (of_int n :: rat) / 1000000000" "(of_int n :: rat) / 1000000000 \<le> of_int 1"
    using n by auto
  then have b: "fdiv_fin (of_int n) 1000000000 = Fin q"
    unfolding fdiv_fin_def q_def by (intro f64_of_rat_small [where n = 1]) auto
  have q: "0 \<le> q" "q \<le> of_int 1"
    unfolding q_def using q01 by (auto intro: f64r.rnd_nonneg f64r.rnd_le_int [where n = 1, simplified])
  have c: "f64_of_rat (of_int s + q) = Fin (f64_round (of_int s + q))"
    using s q by (intro f64_of_rat_small [where n = "s + 1"]) auto
  show "Duration_Seconds d =
           Fin (f64_round (of_int (d div second) + f64_round (of_int (d mod second) / 1000000000)))"
    by (simp add: Duration_Seconds_def Let_def sd a b c flip: s_def n_def q_def)
  show "0 \<le> f64_round (of_int (d mod second) / 1000000000)"
    "f64_round (of_int (d mod second) / 1000000000) \<le> 1"
    using q by (simp_all flip: n_def q_def)
qed

lemma Duration_Seconds_mono:
  assumes "0 \<le> d" and "d \<le> d'" and "d' \<le> max_duration"
  shows "\<exists>x y. Duration_Seconds d = Fin x \<and> Duration_Seconds d' = Fin y \<and> 0 \<le> x \<and> x \<le> y"
proof -
  let ?q = "\<lambda>d. f64_round (of_int (d mod second) / 1000000000)"
  have d': "0 \<le> d'" and d: "d \<le> max_duration" using assms by auto
  note p = seconds_parts [OF assms(1) d] and p' = seconds_parts [OF d' assms(3)]
  have "of_int (d div second) + ?q d \<le> of_int (d' div second) + ?q d'"
  proof (cases "d div second = d' div second")
    case True
    then have "d mod second \<le> d' mod second"
      using assms(2) div_mult_mod_eq [of d second] div_mult_mod_eq [of d' second] by linarith
    then show ?thesis unfolding True by (intro add_left_mono f64_round_mono) (simp add: divide_right_mono)
  next
    case False
    moreover have "d div second \<le> d' div second" using assms(2) by (simp add: zdiv_mono1)
    ultimately have "d div second + 1 \<le> d' div second" by linarith
    then have "of_int (d div second + 1) \<le> (of_int (d' div second) :: rat)" by (simp only: of_int_le_iff)
    then show ?thesis using p p' by simp
  qed
  moreover have "0 \<le> f64_round (of_int (d div second) + ?q d)"
    using assms(1) p(2) by (intro f64r.rnd_nonneg add_nonneg_nonneg) (simp_all add: pos_imp_zdiv_nonneg_iff)
  ultimately show ?thesis using p(1) p'(1) f64_round_mono by blast
qed

text \<open>The order of float64 values without NaN, up to an overflow to infinity.\<close>

fun f_le :: "f64 \<Rightarrow> f64 \<Rightarrow> bool" where
  "f_le (Fin a) (Fin b) = (a \<le> b)"
| "f_le (Fin a) PInf = True"
| "f_le PInf PInf = True"
| "f_le _ _ = False"

lemma f_le_PInf: "f_le (Fin 0) a \<Longrightarrow> f_le a PInf"
  by (cases a) auto

lemma f64_of_rat_mono:
  assumes "0 \<le> a" and "a \<le> b"
  shows "f_le (Fin 0) (f64_of_rat a) \<and> f_le (f64_of_rat a) (f64_of_rat b)"
proof -
  have r: "0 \<le> f64_round a" "f64_round a \<le> f64_round b"
    using assms by (auto intro: f64r.rnd_nonneg f64_round_mono)
  have "(0::rat) < 2 ^ 1024" by (rule zero_less_power) simp
  then have "\<not> f64_round a \<le> - (2 ^ 1024)" "\<not> f64_round b \<le> - (2 ^ 1024)" using r by linarith+
  then show ?thesis using r unfolding f64_of_rat_def Let_def
    by (auto simp del: power_numeral)
qed

lemma refilled_mono:
  assumes "rl_ok B now rl" and "bucket_ok B now b" and "now \<le> now'"
  shows "f_le (Fin 0) (refilled rl now b) \<and> f_le (refilled rl now b) (refilled rl now' b)"
proof -
  obtain r where r: "rl_rate rl = Fin r" "0 \<le> r" using assms by (auto simp: rl_ok_def)
  obtain x where x: "tokens b = Fin x" "0 \<le> x" using assms by (auto simp: bucket_ok_def level_ok_def)
  have "0 \<le> time_Sub now (last_refill b)" "time_Sub now (last_refill b) \<le> time_Sub now' (last_refill b)"
    "time_Sub now' (last_refill b) \<le> max_duration"
    using assms by (auto simp: bucket_ok_def time_Sub_def)
  from Duration_Seconds_mono [OF this] obtain u v where uv:
    "Duration_Seconds (time_Sub now (last_refill b)) = Fin u"
    "Duration_Seconds (time_Sub now' (last_refill b)) = Fin v" "0 \<le> u" "u \<le> v" by auto
  have "f_le (Fin 0) (f64_of_rat (u * r)) \<and> f_le (f64_of_rat (u * r)) (f64_of_rat (v * r))"
    using uv r by (intro f64_of_rat_mono mult_nonneg_nonneg mult_right_mono)
  then show ?thesis
    using x f64_of_rat_mono [of "x + fin" "x + fin'" for fin fin'] uv r
    by (cases "f64_of_rat (u * r)"; cases "f64_of_rat (v * r)")
       (auto simp: refilled_def intro!: f64_of_rat_mono [THEN conjunct1] f_le_PInf)
qed

subsection \<open>One bucket\<close>

text \<open>The decision and the new bucket of one request, from the client's bucket alone.\<close>

definition bucket_step :: "rateLimiter \<Rightarrow> time \<Rightarrow> bucket option \<Rightarrow> bool \<times> bucket" where
  "bucket_step rl now ob =
     (let b = refill rl now ob in
      if f_ge (tokens b) (Fin 1) then (True, b\<lparr>tokens := fsub (tokens b) (Fin 1)\<rparr>) else (False, b))"

lemma refill_ok:
  assumes "rl_ok B now rl" and "\<And>b. ob = Some b \<Longrightarrow> bucket_ok B now b"
  shows "bucket_ok B now (refill rl now ob)"
proof (cases ob)
  case None
  then show ?thesis using assms by (auto simp: refill_def rl_ok_def bucket_ok_def level_ok_def)
next
  case (Some b)
  have "f_le (Fin 0) (refilled rl now b)" using refilled_mono [of B now rl b now] assms Some by simp
  then show ?thesis using assms(1) Some
    by (cases "refilled rl now b") (auto simp: refill_def rl_ok_def bucket_ok_def level_ok_def Let_def)
qed

lemma fsub_one_le:
  assumes "1 \<le> x" and "x \<le> of_int j" and "j \<le> 2 ^ 53"
  shows "\<exists>y. fsub (Fin x) (Fin 1) = Fin y \<and> 0 \<le> y \<and> y \<le> of_int (j - 1)"
proof -
  have "1 \<le> j" using assms by linarith
  then have "f64_of_rat (x - 1) = Fin (f64_round (x - 1))"
    using assms by (intro f64_of_rat_small [where n = j]) auto
  moreover have "f64_round (x - 1) \<le> of_int (j - 1)"
    using assms \<open>1 \<le> j\<close> by (intro f64r.rnd_le_int) auto
  moreover have "0 \<le> f64_round (x - 1)" using assms by (intro f64r.rnd_nonneg) simp
  ultimately show ?thesis by (auto simp: fsub_def)
qed

lemma bucket_step_ok:
  assumes "rl_ok B now rl" and "\<And>b. ob = Some b \<Longrightarrow> bucket_ok B now b"
  shows "bucket_ok B now (snd (bucket_step rl now ob))"
proof -
  obtain x where x: "tokens (refill rl now ob) = Fin x" "0 \<le> x" "x \<le> of_int B"
    and l: "last_refill (refill rl now ob) \<le> now"
    using refill_ok [OF assms] by (auto simp: bucket_ok_def level_ok_def)
  have B: "1 \<le> B" "B \<le> 2 ^ 53" using assms(1) by (auto simp: rl_ok_def)
  show ?thesis
  proof (cases "1 \<le> x")
    case True
    from fsub_one_le [OF True x(3) B(2)] obtain y where y: "fsub (Fin x) (Fin 1) = Fin y" "0 \<le> y"
      "y \<le> of_int (B - 1)" by blast
    then have "y \<le> of_int B" by simp
    with x l y True show ?thesis by (simp add: bucket_step_def Let_def bucket_ok_def level_ok_def)
  next
    case False
    with x l show ?thesis by (simp add: bucket_step_def Let_def bucket_ok_def level_ok_def)
  qed
qed

text \<open>A bucket that purging drops refills to the capacity at any later request, as a new one.\<close>

lemma refill_full:
  assumes "rl_ok B now rl" and "bucket_ok B now b" and "now \<le> now'"
    and "f_ge (refilled rl now b) (rl_burst rl)"
  shows "refill rl now' (Some b) = refill rl now' None"
proof -
  have "rl_burst rl = Fin (of_int B)" using assms(1) by (simp add: rl_ok_def)
  then show ?thesis using refilled_mono [OF assms(1-3)] assms(4)
    by (cases "refilled rl now b"; cases "refilled rl now' b") (auto simp: refill_def Let_def)
qed

subsection \<open>Runs of requests\<close>

fun allow_run :: "(time \<times> string) list \<Rightarrow> rateLimiter \<Rightarrow> bool list \<times> rateLimiter" where
  "allow_run [] rl = ([], rl)"
| "allow_run ((now, key) # reqs) rl =
     (let (ok, rl') = Allow now key rl; (oks, rl'') = allow_run reqs rl' in (ok # oks, rl''))"

text \<open>The decisions a client gets from a bucket of its own.\<close>

fun bucket_run :: "rateLimiter \<Rightarrow> time list \<Rightarrow> bucket option \<Rightarrow> bool list" where
  "bucket_run rl [] ob = []"
| "bucket_run rl (now # ts) ob =
     (let (ok, b) = bucket_step rl now ob in ok # bucket_run rl ts (Some b))"

definition decisions_of :: "string \<Rightarrow> (time \<times> string) list \<Rightarrow> bool list \<Rightarrow> bool list" where
  "decisions_of k reqs oks = map snd (filter (\<lambda>(r, ok). snd r = k) (zip reqs oks))"

definition times_of :: "string \<Rightarrow> (time \<times> string) list \<Rightarrow> time list" where
  "times_of k reqs = map fst (filter (\<lambda>r. snd r = k) reqs)"

text \<open>The counter advanced and, on every \<open>purgeEvr\<close>-th request, the full buckets dropped.\<close>

definition rl_tick :: "time \<Rightarrow> rateLimiter \<Rightarrow> rateLimiter" where
  "rl_tick now rl =
     (let rl1 = rl\<lparr>rl_ops := rl_ops rl + 1\<rparr> in
      if rl_ops rl1 mod purgeEvr rl1 = 0 then rl_purge now rl1 else rl1)"

lemma Allow_step:
  "Allow now key rl =
     (let rl2 = rl_tick now rl; (ok, b) = bucket_step rl2 now (gm_get (rl_buckets rl2) key) in
      (ok, rl2\<lparr>rl_buckets := gm_put key b (rl_buckets rl2)\<rparr>))"
  by (simp add: Allow_def bucket_step_def rl_tick_def Let_def)

lemma refill_config:
  "rl_rate rl' = rl_rate rl \<Longrightarrow> rl_burst rl' = rl_burst rl \<Longrightarrow> bucket_step rl' = bucket_step rl"
  by (simp add: bucket_step_def refill_def refilled_def Let_def fun_eq_iff cong: if_cong split: option.splits)

lemma map_of_filter_distinct:
  "distinct (map fst xs) \<Longrightarrow>
   map_of (filter (\<lambda>(k, v). P v) xs) k =
     (case map_of xs k of None \<Rightarrow> None | Some v \<Rightarrow> if P v then Some v else None)"
  by (induction xs) (auto split: option.splits dest: map_of_SomeD simp: image_iff)

lemma rl_tick_frame:
  "rl_rate (rl_tick now rl) = rl_rate rl" "rl_burst (rl_tick now rl) = rl_burst rl"
  by (simp_all add: rl_tick_def rl_purge_def Let_def)

lemma rl_ok_bucket: "rl_ok B now rl \<Longrightarrow> gm_get (rl_buckets rl) k = Some b \<Longrightarrow> bucket_ok B now b"
  by (auto simp: rl_ok_def dest!: map_of_SomeD)

lemma rl_ok_later: "rl_ok B now rl \<Longrightarrow> now \<le> now' \<Longrightarrow> rl_ok B now' rl"
  by (fastforce simp: rl_ok_def bucket_ok_def)

lemma rl_tick_ok: "rl_ok B now rl \<Longrightarrow> rl_ok B now (rl_tick now rl)"
  by (auto simp: rl_ok_def rl_tick_def rl_purge_def Let_def gm_ok_def distinct_map_filter)

text \<open>
  \<open>covers rl now k ob\<close>: the limiter's bucket of \<open>k\<close> is \<open>ob\<close>, or it was purged while
  \<open>ob\<close> is full.
\<close>

definition covers :: "int \<Rightarrow> rateLimiter \<Rightarrow> time \<Rightarrow> string \<Rightarrow> bucket option \<Rightarrow> bool" where
  "covers B rl now k ob \<longleftrightarrow> gm_get (rl_buckets rl) k = ob \<or>
     (gm_get (rl_buckets rl) k = None \<and>
      (\<exists>b. ob = Some b \<and> bucket_ok B now b \<and> (\<forall>now' \<ge> now. refill rl now' ob = refill rl now' None)))"

lemma covers_step:
  assumes "covers B rl now k ob" and "now \<le> now'"
  shows "bucket_step rl now' (gm_get (rl_buckets rl) k) = bucket_step rl now' ob"
  using assms by (auto simp: covers_def bucket_step_def)

lemma refill_frame:
  "rl_rate rl' = rl_rate rl \<Longrightarrow> rl_burst rl' = rl_burst rl \<Longrightarrow> refill rl' = refill rl"
  by (simp add: refill_def refilled_def Let_def fun_eq_iff cong: if_cong split: option.splits)

lemma covers_tick:
  assumes ok: "rl_ok B now rl" and cov: "covers B rl now k ob" and now: "now \<le> now'"
  shows "covers B (rl_tick now' rl) now' k ob"
proof -
  have ok': "rl_ok B now' rl" using ok now by (rule rl_ok_later)
  have fr: "refill (rl_tick now' rl) = refill rl" by (rule refill_frame) (simp_all add: rl_tick_frame)
  have get: "gm_get (rl_buckets (rl_tick now' rl)) k = gm_get (rl_buckets rl) k \<or>
      (gm_get (rl_buckets (rl_tick now' rl)) k = None \<and>
       (\<exists>b. gm_get (rl_buckets rl) k = Some b \<and> f_ge (refilled rl now' b) (rl_burst rl)))"
    using ok by (auto simp: rl_tick_def rl_purge_def Let_def map_of_filter_distinct rl_ok_def gm_ok_def
        refilled_def split: option.splits)
  show ?thesis
  proof (cases "gm_get (rl_buckets rl) k = ob")
    case True
    have "\<forall>t\<ge>now'. refill rl t (Some b) = refill rl t None" "bucket_ok B now' b"
      if "gm_get (rl_buckets rl) k = Some b" "f_ge (refilled rl now' b) (rl_burst rl)" for b
      using that refill_full [OF ok'] rl_ok_bucket [OF ok'] by auto
    with get True show ?thesis unfolding covers_def fr by auto
  next
    case False
    with cov get now show ?thesis unfolding covers_def fr by (auto simp: bucket_ok_def)
  qed
qed

lemma Allow_covers:
  assumes ok: "rl_ok B now rl" and cov: "covers B rl now k ob" and now: "now \<le> now'"
    and al: "Allow now' key rl = (d, rl')"
  shows "rl_ok B now' rl'" and "rl_rate rl' = rl_rate rl" and "rl_burst rl' = rl_burst rl"
    and "key \<noteq> k \<Longrightarrow> covers B rl' now' k ob"
    and "key = k \<Longrightarrow> d = fst (bucket_step rl now' ob) \<and>
           covers B rl' now' k (Some (snd (bucket_step rl now' ob)))"
proof -
  let ?t = "rl_tick now' rl"
  have ok': "rl_ok B now' ?t" using ok now by (intro rl_tick_ok) (rule rl_ok_later)
  obtain b where st: "bucket_step ?t now' (gm_get (rl_buckets ?t) key) = (d, b)"
    and rl': "rl' = ?t\<lparr>rl_buckets := gm_put key b (rl_buckets ?t)\<rparr>"
    using al by (auto simp: Allow_step Let_def split: prod.splits)
  have "bucket_ok B now' b"
    using bucket_step_ok [OF ok', of "gm_get (rl_buckets ?t) key"] rl_ok_bucket [OF ok'] st by auto
  then show "rl_ok B now' rl'"
    using ok' set_gm_put [of key b "rl_buckets ?t"] unfolding rl' rl_ok_def gm_ok_def
    by (auto simp: distinct_update)
  show "rl_rate rl' = rl_rate rl" "rl_burst rl' = rl_burst rl" by (simp_all add: rl' rl_tick_frame)
  have fr: "refill rl' = refill ?t" by (rule refill_frame) (simp_all add: rl')
  have c: "covers B ?t now' k ob" using ok cov now by (rule covers_tick)
  show "covers B rl' now' k ob" if "key \<noteq> k"
    using c that unfolding covers_def fr by (auto simp: rl' gomap_simps)
  have "bucket_step ?t = bucket_step rl" by (rule refill_config) (simp_all add: rl_tick_frame)
  then show "d = fst (bucket_step rl now' ob) \<and> covers B rl' now' k (Some (snd (bucket_step rl now' ob)))"
    if "key = k"
    using covers_step [OF c order_refl] st that by (simp add: covers_def rl' gomap_simps)
qed

lemma allow_run_covers:
  "rl_ok B now rl \<Longrightarrow> covers B rl now k ob \<Longrightarrow> sorted (now # map fst reqs) \<Longrightarrow>
   decisions_of k reqs (fst (allow_run reqs rl)) = bucket_run rl (times_of k reqs) ob"
proof (induction reqs arbitrary: now rl ob)
  case Nil
  then show ?case by (simp add: decisions_of_def times_of_def)
next
  case (Cons req reqs)
  obtain t key where req: "req = (t, key)" by fastforce
  obtain d rl' where al: "Allow t key rl = (d, rl')" by fastforce
  have tm: "now \<le> t" "sorted (t # map fst reqs)" using Cons.prems(3) by (auto simp: req)
  note c = Allow_covers [OF Cons.prems(1,2) tm(1) al]
  have st: "bucket_step rl' = bucket_step rl" by (rule refill_config) (use c in auto)
  have cfg: "bucket_run rl' ts o' = bucket_run rl ts o'" for ts o'
    by (induction ts arbitrary: o') (auto simp: st split: prod.splits)
  show ?case
  proof (cases "key = k")
    case True
    with Cons.IH [OF c(1) _ tm(2)] c(5) cfg show ?thesis
      by (simp add: req al [unfolded True] decisions_of_def times_of_def case_prod_beta)
  next
    case False
    with Cons.IH [OF c(1) _ tm(2)] c(4) cfg show ?thesis
      by (simp add: req al decisions_of_def times_of_def case_prod_beta)
  qed
qed

text \<open>C12: Rate limiting isolates clients and purging is unobservable: over any run of requests with
  a clock that does not go back, the decisions \<^verbatim>\<open>Allow\<close> gives to one key are exactly
  those a token bucket of its own would give at that key's request times, whatever the other keys
  ask and whenever the limiter drops full buckets.\<close>

theorem Allow_isolated:
  assumes "rl_ok B now rl" and "sorted (now # map fst reqs)"
  shows "decisions_of k reqs (fst (allow_run reqs rl)) =
         bucket_run rl (times_of k reqs) (gm_get (rl_buckets rl) k)"
  using assms(1) _ assms(2) by (rule allow_run_covers) (simp add: covers_def)

lemma f64_of_rat_01 [simp]: "f64_of_rat 0 = Fin 0" "f64_of_rat 1 = Fin 1"
  using f64_of_rat_small [of 0 1] f64_of_rat_small [of 1 1] f64r.rnd_int [of 1] f64r.rnd_0 by simp_all

theorem Allow_isolated_witness:
  "decisions_of ''a'' [(0, ''a''), (0, ''b''), (0, ''a'')]
     (fst (allow_run [(0, ''a''), (0, ''b''), (0, ''a'')] (newRateLimiter (Fin 0) 1))) = [True, False]"
proof -
  have "rl_ok 1 0 (newRateLimiter (Fin 0) 1)" using newRateLimiter_ok [of 0 1 0] by simp
  from Allow_isolated [OF this, of "[(0, ''a''), (0, ''b''), (0, ''a'')]" "''a''"] show ?thesis
    by (simp add: times_of_def newRateLimiter_def bucket_step_def refill_def refilled_def time_Sub_def
        fsub_def)
qed

lemma bucket_run_level:
  assumes "rl_ok B now rl" and "int j \<le> B"
  shows "bucket_run rl (replicate n now) (Some \<lparr>tokens = Fin (of_nat j), last_refill = now\<rparr>) =
         replicate (min n j) True @ replicate (n - j) False"
  using assms(2)
proof (induction n arbitrary: j)
  case (Suc n)
  obtain r where r: "rl_rate rl = Fin r" "rl_burst rl = Fin (of_int B)" and B: "1 \<le> B" "B \<le> 2 ^ 53"
    using assms(1) by (auto simp: rl_ok_def)
  have ex: "f64_of_rat (of_nat i) = Fin (of_nat i)" if "int i \<le> B" for i
    using that B f64_of_rat_small [of "of_nat i" "int i"] f64r.rnd_int [of "int i"] by simp
  have rf: "refill rl now (Some \<lparr>tokens = Fin (of_nat j), last_refill = now\<rparr>) =
            \<lparr>tokens = Fin (of_nat j), last_refill = now\<rparr>"
    using Suc.prems r ex [OF Suc.prems]
    by (simp add: refill_def refilled_def time_Sub_def)
  show ?case
  proof (cases j)
    case 0
    with rf Suc.IH [of 0] B show ?thesis by (simp add: bucket_step_def)
  next
    case (Suc i)
    have "fsub (Fin (of_nat j)) (Fin 1) = Fin (of_nat i)"
      using ex [of i] Suc Suc.prems by (simp add: fsub_def)
    with rf Suc.IH [of i] Suc Suc.prems show ?thesis by (simp add: bucket_step_def)
  qed
qed simp

lemma bucket_run_fresh:
  assumes "rl_ok B now rl"
  shows "bucket_run rl (replicate n now) None = replicate (min n (nat B)) True @ replicate (n - nat B) False"
proof -
  let ?b = "\<lparr>tokens = Fin (of_nat (nat B)), last_refill = now\<rparr>"
  have B: "1 \<le> B" "rl_burst rl = Fin (of_int B)" using assms by (auto simp: rl_ok_def)
  then have "refill rl now None = ?b" by (simp add: refill_def)
  moreover have "bucket_ok B now ?b" using B by (simp add: bucket_ok_def level_ok_def)
  then have "refilled rl now ?b = Fin (of_nat (nat B))"
  proof -
    obtain r where "rl_rate rl = Fin r" using assms by (auto simp: rl_ok_def)
    then show ?thesis
      using B assms f64_of_rat_small [of "of_int B" B] f64r.rnd_int [of B]
      by (simp add: refilled_def time_Sub_def rl_ok_def)
  qed
  then have "refill rl now (Some ?b) = ?b" using B by (simp add: refill_def)
  ultimately have "bucket_step rl now None = bucket_step rl now (Some ?b)" by (simp add: bucket_step_def)
  then have "bucket_run rl (replicate n now) None = bucket_run rl (replicate n now) (Some ?b)"
    by (cases n) simp_all
  then show ?thesis using bucket_run_level [OF assms, of "nat B" n] B(1) by simp
qed

text \<open>The burst is exact. Among requests of any clients that arrive at one instant, a client with
  no bucket yet has its first \<open>B\<close> requests allowed and every later one refused, where \<open>B\<close> is the
  configured burst raised to at least 1.\<close>

lemma burst_exact:
  assumes "0 \<le> r" and "b \<le> 2 ^ 53"
  shows "decisions_of k (map (Pair now) ks) (fst (allow_run (map (Pair now) ks) (newRateLimiter (Fin r) b))) =
         (let n = length (filter ((=) k) ks); B = nat (max 1 b) in
          replicate (min n B) True @ replicate (n - B) False)"
proof -
  let ?rl = "newRateLimiter (Fin r) b" and ?reqs = "map (Pair now) ks"
  have ok: "rl_ok (max 1 b) now ?rl" using assms by (rule newRateLimiter_ok)
  have "sorted (now # map fst ?reqs)" by (simp add: comp_def map_replicate_const)
  moreover have "covers (max 1 b) ?rl now k None" by (simp add: covers_def newRateLimiter_def Let_def)
  ultimately have "decisions_of k ?reqs (fst (allow_run ?reqs ?rl)) = bucket_run ?rl (times_of k ?reqs) None"
    using allow_run_covers [OF ok] by blast
  moreover have "times_of k ?reqs = replicate (length (filter ((=) k) ks)) now"
    by (induction ks) (auto simp: times_of_def)
  ultimately show ?thesis using bucket_run_fresh [OF ok] by (simp add: Let_def)
qed

lemma burst_exact_example:
  "decisions_of ''a'' (map (Pair 7) [''a'', ''b'', ''a'', ''a''])
     (fst (allow_run (map (Pair 7) [''a'', ''b'', ''a'', ''a'']) (newRateLimiter (Fin 5) 2))) =
   [True, True, False]"
  using burst_exact [of 5 2 "''a''" 7 "[''a'', ''b'', ''a'', ''a'']"]
  by (simp add: numeral_eq_Suc Let_def del: allow_run.simps)

end
