(* ===== verification/Go_Strconv.thy ===== *)
theory Go_Strconv
  imports Go_Duration
begin

text \<open>
  What \<^verbatim>\<open>src/main.go\<close> and \<^verbatim>\<open>src/config.go\<close> use of
  \<^verbatim>\<open>strconv\<close>: \<^verbatim>\<open>ParseBool\<close>, \<^verbatim>\<open>ParseInt(s, 10, 64)\<close>
  (and \<^verbatim>\<open>Atoi\<close>, the same function on a 64-bit platform) and \<^verbatim>\<open>ParseFloat\<close>.
  A parser that reports an error also returns a value, which some callers use: 0 after a syntax
  error, the nearest bound after a range error.
\<close>

definition ParseBool :: "string \<Rightarrow> bool option" where
  "ParseBool s =
     (if s \<in> set [''1'', ''t'', ''T'', ''TRUE'', ''true'', ''True''] then Some True
      else if s \<in> set [''0'', ''f'', ''F'', ''FALSE'', ''false'', ''False''] then Some False
      else None)"

definition digits_val :: "string \<Rightarrow> int" where
  "digits_val s = foldl (\<lambda>x c. x * 10 + int (digit_val c)) 0 s"

text \<open>The sign and the rest of a numeral.\<close>

definition split_sign :: "string \<Rightarrow> bool \<times> string" where
  "split_sign s =
     (case s of [] \<Rightarrow> (False, [])
      | c # cs \<Rightarrow> if c = CHR ''-'' then (True, cs) else if c = CHR ''+'' then (False, cs) else (False, s))"

definition ParseInt :: "string \<Rightarrow> int \<times> bool" where
  "ParseInt s =
     (let (neg, ds) = split_sign s in
      if ds = [] \<or> \<not> list_all is_digit ds then (0, False)
      else let v = (if neg then - digits_val ds else digits_val ds) in
        if v > max_duration then (max_duration, False)
        else if v < min_duration then (min_duration, False)
        else (v, True))"

abbreviation Atoi :: "string \<Rightarrow> int \<times> bool" where
  "Atoi \<equiv> ParseInt"

lemma ParseInt_bounds: "min_duration \<le> fst (ParseInt s) \<and> fst (ParseInt s) \<le> max_duration"
  by (auto simp: ParseInt_def Let_def split: prod.splits)

subsection \<open>ParseFloat\<close>

definition lower :: "char \<Rightarrow> char" where
  "lower c = (if 65 \<le> byte c \<and> byte c \<le> 90 then char_of (byte c + 32) else c)"

definition hex_digit_val :: "char \<Rightarrow> nat option" where
  "hex_digit_val c =
     (if is_digit c then Some (digit_val c)
      else if 97 \<le> byte (lower c) \<and> byte (lower c) \<le> 102 then Some (byte (lower c) - 87) else None)"

definition float_digit :: "bool \<Rightarrow> char \<Rightarrow> nat option" where
  "float_digit hex c = (if hex then hex_digit_val c else if is_digit c then Some (digit_val c) else None)"

text \<open>The mantissa: its digits as a natural number, how many of them follow the point, whether
  there was a point and a digit, and what is left of the input. Underscores are skipped.\<close>

fun read_mantissa :: "bool \<Rightarrow> nat \<Rightarrow> nat \<Rightarrow> bool \<Rightarrow> bool \<Rightarrow> string \<Rightarrow> nat \<times> nat \<times> bool \<times> string" where
  "read_mantissa hex m fr dot digs [] = (m, fr, digs, [])"
| "read_mantissa hex m fr dot digs (c # s) =
     (if c = CHR ''_'' then read_mantissa hex m fr dot digs s
      else if c = CHR ''.'' then
        (if dot then (m, fr, digs, c # s) else read_mantissa hex m fr True digs s)
      else case float_digit hex c of
        Some d \<Rightarrow> read_mantissa hex (m * (if hex then 16 else 10) + d) (if dot then fr + 1 else fr) dot True s
      | None \<Rightarrow> (m, fr, digs, c # s))"

text \<open>The exponent digits, saturated once 10000 is reached.\<close>

fun read_exponent :: "int \<Rightarrow> string \<Rightarrow> int \<times> string" where
  "read_exponent e [] = (e, [])"
| "read_exponent e (c # s) =
     (if c = CHR ''_'' then read_exponent e s
      else if is_digit c then read_exponent (if e < 10000 then e * 10 + int (digit_val c) else e) s
      else (e, c # s))"

text \<open>Underscores stand between digits, one may follow a base prefix. The state is the kind of the
  previous character: \<open>0\<close> a digit, \<open>1\<close> an underscore, \<open>2\<close> anything else.\<close>

fun underscores_ok :: "bool \<Rightarrow> nat \<Rightarrow> string \<Rightarrow> bool" where
  "underscores_ok hex p [] = (p \<noteq> 1)"
| "underscores_ok hex p (c # s) =
     (if is_digit c \<or> hex \<and> hex_digit_val c \<noteq> None then underscores_ok hex 0 s
      else if c = CHR ''_'' then p = 0 \<and> underscores_ok hex 1 s
      else p \<noteq> 1 \<and> underscores_ok hex 2 s)"

definition underscoreOK :: "string \<Rightarrow> bool" where
  "underscoreOK s =
     (let s1 = snd (split_sign s) in
      if 2 \<le> length s1 \<and> hd s1 = CHR ''0'' \<and> lower (s1 ! 1) \<in> set ''box''
      then underscores_ok (lower (s1 ! 1) = CHR ''x'') 0 (drop 2 s1)
      else underscores_ok False 2 s1)"

text \<open>The exact value of a numeral, \<open>None\<close> when it is not one. A hexadecimal numeral has to have
  a binary exponent.\<close>

definition read_float :: "string \<Rightarrow> rat option" where
  "read_float s =
     (let (neg, s1) = split_sign s;
          hex = (2 < length s1 \<and> hd s1 = CHR ''0'' \<and> lower (s1 ! 1) = CHR ''x'');
          (m, fr, digs, s2) = read_mantissa hex 0 0 False False (if hex then drop 2 s1 else s1);
          expo = (case s2 of
                    [] \<Rightarrow> if hex then None else Some (0, [])
                  | c # s3 \<Rightarrow>
                      if lower c = (if hex then CHR ''p'' else CHR ''e'') then
                        (let (eneg, s4) = split_sign s3 in
                         if s4 = [] \<or> \<not> is_digit (hd s4) then None
                         else let (e, s5) = read_exponent 0 s4 in Some (if eneg then - e else e, s5))
                      else None) in
      if \<not> digs then None
      else case expo of
        Some (e, []) \<Rightarrow>
          if CHR ''_'' \<in> set s \<and> \<not> underscoreOK s then None
          else let v = (if hex then of_nat m * 2 powi (e - 4 * int fr) else of_nat m * 10 powi (e - int fr))
               in Some (if neg then - v else v)
      | _ \<Rightarrow> None)"

text \<open>The value \<^verbatim>\<open>ParseFloat(s, 64)\<close> returns, with its error dropped as in
  \<^verbatim>\<open>main\<close>: zero on a syntax error, an infinity on overflow. Negative zero is
  not told apart from zero.\<close>

definition ParseFloat :: "string \<Rightarrow> f64" where
  "ParseFloat s =
     (let (neg, s1) = split_sign s in
      if map lower s1 = ''inf'' \<or> map lower s1 = ''infinity'' then (if neg then NInf else PInf)
      else if map lower s = ''nan'' then NaN
      else case read_float s of None \<Rightarrow> Fin 0 | Some x \<Rightarrow> f64_of_rat x)"

end
