(* ===== verification/Const.thy ===== *)
theory Const
  imports Main
begin

text \<open>
  \<^verbatim>\<open>src/const.go\<close>: the constants that decide something, the names of the engines, of the
  environment variables, of the query parameters, routes and headers. The error texts that are values
  stand with the components that return them. The templates of log lines are left out.
\<close>

text \<open>The panic of \<^verbatim>\<open>Start\<close> on a number of workers that cannot be parsed.\<close>

definition WS_WORKERS_NOT_FOUND :: string where [simp]:
  "WS_WORKERS_NOT_FOUND = ''Can not parse WS_WORKERS! The value has to be an integer.''"

text \<open>Engine names.\<close>

definition DEFAULT :: string where [simp]: "DEFAULT = ''default''"
definition MEMORY :: string where [simp]: "MEMORY = ''memory''"
definition REDIS :: string where [simp]: "REDIS = ''redis''"
definition DUMMY :: string where [simp]: "DUMMY = ''dummy''"
definition PROXY :: string where [simp]: "PROXY = ''proxy''"

text \<open>Environment variables.\<close>

definition WS_WORKERS :: string where [simp]: "WS_WORKERS = ''WS_WORKERS''"
definition WS_VERBOSE :: string where [simp]: "WS_VERBOSE = ''WS_VERBOSE''"
definition WS_LOG_FORMAT :: string where [simp]: "WS_LOG_FORMAT = ''WS_LOG_FORMAT''"
definition WS_HOST :: string where [simp]: "WS_HOST = ''WS_HOST''"
definition WS_PORT :: string where [simp]: "WS_PORT = ''WS_PORT''"
definition WS_MSG_EXPIRE :: string where [simp]: "WS_MSG_EXPIRE = ''WS_MSG_EXPIRE''"
definition WS_AUTHORIZER :: string where [simp]: "WS_AUTHORIZER = ''WS_AUTHORIZER''"
definition WS_STORAGE :: string where [simp]: "WS_STORAGE = ''WS_STORAGE''"
definition WS_LOGIN :: string where [simp]: "WS_LOGIN = ''WS_LOGIN''"
definition WS_PASSWORD :: string where [simp]: "WS_PASSWORD = ''WS_PASSWORD''"
definition WS_AUTH_URL :: string where [simp]: "WS_AUTH_URL = ''WS_AUTH_URL''"
definition WS_INSECURE_NO_AUTH :: string where [simp]: "WS_INSECURE_NO_AUTH = ''WS_INSECURE_NO_AUTH''"
definition WS_AUTH_TIMEOUT :: string where [simp]: "WS_AUTH_TIMEOUT = ''WS_AUTH_TIMEOUT''"
definition WS_AUTH_CACHE_TTL :: string where [simp]: "WS_AUTH_CACHE_TTL = ''WS_AUTH_CACHE_TTL''"
definition WS_SWEEP_INTERVAL :: string where [simp]: "WS_SWEEP_INTERVAL = ''WS_SWEEP_INTERVAL''"
definition WS_PING_INTERVAL :: string where [simp]: "WS_PING_INTERVAL = ''WS_PING_INTERVAL''"
definition WS_READ_TIMEOUT :: string where [simp]: "WS_READ_TIMEOUT = ''WS_READ_TIMEOUT''"
definition WS_WRITE_TIMEOUT :: string where [simp]: "WS_WRITE_TIMEOUT = ''WS_WRITE_TIMEOUT''"
definition WS_RECONCILE_INTERVAL :: string where [simp]: "WS_RECONCILE_INTERVAL = ''WS_RECONCILE_INTERVAL''"
definition WS_HISTORY_SIZE :: string where [simp]: "WS_HISTORY_SIZE = ''WS_HISTORY_SIZE''"
definition WS_HISTORY_TTL :: string where [simp]: "WS_HISTORY_TTL = ''WS_HISTORY_TTL''"
definition WS_REDIS_URL :: string where [simp]: "WS_REDIS_URL = ''WS_REDIS_URL''"
definition WS_REDIS_KEY_TTL :: string where [simp]: "WS_REDIS_KEY_TTL = ''WS_REDIS_KEY_TTL''"
definition WS_TLS_CERT :: string where [simp]: "WS_TLS_CERT = ''WS_TLS_CERT''"
definition WS_TLS_KEY :: string where [simp]: "WS_TLS_KEY = ''WS_TLS_KEY''"
definition WS_ALLOWED_ORIGINS :: string where [simp]: "WS_ALLOWED_ORIGINS = ''WS_ALLOWED_ORIGINS''"
definition WS_MAX_MESSAGE_SIZE :: string where [simp]: "WS_MAX_MESSAGE_SIZE = ''WS_MAX_MESSAGE_SIZE''"
definition WS_COMPRESS :: string where [simp]: "WS_COMPRESS = ''WS_COMPRESS''"
definition WS_CONFIG :: string where [simp]: "WS_CONFIG = ''WS_CONFIG''"
definition WS_RATE_LIMIT :: string where [simp]: "WS_RATE_LIMIT = ''WS_RATE_LIMIT''"
definition WS_RATE_BURST :: string where [simp]: "WS_RATE_BURST = ''WS_RATE_BURST''"
definition WS_TRUST_PROXY_HEADERS :: string where [simp]: "WS_TRUST_PROXY_HEADERS = ''WS_TRUST_PROXY_HEADERS''"

text \<open>Query parameters.\<close>

definition KEY :: string where [simp]: "KEY = ''key''"
definition ID :: string where [simp]: "ID = ''id''"
definition PRESENCE :: string where [simp]: "PRESENCE = ''presence''"
definition HISTORY :: string where [simp]: "HISTORY = ''history''"

text \<open>Routes.\<close>

definition ROOT :: string where [simp]: "ROOT = ''/''"
definition WS :: string where [simp]: "WS = ''/ws''"
definition WS_slash :: string where [simp]: "WS_slash = ''/ws/''"
definition HEALTHZ :: string where [simp]: "HEALTHZ = ''/healthz''"
definition READYZ :: string where [simp]: "READYZ = ''/readyz''"
definition METRICS :: string where [simp]: "METRICS = ''/metrics''"
definition VERSION :: string where [simp]: "VERSION = ''/version''"

text \<open>Headers.\<close>

definition APPLICATION_JSON :: string where [simp]: "APPLICATION_JSON = ''application/json''"
definition ORIGIN :: string where [simp]: "ORIGIN = ''Origin''"

end
