(* ===== verification/Config.thy ===== *)
theory Config
  imports Go_Strconv Const
begin

text \<open>
  Start-up configuration (\<^verbatim>\<open>src/config.go\<close> and the first half of
  \<^verbatim>\<open>src/main.go\<close>): command-line flags over a YAML file over the environment over
  built-in defaults, and the conversion of the flag strings into a \<^verbatim>\<open>Config\<close>.
  The environment, the command line and what the YAML library reads from a path are arguments;
  Go's \<^verbatim>\<open>int\<close> is 64 bits wide and kept as an \<^typ>\<open>int\<close> in that range.
\<close>

record Config =
  Host :: string
  Port :: string
  Workers :: int
  DefaultExpire :: string
  Verbose :: bool
  LogJSON :: bool
  Login :: string
  Password :: string
  InsecureNoAuth :: bool
  StorageEngine :: string
  AuthorizerEngine :: string
  AuthURL :: string
  AuthTimeout :: duration
  AuthCacheTTL :: duration
  RedisURL :: string
  RedisKeyTTL :: duration
  SweepInterval :: duration
  PingInterval :: duration
  ReadTimeout :: duration
  WriteTimeout :: duration
  HistorySize :: int
  HistoryTTL :: duration
  ReconcileInterval :: duration
  MaxMessageBytes :: int
  RateLimit :: f64
  RateBurst :: int
  TrustProxyHeaders :: bool
  TLSCert :: string
  TLSKey :: string
  Compression :: bool
  AllowedOrigins :: "string list"

definition originAllowed :: "Config \<Rightarrow> string \<Rightarrow> bool" where
  "originAllowed c origin =
     (if origin = [] \<or> AllowedOrigins c = [] then True
      else list_ex (\<lambda>a. a = ''*'' \<or> a = origin) (AllowedOrigins c))"

definition tlsEnabled :: "Config \<Rightarrow> bool" where
  "tlsEnabled c = (TLSCert c \<noteq> [] \<and> TLSKey c \<noteq> [])"

definition parseDurationOr :: "string \<Rightarrow> duration \<Rightarrow> duration" where
  "parseDurationOr s def =
     (case ParseDuration s of None \<Rightarrow> def | Some d \<Rightarrow> if d \<le> 0 then def else d)"

definition parseBool :: "string \<Rightarrow> bool" where
  "parseBool s = (case ParseBool s of None \<Rightarrow> False | Some b \<Rightarrow> b)"

subsection \<open>Flags\<close>

type_synonym env = "string \<rightharpoonup> string"

definition envOr :: "env \<Rightarrow> string \<Rightarrow> string \<Rightarrow> string" where
  "envOr env name def = (case env name of Some v \<Rightarrow> v | None \<Rightarrow> def)"

text \<open>The flags with their environment variable and default. \<^verbatim>\<open>os.Getenv\<close> of an unset
  variable is the empty string, as \<^verbatim>\<open>envOr\<close> with an empty default. The boolean
  flag \<^verbatim>\<open>healthcheck\<close> has no variable.\<close>

definition flag_table :: "(string \<times> string \<times> string) list" where
  "flag_table =
    [(''host'', WS_HOST, ''0.0.0.0''), (''port'', WS_PORT, ''7890''),
     (''workers'', WS_WORKERS, ''1024''), (''expire'', WS_MSG_EXPIRE, ''30m''),
     (''login'', WS_LOGIN, ''''), (''password'', WS_PASSWORD, ''''),
     (''auth'', WS_AUTH_URL, ''''), (''verbose'', WS_VERBOSE, ''false''),
     (''log-format'', WS_LOG_FORMAT, ''text''), (''storage'', WS_STORAGE, DEFAULT),
     (''authorizer'', WS_AUTHORIZER, DEFAULT),
     (''insecure-no-auth'', WS_INSECURE_NO_AUTH, ''false''),
     (''auth-timeout'', WS_AUTH_TIMEOUT, ''10s''),
     (''auth-cache-ttl'', WS_AUTH_CACHE_TTL, ''0''),
     (''sweep-interval'', WS_SWEEP_INTERVAL, ''1m''),
     (''ping-interval'', WS_PING_INTERVAL, ''30s''),
     (''read-timeout'', WS_READ_TIMEOUT, ''70s''),
     (''write-timeout'', WS_WRITE_TIMEOUT, ''10s''),
     (''reconcile-interval'', WS_RECONCILE_INTERVAL, ''0''),
     (''history-size'', WS_HISTORY_SIZE, ''0''), (''history-ttl'', WS_HISTORY_TTL, ''1h''),
     (''redis-url'', WS_REDIS_URL, ''redis://localhost:6379/0''),
     (''redis-key-ttl'', WS_REDIS_KEY_TTL, ''24h''), (''tls-cert'', WS_TLS_CERT, ''''),
     (''tls-key'', WS_TLS_KEY, ''''), (''allowed-origins'', WS_ALLOWED_ORIGINS, ''''),
     (''max-message-size'', WS_MAX_MESSAGE_SIZE, ''1048576''),
     (''compress'', WS_COMPRESS, ''false''), (''rate-limit'', WS_RATE_LIMIT, ''0''),
     (''rate-burst'', WS_RATE_BURST, ''0''),
     (''trust-proxy-headers'', WS_TRUST_PROXY_HEADERS, ''false''), (''config'', WS_CONFIG, '''')]"

definition bool_flag :: string where
  "bool_flag = ''healthcheck''"

definition flag_defaults :: "env \<Rightarrow> (string \<times> string) list" where
  "flag_defaults env =
     map (\<lambda>(name, var, def). (name, envOr env var def)) flag_table @ [(bool_flag, ''false'')]"

text \<open>\<^verbatim>\<open>Value.Set\<close>: a string flag takes the text, the boolean flag is false after
  an unparseable one.\<close>

definition flag_Set :: "string \<Rightarrow> string \<Rightarrow> string" where
  "flag_Set name v = (if name = bool_flag then (if parseBool v then ''true'' else ''false'') else v)"

text \<open>\<^verbatim>\<open>flag.Parse\<close>: the assignments of the command line in order, \<open>None\<close> when it
  prints usage and exits. The argument \<open>names\<close> lists the flags that were defined.\<close>

function flag_Parse :: "string list \<Rightarrow> string list \<Rightarrow> (string \<times> string) list option" where
  "flag_Parse names [] = Some []"
| "flag_Parse names (s # args) =
     (if length s < 2 \<or> hd s \<noteq> CHR ''-'' then Some []
      else if s = ''--'' then Some []
      else let nm = (if s ! 1 = CHR ''-'' then drop 2 s else drop 1 s) in
        if nm = [] \<or> hd nm = CHR ''-'' \<or> hd nm = CHR ''='' then None
        else let name = takeWhile (\<lambda>c. c \<noteq> CHR ''='') nm; hasValue = (CHR ''='' \<in> set nm);
                 val = tl (dropWhile (\<lambda>c. c \<noteq> CHR ''='') nm) in
          if name \<notin> set names then None
          else if name = bool_flag then
            (let v = (if hasValue then val else ''true'') in
             if ParseBool v = None then None
             else map_option (Cons (name, flag_Set name v)) (flag_Parse names args))
          else if hasValue then map_option (Cons (name, val)) (flag_Parse names args)
          else case args of [] \<Rightarrow> None
            | v # args' \<Rightarrow> map_option (Cons (name, v)) (flag_Parse names args'))"
  by pat_completeness auto
termination by (relation "measure (\<lambda>(names, args). length args)") auto

text \<open>Later assignments of one flag win.\<close>

definition set_flags :: "(string \<times> string) list \<Rightarrow> (string \<times> string) list \<Rightarrow> (string \<times> string) list" where
  "set_flags assigns flags =
     map (\<lambda>(n, v). (n, case map_of (rev assigns) n of None \<Rightarrow> v | Some v' \<Rightarrow> v')) flags"

subsection \<open>The configuration file\<close>

text \<open>A YAML value is either a list or anything else, with the text \<^verbatim>\<open>fmt.Sprint\<close>
  gives for it (for each element of a list).\<close>

datatype yaml_val = YList "string list" | YOther string

definition loadConfigFile :: "(string \<Rightarrow> error + (string \<times> yaml_val) list) \<Rightarrow> string \<Rightarrow>
    error + (string \<times> string) list" where
  "loadConfigFile yaml path =
     (case yaml path of
        Inl e \<Rightarrow> Inl e
      | Inr raw \<Rightarrow> Inr (map (\<lambda>(k, v). (k, case v of YList parts \<Rightarrow> Join CHR '','' parts | YOther t \<Rightarrow> t)) raw))"

definition applyConfigFile :: "(string \<Rightarrow> error + (string \<times> yaml_val) list) \<Rightarrow> string \<Rightarrow>
    string list \<Rightarrow> (string \<times> string) list \<Rightarrow> error + (string \<times> string) list" where
  "applyConfigFile yaml path explicit flags =
     (case loadConfigFile yaml path of
        Inl e \<Rightarrow> Inl e
      | Inr fileVals \<Rightarrow>
          Inr (map (\<lambda>(n, v). (n, if n \<in> set explicit then v
                                 else case map_of fileVals n of None \<Rightarrow> v | Some t \<Rightarrow> flag_Set n t)) flags))"

definition splitCSV :: "string \<Rightarrow> string list" where
  "splitCSV s = filter (\<lambda>p. p \<noteq> []) (map TrimSpace (Split CHR '','' s))"

text \<open>Whether \<^verbatim>\<open>validateConfig\<close> prints its warning.\<close>

definition validateConfig :: "Config \<Rightarrow> bool" where
  "validateConfig cfg = (ReadTimeout cfg \<le> PingInterval cfg)"

text \<open>The body of \<^verbatim>\<open>main\<close> between \<^verbatim>\<open>flag.Parse\<close> and
  \<^verbatim>\<open>validateConfig\<close>, on the flag values.\<close>

definition flag_get :: "(string \<times> string) list \<Rightarrow> string \<Rightarrow> string" where
  "flag_get flags n = (case map_of flags n of None \<Rightarrow> [] | Some v \<Rightarrow> v)"

definition maxMessage :: "string \<Rightarrow> int" where
  "maxMessage s = (let (v, ok) = ParseInt s in if \<not> ok \<or> v \<le> 0 then 1048576 else v)"

definition build_config :: "(string \<times> string) list \<Rightarrow> Config" where
  "build_config fl =
     \<lparr>Host = flag_get fl ''host'', Port = flag_get fl ''port'',
      Workers = fst (Atoi (flag_get fl ''workers'')), DefaultExpire = flag_get fl ''expire'',
      Verbose = parseBool (flag_get fl ''verbose''), LogJSON = (flag_get fl ''log-format'' = ''json''),
      Login = flag_get fl ''login'', Password = flag_get fl ''password'',
      InsecureNoAuth = parseBool (flag_get fl ''insecure-no-auth''),
      StorageEngine = flag_get fl ''storage'', AuthorizerEngine = flag_get fl ''authorizer'',
      AuthURL = flag_get fl ''auth'',
      AuthTimeout = parseDurationOr (flag_get fl ''auth-timeout'') (10 * second),
      AuthCacheTTL = parseDurationOr (flag_get fl ''auth-cache-ttl'') 0,
      RedisURL = flag_get fl ''redis-url'',
      RedisKeyTTL = parseDurationOr (flag_get fl ''redis-key-ttl'') 0,
      SweepInterval = parseDurationOr (flag_get fl ''sweep-interval'') minute,
      PingInterval = parseDurationOr (flag_get fl ''ping-interval'') (30 * second),
      ReadTimeout = parseDurationOr (flag_get fl ''read-timeout'') (70 * second),
      WriteTimeout = parseDurationOr (flag_get fl ''write-timeout'') (10 * second),
      HistorySize = fst (Atoi (flag_get fl ''history-size'')),
      HistoryTTL = parseDurationOr (flag_get fl ''history-ttl'') hour,
      ReconcileInterval = parseDurationOr (flag_get fl ''reconcile-interval'') 0,
      MaxMessageBytes = maxMessage (flag_get fl ''max-message-size''),
      RateLimit = ParseFloat (flag_get fl ''rate-limit''),
      RateBurst = fst (Atoi (flag_get fl ''rate-burst'')),
      TrustProxyHeaders = parseBool (flag_get fl ''trust-proxy-headers''),
      TLSCert = flag_get fl ''tls-cert'', TLSKey = flag_get fl ''tls-key'',
      Compression = parseBool (flag_get fl ''compress''),
      AllowedOrigins = splitCSV (flag_get fl ''allowed-origins'')\<rparr>"

text \<open>How \<^verbatim>\<open>main\<close> gets to \<^verbatim>\<open>app.Start\<close>, or does not: usage and
  exit, a fatal error of the file, the health probe of a port, a panic.\<close>

datatype startup = Usage | FatalExit error | Healthcheck string | StartPanic error | Run Config

definition main_startup ::
  "env \<Rightarrow> (string \<Rightarrow> error + (string \<times> yaml_val) list) \<Rightarrow> string list \<Rightarrow> startup" where
  "main_startup env yaml args =
     (let defs = flag_defaults env in
      case flag_Parse (map fst defs) args of
        None \<Rightarrow> Usage
      | Some assigns \<Rightarrow>
          (let fl0 = set_flags assigns defs; path = flag_get fl0 ''config'' in
           case (if path = [] then Inr fl0 else applyConfigFile yaml path (map fst assigns) fl0) of
             Inl e \<Rightarrow> FatalExit e
           | Inr fl \<Rightarrow>
               if flag_get fl bool_flag = ''true'' then Healthcheck (flag_get fl ''port'')
               else if flag_get fl ''auth'' = [] then StartPanic
                 (''You must set URL for authenticating incoming websocket requests. You may do that by '' @
                  ''setting WS_AUTH_URL environment variable or by running goctopus with --auth flag'')
               else if \<not> snd (Atoi (flag_get fl ''workers'')) then
                 StartPanic WS_WORKERS_NOT_FOUND
               else Run (build_config fl)))"

text \<open>The exit code of \<^verbatim>\<open>runHealthcheck\<close> from the outcome of its GET.\<close>

definition runHealthcheck :: "error + nat \<Rightarrow> int" where
  "runHealthcheck resp = (case resp of Inl e \<Rightarrow> 1 | Inr code \<Rightarrow> if code \<noteq> 200 then 1 else 0)"

subsection \<open>Precedence\<close>

lemma map_of_map_val: "map_of (map (\<lambda>(n, v). (n, f n v)) xs) k = map_option (f k) (map_of xs k)"
  by (induction xs) auto

lemma flag_names_distinct: "distinct (map fst (flag_defaults env))"
  by (simp add: flag_defaults_def flag_table_def bool_flag_def)

lemma flag_default:
  "(n, var, dflt) \<in> set flag_table \<Longrightarrow> map_of (flag_defaults env) n = Some (envOr env var dflt)"
  by (rule map_of_is_SomeI [OF flag_names_distinct]) (force simp: flag_defaults_def)

lemma flag_table_string: "(n, var, dflt) \<in> set flag_table \<Longrightarrow> n \<noteq> bool_flag"
  by (auto simp: flag_table_def bool_flag_def)

lemma set_flags_get: "map_of (set_flags assigns flags) n =
    map_option (\<lambda>v. case map_of (rev assigns) n of None \<Rightarrow> v | Some v' \<Rightarrow> v') (map_of flags n)"
  by (simp add: set_flags_def map_of_map_val)

lemma map_of_rev_mem: "n \<in> set (map fst xs) \<longleftrightarrow> (\<exists>v. map_of (rev xs) n = Some v)"
  using map_of_eq_None_iff [of "rev xs" n] by (cases "map_of (rev xs) n") auto

text \<open>C14: The documented precedence of configuration sources. For every string flag, after the
  command line and the configuration file have been applied, its value is the last one given on
  the command line; failing that the file's (a list joined with commas); failing that the
  environment variable's; failing that the built-in default.\<close>

theorem flag_precedence:
  assumes "(n, var, dflt) \<in> set flag_table" and "yaml path = Inr raw"
    and "applyConfigFile yaml path (map fst assigns) (set_flags assigns (flag_defaults env)) = Inr fl"
  shows "flag_get fl n =
     (case map_of (rev assigns) n of
        Some v \<Rightarrow> v
      | None \<Rightarrow> (case map_of raw n of
            Some (YList parts) \<Rightarrow> Join CHR '','' parts
          | Some (YOther t) \<Rightarrow> t
          | None \<Rightarrow> (case env var of Some v \<Rightarrow> v | None \<Rightarrow> dflt)))"
proof -
  let ?sprint = "\<lambda>v. case v of YList parts \<Rightarrow> Join CHR '','' parts | YOther t \<Rightarrow> t"
  have fv: "map_of (map (\<lambda>(k, v). (k, ?sprint v)) raw) n = map_option ?sprint (map_of raw n)"
    by (rule map_of_map_val)
  have fl: "fl = map (\<lambda>(n, v). (n, if n \<in> set (map fst assigns) then v
      else case map_of (map (\<lambda>(k, v). (k, ?sprint v)) raw) n of None \<Rightarrow> v | Some t \<Rightarrow> flag_Set n t))
        (set_flags assigns (flag_defaults env))"
    using assms(2,3) by (simp add: applyConfigFile_def loadConfigFile_def)
  have S: "flag_Set n t = t" for t using flag_table_string [OF assms(1)] by (simp add: flag_Set_def)
  show ?thesis
    unfolding flag_get_def fl map_of_map_val set_flags_get flag_default [OF assms(1)] fv map_of_rev_mem
    by (auto simp: S envOr_def split: option.splits yaml_val.splits)
qed

theorem flag_precedence_witness:
  "\<exists>fl. applyConfigFile (\<lambda>p. Inr [(''port'', YOther ''81''), (''host'', YOther ''h'')]) ''c.yml''
          (map fst [(''port'', ''80'')])
          (set_flags [(''port'', ''80'')] (flag_defaults [''WS_PORT'' \<mapsto> ''82'', ''WS_HOST'' \<mapsto> ''e''])) = Inr fl \<and>
        flag_get fl ''port'' = ''80'' \<and> flag_get fl ''host'' = ''h''"
proof -
  let ?y = "\<lambda>p. Inr [(''port'', YOther ''81''), (''host'', YOther ''h'')]"
  obtain fl where fl: "applyConfigFile ?y ''c.yml'' (map fst [(''port'', ''80'')])
      (set_flags [(''port'', ''80'')] (flag_defaults [''WS_PORT'' \<mapsto> ''82'', ''WS_HOST'' \<mapsto> ''e''])) = Inr fl"
    by (simp add: applyConfigFile_def loadConfigFile_def)
  have "(''port'', ''WS_PORT'', ''7890'') \<in> set flag_table" "(''host'', ''WS_HOST'', ''0.0.0.0'') \<in> set flag_table"
    by (simp_all add: flag_table_def)
  from this [THEN flag_precedence, OF refl fl] fl show ?thesis by simp
qed

subsection \<open>A configuration that starts is sane\<close>

lemma parseDurationOr_pos: "0 < dflt \<Longrightarrow> 0 < parseDurationOr s dflt"
  by (auto simp: parseDurationOr_def split: option.splits)

lemma parseDurationOr_nonneg: "0 \<le> parseDurationOr s 0"
  by (auto simp: parseDurationOr_def split: option.splits)

lemma maxMessage_bounds: "0 < maxMessage s \<and> maxMessage s \<le> max_duration"
  using ParseInt_bounds [of s] by (auto simp: maxMessage_def case_prod_beta Let_def)

lemma splitCSV_not_empty: "[] \<notin> set (splitCSV s)"
  by (auto simp: splitCSV_def)

text \<open>C15: Whatever the command line, file and environment hold, a configuration that reaches
  \<^verbatim>\<open>Start\<close> has strictly positive sweep, ping, read, write, auth and history
  times (the tickers built from them cannot panic), reconcile, cache and Redis times that are zero (which
  switches them off) or positive, a positive int64 message limit, a non-empty auth URL and no empty allowed
  origin. (Workers, history size, rate limit and burst are taken as they are; what reads them treats the
  other values as off, or panics at the start.)\<close>

theorem startup_config_sane:
  assumes "main_startup env yaml args = Run cfg"
  shows "0 < SweepInterval cfg \<and> 0 < PingInterval cfg \<and> 0 < ReadTimeout cfg \<and>
    0 < WriteTimeout cfg \<and> 0 < AuthTimeout cfg \<and> 0 < HistoryTTL cfg \<and>
    0 \<le> AuthCacheTTL cfg \<and> 0 \<le> RedisKeyTTL cfg \<and> 0 \<le> ReconcileInterval cfg \<and>
    0 < MaxMessageBytes cfg \<and> MaxMessageBytes cfg \<le> max_duration \<and>
    AuthURL cfg \<noteq> [] \<and> [] \<notin> set (AllowedOrigins cfg)"
proof -
  obtain fl where cfg: "cfg = build_config fl" and auth: "flag_get fl ''auth'' \<noteq> []"
    using assms by (auto simp: main_startup_def Let_def split: option.splits sum.splits if_splits)
  show ?thesis
    using auth maxMessage_bounds
    by (simp add: cfg build_config_def parseDurationOr_pos parseDurationOr_nonneg splitCSV_not_empty)
qed

theorem startup_config_sane_witness:
  "\<exists>cfg. main_startup (\<lambda>_. None) (\<lambda>_. Inl ''no file'') [''--auth=u'', ''-sweep-interval'', ''-5s''] = Run cfg \<and>
         0 < SweepInterval cfg"
proof -
  have "\<exists>cfg. main_startup (\<lambda>_. None) (\<lambda>_. Inl ''no file'') [''--auth=u'', ''-sweep-interval'', ''-5s''] = Run cfg"
    by (simp add: main_startup_def flag_defaults_def flag_table_def bool_flag_def envOr_def set_flags_def
        flag_get_def Let_def ParseInt_def split_sign_def is_digit_def digits_val_def digit_val_def)
  then show ?thesis using startup_config_sane by blast
qed

text \<open>C16: A list of allowed origins written in the configuration file is the list the server uses:
  joined with commas for the flag and split again, non-empty entries without commas and surrounding
  space come back in order, and a browser origin is then accepted exactly when it is listed (or the
  list has a star, or is empty).\<close>

theorem origins_roundtrip:
  assumes "\<forall>p \<in> set ps. p \<noteq> [] \<and> CHR '','' \<notin> set p \<and> TrimSpace p = p"
    and "flag_get fl ''allowed-origins'' = Join CHR '','' ps"
  shows "AllowedOrigins (build_config fl) = ps \<and>
         (originAllowed (build_config fl) origin \<longleftrightarrow>
            origin = [] \<or> ps = [] \<or> ''*'' \<in> set ps \<or> origin \<in> set ps)"
proof -
  have "splitCSV (Join CHR '','' ps) = ps"
  proof (cases "ps = []")
    case True
    then show ?thesis by (simp add: splitCSV_def Join_def TrimSpace_plain)
  next
    case False
    then have "Split CHR '','' (Join CHR '','' ps) = ps" using assms(1) by (intro Split_Join) auto
    moreover have "map TrimSpace ps = ps" using assms(1) by (intro map_idI) auto
    moreover have "filter (\<lambda>p. p \<noteq> []) ps = ps" using assms(1) by (simp add: filter_id_conv)
    ultimately show ?thesis by (simp add: splitCSV_def)
  qed
  then have "AllowedOrigins (build_config fl) = ps" using assms(2) by (simp add: build_config_def)
  then show ?thesis by (auto simp: originAllowed_def list_ex_iff)
qed

theorem origins_roundtrip_witness:
  "AllowedOrigins (build_config [(''allowed-origins'', ''http://a,http://b'')]) = [''http://a'', ''http://b'']"
proof -
  have "\<forall>p \<in> set [''http://a'', ''http://b'']. p \<noteq> [] \<and> CHR '','' \<notin> set p \<and> TrimSpace p = p"
    by (auto simp: is_space_def intro!: TrimSpace_plain)
  then show ?thesis
    using origins_roundtrip [of "[''http://a'', ''http://b'']" "[(''allowed-origins'', ''http://a,http://b'')]" "[]"]
    by (simp add: flag_get_def Join_def)
qed

end
