(* ===== verification/Authorizer.thy ===== *)
theory Authorizer
  imports Http Config
begin

text \<open>
  Who a websocket client is (\<^verbatim>\<open>src/authorization.go\<close>,
  \<^verbatim>\<open>src/proxy_authorizer.go\<close>, \<^verbatim>\<open>src/dummy_authorizer.go\<close>): the
  proxy authorizer forwards the request to a backend and reads two keys from its JSON answer, with
  an optional cache keyed by a hash of the credentials; the dummy one gives everybody one key. The
  backend's answer (\<^verbatim>\<open>client.Do\<close> followed by \<^verbatim>\<open>io.ReadAll\<close>) is an
  argument, and so are the clock readings of one call: \<open>clk 0\<close> on look-up, \<open>clk 1\<close> and \<open>clk 2\<close>
  when an entry is stored.
\<close>

type_synonym auth_backend = "request \<Rightarrow> error + string"

record 'a Authorizer =
  au_Authorize :: "auth_backend \<Rightarrow> (nat \<Rightarrow> time) \<Rightarrow> request \<Rightarrow> 'a \<Rightarrow> (error + string list) \<times> 'a"

record AuthResponse =
  Email :: string
  Ogranization :: string

definition Export :: "AuthResponse \<Rightarrow> string list" where
  "Export r = filter (\<lambda>key. key \<noteq> []) [Email r, Ogranization r]"

record authCacheEntry =
  e_keys :: "string list"
  e_exp :: time

record ProxyAuthorizer =
  pa_url :: string
  pa_timeout :: duration
  cacheTTL :: duration
  cache :: "(64 word, authCacheEntry) gomap"
  puts :: int

definition cacheKey :: "request \<Rightarrow> 64 word option" where
  "cacheKey r =
     (let cookie = Get (r_Header r) ''Cookie''; authz = Get (r_Header r) ''Authorization'' in
      if cookie = [] \<and> authz = [] then None
      else Some (fnv64a_write authz (fnv64a_write [CHR 0x00] (fnv64a_write cookie fnv64a_init))))"

definition cacheGet :: "time \<Rightarrow> request \<Rightarrow> ProxyAuthorizer \<Rightarrow> string list option" where
  "cacheGet now r a =
     (case cacheKey r of
        None \<Rightarrow> None
      | Some k \<Rightarrow>
          (case gm_get (cache a) k of
             None \<Rightarrow> None
           | Some e \<Rightarrow> if e_exp e < now then None else Some (e_keys e)))"

definition cachePut :: "(nat \<Rightarrow> time) \<Rightarrow> request \<Rightarrow> string list \<Rightarrow> ProxyAuthorizer \<Rightarrow> ProxyAuthorizer" where
  "cachePut clk r keys a =
     (case cacheKey r of
        None \<Rightarrow> a
      | Some k \<Rightarrow>
          (let a1 = a\<lparr>cache := gm_put k \<lparr>e_keys = keys, e_exp = clk 1 + cacheTTL a\<rparr> (cache a),
                      puts := puts a + 1\<rparr> in
           if puts a1 mod 256 = 0
           then a1\<lparr>cache := filter (\<lambda>(k, e). \<not> e_exp e < clk 2) (cache a1)\<rparr> else a1))"

text \<open>\<^verbatim>\<open>json.Unmarshal\<close> into \<^verbatim>\<open>AuthResponse\<close>: the field
  \<^verbatim>\<open>User\<close> is matched as every field name is, regardless of case.\<close>

definition dec_user :: "string \<times> json \<Rightarrow> AuthResponse \<times> bool \<Rightarrow> AuthResponse \<times> bool" where
  "dec_user kv acc =
     (let (u, ok) = acc; (k, j) = kv in
      case match_field [''email'', ''organization_name''] k of
        None \<Rightarrow> (u, ok)
      | Some t \<Rightarrow>
          if t = ''email'' then (let (s, b) = dec_string j (Email u) in (u\<lparr>Email := s\<rparr>, ok \<and> b))
          else (let (s, b) = dec_string j (Ogranization u) in (u\<lparr>Ogranization := s\<rparr>, ok \<and> b)))"

definition dec_auth_member :: "string \<times> json \<Rightarrow> AuthResponse \<times> bool \<Rightarrow> AuthResponse \<times> bool" where
  "dec_auth_member kv acc =
     (let (u, ok) = acc; (k, j) = kv in
      case match_field [''User''] k of
        None \<Rightarrow> (u, ok)
      | Some _ \<Rightarrow>
          (case j of JObj kvs \<Rightarrow> fold dec_user kvs (u, ok) | JNull \<Rightarrow> (u, ok) | _ \<Rightarrow> (u, False)))"

definition dec_auth :: "externs \<Rightarrow> string \<Rightarrow> AuthResponse option" where
  "dec_auth X b =
     (let zero = \<lparr>Email = [], Ogranization = []\<rparr> in
      case json_decode X b of
        None \<Rightarrow> None
      | Some JNull \<Rightarrow> Some zero
      | Some (JObj kvs) \<Rightarrow> (let (u, ok) = fold dec_auth_member kvs (zero, True) in if ok then Some u else None)
      | Some _ \<Rightarrow> None)"

definition AUTH_INVALID_CREDS :: string where
  "AUTH_INVALID_CREDS = ''invalid credentials''"

definition proxy_Authorize ::
  "externs \<Rightarrow> auth_backend \<Rightarrow> (nat \<Rightarrow> time) \<Rightarrow> request \<Rightarrow> ProxyAuthorizer \<Rightarrow>
   (error + string list) \<times> ProxyAuthorizer" where
  "proxy_Authorize X backend clk r a =
     (case (if 0 < cacheTTL a then cacheGet (clk 0) r a else None) of
        Some keys \<Rightarrow> (Inr keys, a)
      | None \<Rightarrow>
          (case backend (r\<lparr>r_Path := pa_url a\<rparr>) of
             Inl e \<Rightarrow> (Inl e, a)
           | Inr b \<Rightarrow>
               (case dec_auth X b of
                  None \<Rightarrow> (Inl ''json'', a)
                | Some data \<Rightarrow>
                    (let keys = Export data in
                     if keys = [] then (Inl AUTH_INVALID_CREDS, a)
                     else (Inr keys, if 0 < cacheTTL a then cachePut clk r keys a else a)))))"

text \<open>\<^verbatim>\<open>Init\<close>, where \<^verbatim>\<open>url.Parse\<close> may refuse the URL.\<close>

definition proxy_Init :: "(string \<Rightarrow> error option) \<Rightarrow> Config \<Rightarrow> error + ProxyAuthorizer" where
  "proxy_Init url_Parse cfg =
     (case url_Parse (AuthURL cfg) of
        Some e \<Rightarrow> Inl e
      | None \<Rightarrow> Inr \<lparr>pa_url = AuthURL cfg, pa_timeout = AuthTimeout cfg, cacheTTL = AuthCacheTTL cfg,
                     cache = [], puts = 0\<rparr>)"

definition ProxyAuthorizer_methods :: "externs \<Rightarrow> ProxyAuthorizer Authorizer" where
  "ProxyAuthorizer_methods X = \<lparr>au_Authorize = proxy_Authorize X\<rparr>"

subsection \<open>The dummy authorizer\<close>

record DummyAuthorizer =
  d_keys :: "string list"

definition dummy_Authorize ::
  "auth_backend \<Rightarrow> (nat \<Rightarrow> time) \<Rightarrow> request \<Rightarrow> DummyAuthorizer \<Rightarrow> (error + string list) \<times> DummyAuthorizer" where
  "dummy_Authorize backend clk r d = (Inr (d_keys d), d)"

definition dummy_Init :: "Config \<Rightarrow> error + DummyAuthorizer" where
  "dummy_Init cfg = Inr \<lparr>d_keys = [AuthURL cfg]\<rparr>"

definition DummyAuthorizer_methods :: "DummyAuthorizer Authorizer" where
  "DummyAuthorizer_methods = \<lparr>au_Authorize = dummy_Authorize\<rparr>"

subsection \<open>The contract\<close>

text \<open>What the server relies on: a client that is let in has at least one key, no key is empty, and
  a refused one has changed nothing.\<close>

definition good_keys :: "string list \<Rightarrow> bool" where
  "good_keys ks \<longleftrightarrow> ks \<noteq> [] \<and> [] \<notin> set ks"

locale authorizer =
  fixes A :: "'a Authorizer" and ainv :: "'a \<Rightarrow> bool"
  assumes keeps: "ainv a \<Longrightarrow> au_Authorize A be clk r a = (res, a') \<Longrightarrow> ainv a'"
    and grants: "ainv a \<Longrightarrow> au_Authorize A be clk r a = (Inr ks, a') \<Longrightarrow> good_keys ks"
    and refusal: "ainv a \<Longrightarrow> au_Authorize A be clk r a = (Inl e, a') \<Longrightarrow> a' = a"

definition proxy_inv :: "ProxyAuthorizer \<Rightarrow> bool" where
  "proxy_inv a \<longleftrightarrow> (\<forall>(k, e) \<in> set (cache a). good_keys (e_keys e))"

lemma Export_good: "Export u \<noteq> [] \<Longrightarrow> good_keys (Export u)"
  by (auto simp: Export_def good_keys_def)

lemma cacheGet_good: "proxy_inv a \<Longrightarrow> cacheGet now r a = Some ks \<Longrightarrow> good_keys ks"
  by (auto simp: cacheGet_def proxy_inv_def dest!: map_of_SomeD split: option.splits if_splits)

lemma cachePut_inv: "proxy_inv a \<Longrightarrow> good_keys ks \<Longrightarrow> proxy_inv (cachePut clk r ks a)"
  using set_gm_put
  by (fastforce simp: cachePut_def proxy_inv_def Let_def split: option.splits)

interpretation proxy: authorizer "ProxyAuthorizer_methods X" proxy_inv
  by unfold_locales
     (auto simp: ProxyAuthorizer_methods_def proxy_Authorize_def Let_def
       intro: cacheGet_good cachePut_inv Export_good split: option.splits sum.splits if_splits)

interpretation dummy: authorizer DummyAuthorizer_methods "\<lambda>d. good_keys (d_keys d)"
  by unfold_locales (auto simp: DummyAuthorizer_methods_def dummy_Authorize_def)

lemma dummy_Init_good: "AuthURL cfg \<noteq> [] \<Longrightarrow> dummy_Init cfg = Inr d \<Longrightarrow> good_keys (d_keys d)"
  by (auto simp: dummy_Init_def good_keys_def)

subsection \<open>Freshness of cached identities\<close>

type_synonym auth_call = "auth_backend \<times> (nat \<Rightarrow> time) \<times> request"

fun auth_run :: "externs \<Rightarrow> auth_call list \<Rightarrow> ProxyAuthorizer \<Rightarrow> (error + string list) list \<times> ProxyAuthorizer" where
  "auth_run X [] a = ([], a)"
| "auth_run X ((be, clk, r) # calls) a =
     (let (res, a1) = proxy_Authorize X be clk r a; (ress, a2) = auth_run X calls a1 in (res # ress, a2))"

text \<open>The backend itself answered this call with these keys.\<close>

fun vouched :: "externs \<Rightarrow> string \<Rightarrow> auth_call \<Rightarrow> string list \<Rightarrow> bool" where
  "vouched X url (be, clk, r) ks =
     (case be (r\<lparr>r_Path := url\<rparr>) of
        Inl e \<Rightarrow> False
      | Inr b \<Rightarrow> (case dec_auth X b of None \<Rightarrow> False | Some u \<Rightarrow> ks = Export u \<and> ks \<noteq> []))"

text \<open>A call whose answer may serve another one from the cache: the same credentials hash, and the
  look-up not later than the time to live after the answer was stored.\<close>

fun serves :: "duration \<Rightarrow> auth_call \<Rightarrow> auth_call \<Rightarrow> bool" where
  "serves ttl (be, clk, r) (be', clk', r') \<longleftrightarrow>
     0 < ttl \<and> cacheKey r \<noteq> None \<and> cacheKey r = cacheKey r' \<and> clk' 0 \<le> clk 1 + ttl"

definition cache_from :: "externs \<Rightarrow> auth_call list \<Rightarrow> ProxyAuthorizer \<Rightarrow> bool" where
  "cache_from X H a \<longleftrightarrow>
     (\<forall>(k, e) \<in> set (cache a). \<exists>c \<in> set H. vouched X (pa_url a) c (e_keys e) \<and>
        cacheKey (snd (snd c)) = Some k \<and> e_exp e = fst (snd c) 1 + cacheTTL a)"

lemma cachePut_frame [frame_simps]:
  "pa_url (cachePut clk r ks a) = pa_url a" "cacheTTL (cachePut clk r ks a) = cacheTTL a"
  by (simp_all add: cachePut_def Let_def split: option.splits)

lemma cachePut_from:
  assumes "cache_from X H a" and "vouched X (pa_url a) (be, clk, r) ks"
  shows "cache_from X (H @ [(be, clk, r)]) (cachePut clk r ks a)"
proof (cases "cacheKey r")
  case None
  then show ?thesis using assms(1) by (fastforce simp: cachePut_def cache_from_def)
next
  case (Some k)
  let ?e = "\<lparr>e_keys = ks, e_exp = clk 1 + cacheTTL a\<rparr>"
  have "set (cache (cachePut clk r ks a)) \<subseteq> insert (k, ?e) (set (cache a))"
    using set_gm_put [of k ?e "cache a"] Some by (auto simp: cachePut_def Let_def)
  moreover have "\<exists>c \<in> set (H @ [(be, clk, r)]). vouched X (pa_url a) c (e_keys e') \<and>
      cacheKey (snd (snd c)) = Some k' \<and> e_exp e' = fst (snd c) 1 + cacheTTL a"
    if "(k', e') \<in> insert (k, ?e) (set (cache a))" for k' e'
    using that assms Some unfolding cache_from_def by (auto simp del: vouched.simps)
  ultimately show ?thesis unfolding cache_from_def frame_simps by blast
qed

lemma cache_from_snoc: "cache_from X H a \<Longrightarrow> cache_from X (H @ [c]) a"
  by (fastforce simp: cache_from_def simp del: vouched.simps)

lemma Authorize_from:
  assumes "cache_from X H a" and st: "proxy_Authorize X be clk r a = (res, a')"
  shows "cache_from X (H @ [(be, clk, r)]) a'" and "pa_url a' = pa_url a" and "cacheTTL a' = cacheTTL a"
    and "res = Inr ks \<Longrightarrow> vouched X (pa_url a) (be, clk, r) ks \<or>
           (\<exists>c \<in> set H. vouched X (pa_url a) c ks \<and> serves (cacheTTL a) c (be, clk, r))"
proof -
  let ?hit = "if 0 < cacheTTL a then cacheGet (clk 0) r a else None"
  consider (hit) keys where "?hit = Some keys" "res = Inr keys" "a' = a"
    | (miss) "?hit = None" "a' = a" "res = Inr ks \<Longrightarrow> vouched X (pa_url a) (be, clk, r) ks"
    | (put) keys where "?hit = None" "a' = cachePut clk r keys a" "res = Inr keys"
        "vouched X (pa_url a) (be, clk, r) keys"
    using st by (fastforce simp: proxy_Authorize_def Let_def split: option.splits sum.splits if_splits)
  note cases = this
  show "pa_url a' = pa_url a" "cacheTTL a' = cacheTTL a"
    by (cases rule: cases; simp add: frame_simps)+
  show "cache_from X (H @ [(be, clk, r)]) a'"
    by (cases rule: cases) (simp_all add: cache_from_snoc cachePut_from assms(1) del: vouched.simps)
  assume res: "res = Inr ks"
  show "vouched X (pa_url a) (be, clk, r) ks \<or>
           (\<exists>c \<in> set H. vouched X (pa_url a) c ks \<and> serves (cacheTTL a) c (be, clk, r))"
  proof (cases rule: cases)
    case (hit keys)
    then obtain k e where "0 < cacheTTL a" "cacheKey r = Some k" "gm_get (cache a) k = Some e"
      "\<not> e_exp e < clk 0" "e_keys e = ks"
      using res by (auto simp: cacheGet_def split: if_splits option.splits)
    then show ?thesis
      using assms(1) by (fastforce simp: cache_from_def simp del: vouched.simps dest!: map_of_SomeD)
  qed (use res in auto)
qed

lemma auth_run_from:
  "cache_from X H a \<Longrightarrow> i < length calls \<Longrightarrow> fst (auth_run X calls a) ! i = Inr ks \<Longrightarrow>
   vouched X (pa_url a) (calls ! i) ks \<or>
   (\<exists>c \<in> set (H @ take i calls). vouched X (pa_url a) c ks \<and> serves (cacheTTL a) c (calls ! i))"
proof (induction calls arbitrary: H a i)
  case (Cons call calls)
  obtain be clk r where call: "call = (be, clk, r)" by (cases call)
  obtain res a1 where st: "proxy_Authorize X be clk r a = (res, a1)" by fastforce
  note f = Authorize_from [OF Cons.prems(1) st]
  show ?case
  proof (cases i)
    case 0
    then show ?thesis using Cons.prems(3) f(4) [of ks] by (simp add: call st case_prod_beta del: vouched.simps serves.simps)
  next
    case (Suc j)
    then show ?thesis
      using Cons.IH [OF f(1), of j] Cons.prems(2,3)
      by (simp add: call st case_prod_beta f(2,3) del: vouched.simps serves.simps)
  qed
qed simp

text \<open>C11: No stale identity. In any run of the proxy authorizer from its initial state, keys are granted
  to a request only if the backend returned exactly these keys (at least one) for this very request,
  or for an earlier request with the same credentials hash whose answer was stored no more than the
  cache time to live before the look-up.\<close>

theorem authorize_fresh:
  assumes "proxy_Init url_Parse cfg = Inr a" and "i < length calls"
    and "fst (auth_run X calls a) ! i = Inr ks"
  shows "vouched X (AuthURL cfg) (calls ! i) ks \<or>
         (\<exists>j < i. vouched X (AuthURL cfg) (calls ! j) ks \<and> serves (AuthCacheTTL cfg) (calls ! j) (calls ! i))"
proof -
  have a: "pa_url a = AuthURL cfg" "cacheTTL a = AuthCacheTTL cfg" "cache a = []"
    using assms(1) by (auto simp: proxy_Init_def split: option.splits)
  then have "cache_from X [] a" by (simp add: cache_from_def)
  from auth_run_from [OF this assms(2,3)] consider "vouched X (AuthURL cfg) (calls ! i) ks"
    | c where "c \<in> set (take i calls)" "vouched X (AuthURL cfg) c ks" "serves (AuthCacheTTL cfg) c (calls ! i)"
    unfolding a by auto
  then show ?thesis
  proof cases
    case (2 c)
    then obtain j where "j < i" "c = calls ! j" by (auto simp: in_set_conv_nth)
    with 2 show ?thesis by blast
  qed simp
qed

text \<open>A second request with the same cookie is served from the cache while the backend is down.\<close>

theorem authorize_fresh_witness:
  "\<exists>X cfg a calls. proxy_Init (\<lambda>_. None) cfg = Inr a \<and> length calls = 2 \<and>
     fst (auth_run X calls a) ! 1 = Inr [''a@b''] \<and> \<not> vouched X (AuthURL cfg) (calls ! 1) [''a@b''] \<and>
     (\<exists>j < 1. vouched X (AuthURL cfg) (calls ! j) [''a@b''] \<and> serves (AuthCacheTTL cfg) (calls ! j) (calls ! 1))"
proof -
  define X where "X = \<lparr>json_decode = \<lambda>_. Some (JObj [(''User'', JObj [(''email'', JStr ''a@b'')])]),
    json_encode = \<lambda>_. None, uuid_Parse = \<lambda>_. None, uuid_String = \<lambda>_. [],
    time_text = \<lambda>_. None, time_parse = \<lambda>_. None\<rparr>"
  define cfg where "cfg = (build_config [])\<lparr>AuthURL := ''u'', AuthCacheTTL := 10\<rparr>"
  define r where "r = \<lparr>r_Method = ''GET'', r_Path = ''/ws'', r_Query = [], r_Header = [(''Cookie'', ''c'')],
    r_RemoteAddr = [], r_Body = Inr []\<rparr>"
  define calls :: "auth_call list" where
    "calls = [(\<lambda>_. Inr ''x'', \<lambda>_. 0, r), (\<lambda>_. Inl ''down'', \<lambda>_. 5, r)]"
  obtain k where k: "cacheKey r = Some k" by (simp add: cacheKey_def r_def Get_def)
  obtain a where a: "proxy_Init (\<lambda>_. None) cfg = Inr a" by (simp add: proxy_Init_def)
  then have ai: "cacheTTL a = 10" "cache a = []" "puts a = 0" by (auto simp: proxy_Init_def cfg_def)
  have res: "fst (auth_run X calls a) ! 1 = Inr [''a@b'']"
    by (simp add: calls_def proxy_Authorize_def cacheGet_def cachePut_def k ai X_def dec_auth_def
        dec_auth_member_def dec_user_def dec_string_def Export_def Let_def)
  have nv: "\<not> vouched X (AuthURL cfg) (calls ! 1) [''a@b'']" by (simp add: calls_def)
  have len: "length calls = 2" by (simp add: calls_def)
  show ?thesis using authorize_fresh [OF a _ res] res nv len a by force
qed

end
