(* ===== verification/Storage.thy ===== *)
theory Storage
  imports Message
begin

text \<open>
  The storage interface (\<^verbatim>\<open>src/storage.go\<close>). A Go interface value is a state
  with a table of methods: the record \<open>Storage\<close>, whose optional entries are the optional
  interfaces \<^verbatim>\<open>Notifier\<close> and \<^verbatim>\<open>Pinger\<close>; \<open>st_NilKeys\<close> is whether
  \<^verbatim>\<open>GetKeys\<close> gives a nil slice, rather than an empty one, when there is no key. The contract every
  backend promises is stated on an abstract mailbox, a finite map from message ids to messages
  for every key: a failed write has either happened or not, and reads change nothing.
\<close>

record 's Storage =
  st_SetQueue :: "string \<Rightarrow> Message list \<Rightarrow> 's \<Rightarrow> error option \<times> 's"
  st_GetQueue :: "string \<Rightarrow> 's \<Rightarrow> (error + Message list) \<times> 's"
  st_DeleteQueue :: "string \<Rightarrow> 's \<Rightarrow> error option \<times> 's"
  st_AddMessage :: "string \<Rightarrow> Message \<Rightarrow> 's \<Rightarrow> error option \<times> 's"
  st_DeleteMessage :: "string \<Rightarrow> uuid \<Rightarrow> 's \<Rightarrow> error option \<times> 's"
  st_GetKeys :: "'s \<Rightarrow> (error + string list) \<times> 's"
  st_NilKeys :: bool
  st_Notify :: "(string \<Rightarrow> 's \<Rightarrow> error option \<times> 's) option"
  st_PingContext :: "('s \<Rightarrow> error option \<times> 's) option"

type_synonym mailbox = "string \<Rightarrow> uuid \<rightharpoonup> Message"

definition queue_map :: "Message list \<Rightarrow> uuid \<rightharpoonup> Message" where
  "queue_map ms = map_of (map (\<lambda>m. (msg_id m, m)) ms)"

definition box_put :: "string \<Rightarrow> uuid \<Rightarrow> Message option \<Rightarrow> mailbox \<Rightarrow> mailbox" where
  "box_put k i v b = b(k := (b k)(i := v))"

definition box_del :: "string \<Rightarrow> uuid \<Rightarrow> mailbox \<Rightarrow> mailbox" where
  "box_del k i b = b(k := (b k)(i := None))"

definition box_clear :: "string \<Rightarrow> mailbox \<Rightarrow> mailbox" where
  "box_clear k b = b(k := Map.empty)"

lemma queue_map_Nil [simp]: "queue_map [] = Map.empty"
  by (simp add: queue_map_def)

lemma queue_map_Cons [simp]: "queue_map (m # ms) = (queue_map ms)(msg_id m \<mapsto> m)"
  by (simp add: queue_map_def)

lemma dom_queue_map: "dom (queue_map ms) = msg_id ` set ms"
  by (simp add: queue_map_def dom_map_of_conv_image_fst image_image)

lemma queue_map_in: "queue_map ms i = Some m \<Longrightarrow> m \<in> set ms \<and> msg_id m = i"
  by (induction ms) (auto split: if_splits)

lemma queue_map_iff:
  "distinct (map msg_id ms) \<Longrightarrow> queue_map ms i = Some m \<longleftrightarrow> m \<in> set ms \<and> msg_id m = i"
  by (auto simp: queue_map_def comp_def map_of_eq_Some_iff)

subsection \<open>The contract\<close>

text \<open>
  \<open>keep\<close> is what a backend gives back of a message it has stored: all of it in the in-process backend,
  what its encoding decodes to in Redis.
\<close>

locale storage_contract =
  fixes S :: "'s Storage" and inv :: "'s \<Rightarrow> bool" and box :: "'s \<Rightarrow> mailbox"
    and keep :: "Message \<Rightarrow> Message option"
  assumes box_id: "inv s \<Longrightarrow> box s k i = Some m \<Longrightarrow> msg_id m = i"
    and get_queue: "inv s \<Longrightarrow> st_GetQueue S k s = (r, s') \<Longrightarrow>
       inv s' \<and> box s' = box s \<and>
       (\<forall>ms. r = Inr ms \<longrightarrow> distinct (map msg_id ms) \<and> queue_map ms = box s k)"
    and get_keys: "inv s \<Longrightarrow> st_GetKeys S s = (rk, s') \<Longrightarrow>
       inv s' \<and> box s' = box s \<and> (\<forall>ks. rk = Inr ks \<longrightarrow> {k. box s k \<noteq> Map.empty} \<subseteq> set ks)"
    and add_message: "inv s \<Longrightarrow> st_AddMessage S k m s = (e, s') \<Longrightarrow>
       inv s' \<and> box s' \<in> {box s, box_put k (msg_id m) (keep m) (box s)} \<and>
       (e = None \<longrightarrow> box s' = box_put k (msg_id m) (keep m) (box s))"
    and delete_message: "inv s \<Longrightarrow> st_DeleteMessage S k i s = (e, s') \<Longrightarrow>
       inv s' \<and> box s' \<in> {box s, box_del k i (box s)} \<and>
       (e = None \<longrightarrow> box s' = box_del k i (box s))"
    and delete_queue: "inv s \<Longrightarrow> st_DeleteQueue S k s = (e, s') \<Longrightarrow>
       inv s' \<and> box s' \<in> {box s, box_clear k (box s)} \<and>
       (e = None \<longrightarrow> box s' = box_clear k (box s))"
    and set_queue: "inv s \<Longrightarrow> q \<noteq> [] \<Longrightarrow> distinct (map msg_id q) \<Longrightarrow> st_SetQueue S k q s = (e, s') \<Longrightarrow>
       inv s' \<and> box s' \<in> {box s, (box s)(k := (\<lambda>i. Option.bind (queue_map q i) keep))} \<and>
       (e = None \<longrightarrow> box s' = (box s)(k := (\<lambda>i. Option.bind (queue_map q i) keep)))"
    and notify: "st_Notify S = Some f \<Longrightarrow> inv s \<Longrightarrow> f k s = (e, s') \<Longrightarrow> inv s' \<and> box s' = box s"
    and ping: "st_PingContext S = Some p \<Longrightarrow> inv s \<Longrightarrow> p s = (e, s') \<Longrightarrow> inv s' \<and> box s' = box s"

text \<open>A backend whose operations never fail, as the in-process one.\<close>

locale reliable_storage = storage_contract S inv box keep
  for S :: "'s Storage" and inv :: "'s \<Rightarrow> bool" and box :: "'s \<Rightarrow> mailbox"
    and keep :: "Message \<Rightarrow> Message option" +
  assumes get_queue_ok: "inv s \<Longrightarrow> \<exists>ms. fst (st_GetQueue S k s) = Inr ms"
    and get_keys_ok: "inv s \<Longrightarrow> \<exists>ks. fst (st_GetKeys S s) = Inr ks"
    and add_message_ok: "inv s \<Longrightarrow> fst (st_AddMessage S k m s) = None"
    and delete_message_ok: "inv s \<Longrightarrow> fst (st_DeleteMessage S k i s) = None"
    and delete_queue_ok: "inv s \<Longrightarrow> fst (st_DeleteQueue S k s) = None"

end
