(* ===== verification/Memory_Storage.thy ===== *)
theory Memory_Storage
  imports Storage
begin

text \<open>
  The in-process backend (\<^verbatim>\<open>src/memory_storage.go\<close>): a map from keys to message
  slices. Every method runs under the storage mutex, so each is one atomic step.
  \<^verbatim>\<open>GetQueue\<close> hands out a copy, so no caller shares a slice with the map.
\<close>

record MemoryStorage =
  storage_map :: "(string, Message list) gomap"

definition mem_Init :: "MemoryStorage \<Rightarrow> error option \<times> MemoryStorage" where
  "mem_Init s = (None, s\<lparr>storage_map := []\<rparr>)"

definition mem_SetQueue :: "string \<Rightarrow> Message list \<Rightarrow> MemoryStorage \<Rightarrow> error option \<times> MemoryStorage" where
  "mem_SetQueue key queue s = (None, s\<lparr>storage_map := gm_put key queue (storage_map s)\<rparr>)"

definition mem_GetQueue :: "string \<Rightarrow> MemoryStorage \<Rightarrow> (error + Message list) \<times> MemoryStorage" where
  "mem_GetQueue key s = (Inr (gm_list (storage_map s) key), s)"

definition mem_DeleteQueue :: "string \<Rightarrow> MemoryStorage \<Rightarrow> error option \<times> MemoryStorage" where
  "mem_DeleteQueue key s = (None, s\<lparr>storage_map := gm_del key (storage_map s)\<rparr>)"

text \<open>The loop of \<^verbatim>\<open>AddMessage\<close>: overwrite the first entry with the same id, or
  append.\<close>

fun upsert :: "Message \<Rightarrow> Message list \<Rightarrow> Message list" where
  "upsert m [] = [m]"
| "upsert m (x # queue) = (if msg_id x = msg_id m then m # queue else x # upsert m queue)"

definition mem_AddMessage :: "string \<Rightarrow> Message \<Rightarrow> MemoryStorage \<Rightarrow> error option \<times> MemoryStorage" where
  "mem_AddMessage key m s =
     (None, s\<lparr>storage_map := gm_put key (upsert m (gm_list (storage_map s) key)) (storage_map s)\<rparr>)"

text \<open>The loop of \<^verbatim>\<open>DeleteMessage\<close>: the queue without the first entry with that
  id, \<open>None\<close> when there is none.\<close>

fun cut_first :: "uuid \<Rightarrow> Message list \<Rightarrow> Message list option" where
  "cut_first i [] = None"
| "cut_first i (x # queue) = (if msg_id x = i then Some queue else map_option (Cons x) (cut_first i queue))"

definition mem_DeleteMessage :: "string \<Rightarrow> uuid \<Rightarrow> MemoryStorage \<Rightarrow> error option \<times> MemoryStorage" where
  "mem_DeleteMessage key i s =
     (case cut_first i (gm_list (storage_map s) key) of
        None \<Rightarrow> (None, s)
      | Some queue \<Rightarrow>
          (None, s\<lparr>storage_map := (if queue = [] then gm_del key (storage_map s)
                                   else gm_put key queue (storage_map s))\<rparr>))"

definition mem_GetKeys :: "range_order \<Rightarrow> MemoryStorage \<Rightarrow> (error + string list) \<times> MemoryStorage" where
  "mem_GetKeys ord s = (Inr (ord (gm_keys (storage_map s))), s)"

definition MemoryStorage_methods :: "range_order \<Rightarrow> MemoryStorage Storage" where
  "MemoryStorage_methods ord =
     \<lparr>st_SetQueue = mem_SetQueue, st_GetQueue = mem_GetQueue, st_DeleteQueue = mem_DeleteQueue,
      st_AddMessage = mem_AddMessage, st_DeleteMessage = mem_DeleteMessage,
      st_GetKeys = mem_GetKeys ord, st_NilKeys = False, st_Notify = None, st_PingContext = None\<rparr>"

subsection \<open>Queues with distinct ids\<close>

lemma queue_map_upsert: "queue_map (upsert m q) = (queue_map q)(msg_id m \<mapsto> m)"
  by (induction q) (auto simp: fun_upd_twist)

lemma upsert_ids: "set (map msg_id (upsert m q)) = insert (msg_id m) (set (map msg_id q))"
  by (induction q) auto

lemma distinct_upsert: "distinct (map msg_id q) \<Longrightarrow> distinct (map msg_id (upsert m q))"
  using upsert_ids by (induction q) auto

lemma upsert_not_Nil [simp]: "upsert m q \<noteq> []"
  by (cases q) auto

text \<open>A second publish with the same id keeps the place of the first in the queue.\<close>

lemma upsert_order: "msg_id m \<in> msg_id ` set q \<Longrightarrow> map msg_id (upsert m q) = map msg_id q"
  by (induction q) auto

lemma upsert_fresh: "msg_id m \<notin> msg_id ` set q \<Longrightarrow> upsert m q = q @ [m]"
  by (induction q) auto

lemma cut_first_None: "cut_first i q = None \<longleftrightarrow> i \<notin> msg_id ` set q"
  by (induction q) auto

lemma cut_first_Some:
  "distinct (map msg_id q) \<Longrightarrow> cut_first i q = Some q' \<Longrightarrow> q' = filter (\<lambda>m. msg_id m \<noteq> i) q"
proof (induction q arbitrary: q')
  case (Cons x q)
  have f: "filter (\<lambda>m. msg_id m \<noteq> msg_id x) q = q"
    using Cons.prems(1) by (intro filter_True) (metis distinct.simps(2) image_eqI list.set_map list.simps(9))
  show ?case
  proof (cases "msg_id x = i")
    case True
    with Cons.prems f show ?thesis by auto
  next
    case False
    with Cons show ?thesis by auto
  qed
qed simp

lemma queue_map_filter: "queue_map (filter (\<lambda>m. msg_id m \<noteq> i) q) = (queue_map q)(i := None)"
  by (induction q) (auto simp: fun_upd_twist)

lemma distinct_filter_ids: "distinct (map msg_id q) \<Longrightarrow> distinct (map msg_id (filter P q))"
  by (induction q) auto

subsection \<open>The contract holds\<close>

definition mem_inv :: "MemoryStorage \<Rightarrow> bool" where
  "mem_inv s \<longleftrightarrow> gm_ok (storage_map s) \<and>
     (\<forall>k q. gm_get (storage_map s) k = Some q \<longrightarrow> q \<noteq> [] \<and> distinct (map msg_id q))"

definition mem_box :: "MemoryStorage \<Rightarrow> mailbox" where
  "mem_box s k = queue_map (gm_list (storage_map s) k)"

lemma mem_inv_distinct: "mem_inv s \<Longrightarrow> distinct (map msg_id (gm_list (storage_map s) k))"
  by (auto simp: mem_inv_def gm_list_def split: option.splits)

lemma mem_inv_keys: "mem_inv s \<Longrightarrow> gm_get (storage_map s) k \<noteq> None \<longleftrightarrow> mem_box s k \<noteq> Map.empty"
  by (auto simp: mem_inv_def mem_box_def gm_list_def queue_map_def split: option.splits)

lemma mem_inv_put:
  "mem_inv s \<Longrightarrow> q \<noteq> [] \<Longrightarrow> distinct (map msg_id q) \<Longrightarrow>
     mem_inv (s\<lparr>storage_map := gm_put k q (storage_map s)\<rparr>)"
  by (auto simp: mem_inv_def gomap_simps)

lemma mem_inv_del: "mem_inv s \<Longrightarrow> mem_inv (s\<lparr>storage_map := gm_del k (storage_map s)\<rparr>)"
  by (auto simp: mem_inv_def gomap_simps)

lemma mem_box_put:
  "mem_box (s\<lparr>storage_map := gm_put k q (storage_map s)\<rparr>) = (mem_box s)(k := queue_map q)"
  by (auto simp: mem_box_def gomap_simps)

lemma mem_box_del:
  "mem_box (s\<lparr>storage_map := gm_del k (storage_map s)\<rparr>) = (mem_box s)(k := Map.empty)"
  by (auto simp: mem_box_def gomap_simps)

lemma mem_Init_inv: "mem_inv (snd (mem_Init s))" "mem_box (snd (mem_Init s)) = (\<lambda>_. Map.empty)"
  by (auto simp: mem_Init_def mem_inv_def mem_box_def)

lemma mem_Add_spec:
  assumes "mem_inv s"
  shows "mem_inv (snd (mem_AddMessage k m s))"
    and "mem_box (snd (mem_AddMessage k m s)) = box_put k (msg_id m) (Some m) (mem_box s)"
  using assms
  by (auto simp: mem_AddMessage_def box_put_def mem_box_put queue_map_upsert mem_box_def
      intro!: mem_inv_put distinct_upsert mem_inv_distinct)

lemma mem_Delete_spec:
  assumes "mem_inv s"
  shows "mem_inv (snd (mem_DeleteMessage k i s))"
    and "mem_box (snd (mem_DeleteMessage k i s)) = box_del k i (mem_box s)"
proof -
  let ?q = "gm_list (storage_map s) k"
  have d: "distinct (map msg_id ?q)" using assms by (rule mem_inv_distinct)
  have "mem_inv (snd (mem_DeleteMessage k i s)) \<and>
        mem_box (snd (mem_DeleteMessage k i s)) = box_del k i (mem_box s)"
  proof (cases "cut_first i ?q")
    case None
    then have "mem_box s k i = None"
      by (auto simp: cut_first_None mem_box_def dom_queue_map [symmetric] domIff)
    with None assms show ?thesis
      by (auto simp: mem_DeleteMessage_def box_del_def fun_upd_idem)
  next
    case (Some q')
    then have q': "q' = filter (\<lambda>m. msg_id m \<noteq> i) ?q" using d cut_first_Some by blast
    then have "queue_map q' = (mem_box s k)(i := None)"
      by (simp add: queue_map_filter mem_box_def)
    with Some q' d assms show ?thesis
      by (auto simp: mem_DeleteMessage_def box_del_def mem_box_put mem_box_del
          intro!: mem_inv_put mem_inv_del distinct_filter_ids)
  qed
  then show "mem_inv (snd (mem_DeleteMessage k i s))"
    and "mem_box (snd (mem_DeleteMessage k i s)) = box_del k i (mem_box s)" by auto
qed

lemma MemoryStorage_reliable:
  assumes "range_order_ok ord"
  shows "reliable_storage (MemoryStorage_methods ord) mem_inv mem_box Some"
proof (unfold_locales, goal_cases)
  case (1 s k i m)
  then show ?case by (auto simp: mem_box_def dest: queue_map_in)
next
  case (2 s k r s')
  then show ?case
    by (auto simp: MemoryStorage_methods_def mem_GetQueue_def mem_box_def intro: mem_inv_distinct)
next
  case (3 s rk s')
  have "set (gm_keys (storage_map s)) = {k. mem_box s k \<noteq> Map.empty}"
    using 3(1) by (simp only: set_eq_iff gm_keys_iff mem_inv_keys mem_Collect_eq simp_thms)
  with 3 show ?case
    by (auto simp: MemoryStorage_methods_def mem_GetKeys_def range_order_set [OF assms])
next
  case (4 s k m e s')
  then show ?case using mem_Add_spec [of s k m]
    by (auto simp: MemoryStorage_methods_def mem_AddMessage_def)
next
  case (5 s k i e s')
  then show ?case using mem_Delete_spec [of s k i]
    by (auto simp: MemoryStorage_methods_def mem_DeleteMessage_def split: option.splits)
next
  case (6 s k e s')
  then show ?case
    by (auto simp: MemoryStorage_methods_def mem_DeleteQueue_def box_clear_def mem_box_del
        intro: mem_inv_del)
next
  case (7 s q k e s')
  then show ?case
    by (auto simp: MemoryStorage_methods_def mem_SetQueue_def mem_box_put intro: mem_inv_put)
qed (auto simp: MemoryStorage_methods_def mem_GetQueue_def mem_GetKeys_def mem_AddMessage_def
      mem_DeleteMessage_def mem_DeleteQueue_def split: option.splits)

interpretation mem: reliable_storage "MemoryStorage_methods (\<lambda>ks. ks)" mem_inv mem_box Some
  by (rule MemoryStorage_reliable) simp

end
