(* ===== verification/Engine.thy ===== *)
theory Engine
  imports Topics Client_Conn History Rate_Limit Authorizer Memory_Storage
begin

text \<open>
  The delivery engine (\<^verbatim>\<open>src/engine.go\<close>): the connection registry, the work
  queue, delivery of queued messages, sweeping and reconciliation.

  A \<^verbatim>\<open>*client\<close> pointer is a number \<open>cid\<close> into \<open>heap\<close>. The state of the storage
  backend and of the authorizer are type parameters; operations take the backend's method table.
  Everything the outside decides during one flush of a key (clock readings, the outcome of each
  write, the order of a range over a map) is a \<open>send_env\<close>.
\<close>

type_synonym cid = nat

text \<open>The closures that are scheduled: the subscription callback, the fan-out of a published
  message and the backlog flush of a new connection.\<close>

datatype task = FlushTask string | PostTask Message "string list" | ConnectTask "string list"

record ('s, 'a) goctopus =
  Conns :: "(string, cid list) gomap"
  patterns :: "(string, bool) gomap"
  store :: 's
  authz :: 'a
  heap :: "cid \<Rightarrow> client"
  next_cid :: nat
  config :: Config
  limiter :: "rateLimiter option"
  history :: "historyStore option"
  work :: "task list"
  work_cap :: nat
  spawned :: "task list"
  cancelled :: bool
  received :: nat
  delivered :: nat
  expired :: nat
  authFail :: nat
  delivery :: "f64 list"
  keysVal :: nat
  keysAt :: "time option"

record send_env =
  se_ord :: range_order
  se_now :: "nat \<Rightarrow> time"
  se_wnow :: "nat \<Rightarrow> cid \<Rightarrow> time"
  se_ok :: "nat \<Rightarrow> cid \<Rightarrow> bool"
  se_since :: "nat \<Rightarrow> cid \<Rightarrow> time"

text \<open>For message number \<open>i\<close> of a queue: \<open>se_now\<close> is the clock at its expiry test; for client \<open>c\<close>,
  \<open>se_wnow\<close> the clock when the write deadline is set, \<open>se_ok\<close> whether the write succeeds and
  \<open>se_since\<close> the clock afterwards.\<close>

subsection \<open>Start\<close>

datatype storage_kind = MemoryKind | RedisKind
datatype authorizer_kind = ProxyKind | DummyKind

definition Storages :: "(string \<times> storage_kind) list" where
  "Storages = [(DEFAULT, MemoryKind), (MEMORY, MemoryKind), (REDIS, RedisKind)]"

definition Authorizers :: "(string \<times> authorizer_kind) list" where
  "Authorizers = [(DEFAULT, ProxyKind), (PROXY, ProxyKind), (DUMMY, DummyKind)]"

text \<open>Both return the panic message, or what the chosen constructor and its \<^verbatim>\<open>Init\<close> give.\<close>

definition getStorage :: "(storage_kind \<Rightarrow> Config \<Rightarrow> error + 's) \<Rightarrow> Config \<Rightarrow> error + 's" where
  "getStorage init cfg =
     (case map_of Storages (ToLower (StorageEngine cfg)) of
        None \<Rightarrow> Inl (''unknown storage engine: '' @ StorageEngine cfg)
      | Some kind \<Rightarrow>
          (case init kind cfg of
             Inl e \<Rightarrow> Inl (''could not initialize storage '' @ StorageEngine cfg @ '': '' @ e)
           | Inr s \<Rightarrow> Inr s))"

definition getAuthorizer :: "(authorizer_kind \<Rightarrow> Config \<Rightarrow> error + 'a) \<Rightarrow> Config \<Rightarrow> error + 'a" where
  "getAuthorizer init cfg =
     (case map_of Authorizers (ToLower (AuthorizerEngine cfg)) of
        None \<Rightarrow> Inl (''unknown authorizer engine: '' @ AuthorizerEngine cfg)
      | Some kind \<Rightarrow>
          (case init kind cfg of
             Inl e \<Rightarrow> Inl (''could not initialize authorizer '' @ AuthorizerEngine cfg @ '': '' @ e)
           | Inr a \<Rightarrow> Inr a))"

definition Start :: "(storage_kind \<Rightarrow> Config \<Rightarrow> error + 's) \<Rightarrow> (authorizer_kind \<Rightarrow> Config \<Rightarrow> error + 'a) \<Rightarrow>
    Config \<Rightarrow> error + ('s, 'a) goctopus" where
  "Start initS initA cfg =
     (case getStorage initS cfg of
        Inl e \<Rightarrow> Inl e
      | Inr s \<Rightarrow>
          (case getAuthorizer initA cfg of
             Inl e \<Rightarrow> Inl e
           | Inr a \<Rightarrow>
               if Workers cfg \<le> 0 then Inl WS_WORKERS_NOT_FOUND
               else Inr
                 \<lparr>Conns = [], patterns = [], store = s, authz = a, heap = (\<lambda>_. newClient [] 0 False),
                  next_cid = 0, config = cfg,
                  limiter = (if f_gt (RateLimit cfg) (Fin 0)
                             then Some (newRateLimiter (RateLimit cfg) (RateBurst cfg)) else None),
                  history = (if 0 < HistorySize cfg
                             then Some (newHistoryStore (HistorySize cfg) (HistoryTTL cfg)) else None),
                  work = [], work_cap = nat (max 256 (int64 (Workers cfg * 64))), spawned = [],
                  cancelled = False, received = 0, delivered = 0, expired = 0, authFail = 0,
                  delivery = [], keysVal = 0, keysAt = None\<rparr>))"

subsection \<open>The work queue\<close>

definition schedule :: "task \<Rightarrow> ('s, 'a) goctopus \<Rightarrow> ('s, 'a) goctopus" where
  "schedule task g =
     (if length (work g) < work_cap g then g\<lparr>work := work g @ [task]\<rparr>
      else g\<lparr>spawned := spawned g @ [task]\<rparr>)"

definition sendLock :: "string \<Rightarrow> nat" where
  "sendLock key = unat (fnv32a key mod 256)"

subsection \<open>Storage access\<close>

definition getMsgQueue :: "'s Storage \<Rightarrow> string \<Rightarrow> ('s, 'a) goctopus \<Rightarrow>
    (error + Message list) \<times> ('s, 'a) goctopus" where
  "getMsgQueue S key g = (let (r, s) = st_GetQueue S key (store g) in (r, g\<lparr>store := s\<rparr>))"

definition deleteMsgQueue :: "'s Storage \<Rightarrow> string \<Rightarrow> ('s, 'a) goctopus \<Rightarrow> ('s, 'a) goctopus" where
  "deleteMsgQueue S key g = (let (e, s) = st_DeleteQueue S key (store g) in g\<lparr>store := s\<rparr>)"

definition deleteMsgById :: "'s Storage \<Rightarrow> string \<Rightarrow> uuid \<Rightarrow> ('s, 'a) goctopus \<Rightarrow>
    error option \<times> ('s, 'a) goctopus" where
  "deleteMsgById S key i g = (let (e, s) = st_DeleteMessage S key i (store g) in (e, g\<lparr>store := s\<rparr>))"

definition queueMessage :: "'s Storage \<Rightarrow> Message \<Rightarrow> ('s, 'a) goctopus \<Rightarrow> ('s, 'a) goctopus" where
  "queueMessage S m g = (let (e, s) = st_AddMessage S (Key m) m (store g) in g\<lparr>store := s\<rparr>)"

definition notify :: "'s Storage \<Rightarrow> string \<Rightarrow> ('s, 'a) goctopus \<Rightarrow> ('s, 'a) goctopus" where
  "notify S key g =
     (case st_Notify S of None \<Rightarrow> g | Some f \<Rightarrow> let (e, s) = f key (store g) in g\<lparr>store := s\<rparr>)"

definition get_keys :: "'s Storage \<Rightarrow> ('s, 'a) goctopus \<Rightarrow> (error + string list) \<times> ('s, 'a) goctopus" where
  "get_keys S g = (let (r, s) = st_GetKeys S (store g) in (r, g\<lparr>store := s\<rparr>))"

definition storageKeysMatching :: "'s Storage \<Rightarrow> string \<Rightarrow> ('s, 'a) goctopus \<Rightarrow>
    string list \<times> ('s, 'a) goctopus" where
  "storageKeysMatching S pattern g =
     (let (r, g1) = get_keys S g in
      case r of Inl e \<Rightarrow> ([], g1) | Inr keys \<Rightarrow> (filter (keyMatches pattern) keys, g1))"

subsection \<open>Delivery\<close>

definition clientsForKey :: "range_order \<Rightarrow> string \<Rightarrow> ('s, 'a) goctopus \<Rightarrow> cid list" where
  "clientsForKey ord key g =
     fold (\<lambda>pattern out. if keyMatches pattern key then add_new out (gm_list (Conns g) pattern) else out)
       (ord (gm_keys (patterns g))) (add_new [] (gm_list (Conns g) key))"

definition set_client :: "cid \<Rightarrow> client \<Rightarrow> ('s, 'a) goctopus \<Rightarrow> ('s, 'a) goctopus" where
  "set_client c cl g = g\<lparr>heap := (heap g)(c := cl)\<rparr>"

text \<open>The body of the inner loop: one message to one client.\<close>

definition send_one :: "send_env \<Rightarrow> nat \<Rightarrow> Message \<Rightarrow> string \<Rightarrow> string \<Rightarrow> cid \<Rightarrow>
    ('s, 'a) goctopus \<Rightarrow> ('s, 'a) goctopus" where
  "send_one E i m data key c g =
     (let (go, cl) = markInflight (msg_id m) key (heap g c) in
      if \<not> go then g
      else let (ok, cl1) = writeMessage (se_wnow E i c) (se_ok E i c) data cl in
        if \<not> ok then set_client c (close_client (clearInflight (msg_id m) cl1)) g
        else (set_client c cl1 g)
          \<lparr>delivery := delivery g @ [Duration_Seconds (time_Sub (se_since E i c) (date m))]\<rparr>)"

fun send_loop :: "externs \<Rightarrow> send_env \<Rightarrow> nat \<Rightarrow> string \<Rightarrow> cid list \<Rightarrow> Message list \<Rightarrow>
    ('s, 'a) goctopus \<Rightarrow> ('s, 'a) goctopus" where
  "send_loop X E i key clients [] g = g"
| "send_loop X E i key clients (m # ms) g =
     (if isExpired (se_now E i) m then send_loop X E (i + 1) key clients ms g
      else case marshal X m False of
        None \<Rightarrow> send_loop X E (i + 1) key clients ms g
      | Some data \<Rightarrow> send_loop X E (i + 1) key clients ms (fold (send_one E i m data key) clients g))"

definition sendMessages :: "'s Storage \<Rightarrow> externs \<Rightarrow> send_env \<Rightarrow> string \<Rightarrow>
    ('s, 'a) goctopus \<Rightarrow> ('s, 'a) goctopus" where
  "sendMessages S X E key g =
     (let clients = clientsForKey (se_ord E) key g in
      if clients = [] then g
      else let (r, g1) = getMsgQueue S key g in
        case r of
          Inl e \<Rightarrow> g1
        | Inr msgQueue \<Rightarrow> if msgQueue = [] then g1 else send_loop X E 0 key clients msgQueue g1)"

text \<open>\<^verbatim>\<open>sendMessages\<close> for a list of keys, one environment for each.\<close>

fun flush_keys :: "'s Storage \<Rightarrow> externs \<Rightarrow> (nat \<Rightarrow> send_env) \<Rightarrow> string list \<Rightarrow>
    ('s, 'a) goctopus \<Rightarrow> ('s, 'a) goctopus" where
  "flush_keys S X E [] g = g"
| "flush_keys S X E (k # ks) g = flush_keys S X (\<lambda>n. E (n + 1)) ks (sendMessages S X (E 0) k g)"

subsection \<open>Tasks\<close>

record task_env =
  te_hist :: "nat \<Rightarrow> time"
  te_send :: "nat \<Rightarrow> nat \<Rightarrow> send_env"

definition post_key :: "'s Storage \<Rightarrow> externs \<Rightarrow> time \<Rightarrow> send_env \<Rightarrow> Message \<Rightarrow> string \<Rightarrow>
    ('s, 'a) goctopus \<Rightarrow> ('s, 'a) goctopus" where
  "post_key S X now E m key g =
     (let mk = m\<lparr>Key := key\<rparr>;
          g1 = queueMessage S mk g;
          g2 = g1\<lparr>history := history_add now key mk (history g1)\<rparr>;
          g3 = notify S key g2
      in sendMessages S X E key g3)"

fun post_keys :: "'s Storage \<Rightarrow> externs \<Rightarrow> task_env \<Rightarrow> nat \<Rightarrow> Message \<Rightarrow> string list \<Rightarrow>
    ('s, 'a) goctopus \<Rightarrow> ('s, 'a) goctopus" where
  "post_keys S X T i m [] g = g"
| "post_keys S X T i m (k # ks) g =
     post_keys S X T (i + 1) m ks (post_key S X (te_hist T i) (te_send T i 0) m k g)"

fun connect_keys :: "'s Storage \<Rightarrow> externs \<Rightarrow> task_env \<Rightarrow> nat \<Rightarrow> string list \<Rightarrow>
    ('s, 'a) goctopus \<Rightarrow> ('s, 'a) goctopus" where
  "connect_keys S X T i [] g = g"
| "connect_keys S X T i (k # ks) g =
     connect_keys S X T (i + 1) ks
       (if hasWildcard k then (let (sks, g1) = storageKeysMatching S k g in flush_keys S X (te_send T i) sks g1)
        else sendMessages S X (te_send T i 0) k g)"

fun run_task :: "'s Storage \<Rightarrow> externs \<Rightarrow> task_env \<Rightarrow> task \<Rightarrow> ('s, 'a) goctopus \<Rightarrow> ('s, 'a) goctopus" where
  "run_task S X T (FlushTask key) g = sendMessages S X (te_send T 0 0) key g"
| "run_task S X T (PostTask m keys) g = post_keys S X T 0 m keys g"
| "run_task S X T (ConnectTask keys) g = connect_keys S X T 0 keys g"

text \<open>A worker takes the oldest task of the queue; an overflow task runs on its own.\<close>

definition worker :: "'s Storage \<Rightarrow> externs \<Rightarrow> task_env \<Rightarrow> ('s, 'a) goctopus \<Rightarrow> ('s, 'a) goctopus" where
  "worker S X T g = (case work g of [] \<Rightarrow> g | t # ts \<Rightarrow> run_task S X T t (g\<lparr>work := ts\<rparr>))"

definition run_spawned :: "'s Storage \<Rightarrow> externs \<Rightarrow> task_env \<Rightarrow> nat \<Rightarrow> ('s, 'a) goctopus \<Rightarrow> ('s, 'a) goctopus" where
  "run_spawned S X T n g =
     (if n < length (spawned g)
      then run_task S X T (spawned g ! n) (g\<lparr>spawned := take n (spawned g) @ drop (n + 1) (spawned g)\<rparr>)
      else g)"

subsection \<open>Background loops\<close>

text \<open>One tick of \<^verbatim>\<open>reconcileLoop\<close>. \<open>ord1\<close> and \<open>ord2\<close> are the orders of its two ranges
  over maps.\<close>

fun match_patterns :: "'s Storage \<Rightarrow> string list \<Rightarrow> ('s, 'a) goctopus \<Rightarrow> string list \<times> ('s, 'a) goctopus" where
  "match_patterns S [] g = ([], g)"
| "match_patterns S (p # ps) g =
     (let (ks, g1) = storageKeysMatching S p g; (ks', g2) = match_patterns S ps g1 in (ks @ ks', g2))"

definition reconcile :: "'s Storage \<Rightarrow> externs \<Rightarrow> range_order \<Rightarrow> range_order \<Rightarrow> (nat \<Rightarrow> send_env) \<Rightarrow>
    ('s, 'a) goctopus \<Rightarrow> ('s, 'a) goctopus" where
  "reconcile S X ord1 ord2 E g =
     (if ReconcileInterval (config g) \<le> 0 then g
      else let ks = ord1 (gm_keys (Conns g));
               concrete = filter (\<lambda>k. \<not> hasWildcard k) ks; pats = filter hasWildcard ks;
               (sks, g1) = match_patterns S pats g
           in flush_keys S X E (ord2 (add_new [] (concrete @ sks))) g1)"

fun sweep_loop :: "'s Storage \<Rightarrow> (nat \<Rightarrow> time) \<Rightarrow> nat \<Rightarrow> string \<Rightarrow> Message list \<Rightarrow> nat \<Rightarrow>
    ('s, 'a) goctopus \<Rightarrow> nat \<times> ('s, 'a) goctopus" where
  "sweep_loop S now i key [] removed g = (removed, g)"
| "sweep_loop S now i key (m # ms) removed g =
     (if isExpired (now i) m
      then sweep_loop S now (i + 1) key ms (removed + 1) (snd (deleteMsgById S key (msg_id m) g))
      else sweep_loop S now (i + 1) key ms removed g)"

definition sweepKey :: "'s Storage \<Rightarrow> (nat \<Rightarrow> time) \<Rightarrow> string \<Rightarrow> ('s, 'a) goctopus \<Rightarrow> ('s, 'a) goctopus" where
  "sweepKey S now key g =
     (let (r, g1) = getMsgQueue S key g in
      case r of
        Inl e \<Rightarrow> g1
      | Inr queue \<Rightarrow>
          (let (removed, g2) = sweep_loop S now 0 key queue 0 g1 in
           if removed = 0 then g2 else g2\<lparr>expired := expired g2 + removed\<rparr>))"

fun sweep_keys :: "'s Storage \<Rightarrow> (nat \<Rightarrow> nat \<Rightarrow> time) \<Rightarrow> nat \<Rightarrow> string list \<Rightarrow>
    ('s, 'a) goctopus \<Rightarrow> ('s, 'a) goctopus" where
  "sweep_keys S now i [] g = g"
| "sweep_keys S now i (k # ks) g = sweep_keys S now (i + 1) ks (sweepKey S (now i) k g)"

definition sweepExpired :: "'s Storage \<Rightarrow> (nat \<Rightarrow> nat \<Rightarrow> time) \<Rightarrow> time \<Rightarrow>
    ('s, 'a) goctopus \<Rightarrow> ('s, 'a) goctopus" where
  "sweepExpired S now pnow g =
     (let (r, g1) = get_keys S g in
      case r of
        Inl e \<Rightarrow> g1
      | Inr keys \<Rightarrow>
          (let g2 = sweep_keys S now 0 keys g1 in g2\<lparr>history := history_purge pnow (history g2)\<rparr>))"

definition Stop :: "('s, 'a) goctopus \<Rightarrow> ('s, 'a) goctopus" where
  "Stop g =
     (let g1 = g\<lparr>cancelled := True\<rparr> in
      fold (\<lambda>c g. set_client c (close_client (heap g c)) g) (concat (map snd (Conns g1))) g1)"

subsection \<open>Views\<close>

definition json_text :: "externs \<Rightarrow> json \<Rightarrow> error + string" where
  "json_text X j = (case json_encode X j of None \<Rightarrow> Inl ''json'' | Some b \<Rightarrow> Inr b)"

text \<open>\<^verbatim>\<open>json.Marshal\<close> of a slice of maps.\<close>

definition maps_text :: "externs \<Rightarrow> (string, gval) gomap list \<Rightarrow> error + string" where
  "maps_text X ms =
     (let js = map (map_json X) ms in
      if None \<in> set js then Inl ''json'' else json_text X (JArr (map the js)))"

definition getMarshalledKeys :: "'s Storage \<Rightarrow> externs \<Rightarrow> ('s, 'a) goctopus \<Rightarrow>
    (error + string) \<times> ('s, 'a) goctopus" where
  "getMarshalledKeys S X g =
     (let (r, g1) = get_keys S g in
      case r of Inl e \<Rightarrow> (Inl e, g1) | Inr keys \<Rightarrow>
          (json_text X (if keys = [] \<and> st_NilKeys S then JNull else JArr (map JStr keys)), g1))"

definition getMarshalledMessages :: "'s Storage \<Rightarrow> externs \<Rightarrow> (nat \<Rightarrow> time) \<Rightarrow> string \<Rightarrow>
    ('s, 'a) goctopus \<Rightarrow> (error + string) \<times> ('s, 'a) goctopus" where
  "getMarshalledMessages S X now key g =
     (let (r, g1) = getMsgQueue S key g in
      case r of
        Inl e \<Rightarrow> (Inl (''could not get list of keys for '' @ key), g1)
      | Inr q \<Rightarrow>
          (maps_text X (map (\<lambda>(i, m). toMap m True)
             (filter (\<lambda>(i, m). \<not> isExpired (now i) m) (enumerate 0 q))), g1))"

definition engines_ok :: "(storage_kind \<Rightarrow> Config \<Rightarrow> error + 's) \<Rightarrow> (authorizer_kind \<Rightarrow> Config \<Rightarrow> error + 'a) \<Rightarrow> Config \<Rightarrow> bool" where
  "engines_ok initS initA cfg \<longleftrightarrow>
     (\<exists>ks s. map_of Storages (ToLower (StorageEngine cfg)) = Some ks \<and> initS ks cfg = Inr s) \<and>
     (\<exists>ka a. map_of Authorizers (ToLower (AuthorizerEngine cfg)) = Some ka \<and> initA ka cfg = Inr a)"

text \<open>\<^verbatim>\<open>Start\<close> panics exactly if an engine name is unknown, an engine does not
  initialise or there are no workers; otherwise the gateway starts empty, with room for at least 256
  tasks, and with a rate limiter and a history exactly if they are configured.\<close>

lemma start_outcome:
  "case Start initS initA cfg of
     Inl e \<Rightarrow> \<not> (engines_ok initS initA cfg \<and> 0 < Workers cfg)
   | Inr g \<Rightarrow> engines_ok initS initA cfg \<and> 0 < Workers cfg \<and> config g = cfg \<and>
       Conns g = [] \<and> patterns g = [] \<and> work g = [] \<and> spawned g = [] \<and> \<not> cancelled g \<and> 256 \<le> work_cap g \<and>
       (limiter g \<noteq> None \<longleftrightarrow> f_gt (RateLimit cfg) (Fin 0)) \<and> (history g \<noteq> None \<longleftrightarrow> 0 < HistorySize cfg)"
  by (auto simp: Start_def getStorage_def getAuthorizer_def engines_ok_def split: option.splits sum.splits)

end
