(* ===== verification/Delivery.thy ===== *)
theory Delivery
  imports Engine
begin

text \<open>
  What a flush of one key does (\<^verbatim>\<open>sendMessages\<close> of \<^verbatim>\<open>src/engine.go\<close>):
  to each client separately, to the registry and storage (nothing), and the exact frames each
  client receives, with write failures anywhere.
\<close>

subsection \<open>The flush seen by one client\<close>

definition deliver_one :: "send_env \<Rightarrow> nat \<Rightarrow> Message \<Rightarrow> string \<Rightarrow> string \<Rightarrow> cid \<Rightarrow> client \<Rightarrow> client" where
  "deliver_one E i m data key c cl =
     (let (go, cl0) = markInflight (msg_id m) key cl in
      if \<not> go then cl
      else let (ok, cl1) = writeMessage (se_wnow E i c) (se_ok E i c) data cl0 in
        if ok then cl1 else close_client (clearInflight (msg_id m) cl1))"

fun deliver :: "externs \<Rightarrow> send_env \<Rightarrow> nat \<Rightarrow> string \<Rightarrow> cid \<Rightarrow> Message list \<Rightarrow> client \<Rightarrow> client" where
  "deliver X E i key c [] cl = cl"
| "deliver X E i key c (m # ms) cl =
     deliver X E (i + 1) key c ms
       (if isExpired (se_now E i) m then cl
        else case marshal X m False of None \<Rightarrow> cl | Some data \<Rightarrow> deliver_one E i m data key c cl)"

lemma send_one_heap [simp]:
  "heap (send_one E i m data key c g) = (heap g)(c := deliver_one E i m data key c (heap g c))"
  by (auto simp: send_one_def deliver_one_def set_client_def markInflight_def writeMessage_def Let_def)

lemma send_fold_heap:
  "distinct cs \<Longrightarrow> heap (fold (send_one E i m data key) cs g) x =
     (if x \<in> set cs then deliver_one E i m data key x (heap g x) else heap g x)"
  by (induction cs arbitrary: g) auto

lemma send_loop_heap:
  "distinct cs \<Longrightarrow> heap (send_loop X E i key cs ms g) x =
     (if x \<in> set cs then deliver X E i key x ms (heap g x) else heap g x)"
  by (induction ms arbitrary: i g) (auto simp: send_fold_heap split: option.splits)

text \<open>A flush changes nothing but the heap and the delivery histogram; reading the queue may change
  the backend's state.\<close>

definition flush_frame :: "('s, 'a) goctopus \<Rightarrow> ('s, 'a) goctopus \<Rightarrow> bool" where
  "flush_frame g g' \<longleftrightarrow> g' = g\<lparr>store := store g', heap := heap g', delivery := delivery g'\<rparr>"

lemma flush_frame_refl [simp]: "flush_frame g g"
  by (simp add: flush_frame_def)

lemma flush_frame_trans: "flush_frame g1 g2 \<Longrightarrow> flush_frame g2 g3 \<Longrightarrow> flush_frame g1 g3"
  by (cases g1; cases g2; cases g3) (simp add: flush_frame_def)

lemma flush_frame_store [simp]: "flush_frame g (g\<lparr>store := s\<rparr>)"
  by (simp add: flush_frame_def)

lemma flush_frameD:
  assumes "flush_frame g g'"
  shows "Conns g' = Conns g" "patterns g' = patterns g" "authz g' = authz g" "next_cid g' = next_cid g"
    "config g' = config g" "limiter g' = limiter g" "history g' = history g" "work g' = work g"
    "work_cap g' = work_cap g" "spawned g' = spawned g" "cancelled g' = cancelled g"
    "received g' = received g" "delivered g' = delivered g" "expired g' = expired g"
    "authFail g' = authFail g" "keysVal g' = keysVal g" "keysAt g' = keysAt g"
  using assms by (cases g; cases g'; simp add: flush_frame_def)+

lemma send_one_frame: "flush_frame g (send_one E i m data key c g)" "store (send_one E i m data key c g) = store g"
  by (auto simp: flush_frame_def send_one_def set_client_def Let_def split: prod.splits)

lemma send_fold_frame:
  "flush_frame g (fold (send_one E i m data key) cs g)" "store (fold (send_one E i m data key) cs g) = store g"
  by (induction cs arbitrary: g) (auto simp: send_one_frame(2) intro: flush_frame_trans [OF send_one_frame(1)])

lemma send_loop_frame:
  "flush_frame g (send_loop X E i key cs ms g)" "store (send_loop X E i key cs ms g) = store g"
  by (induction ms arbitrary: i g)
     (auto simp: send_fold_frame(2) split: option.splits intro: flush_frame_trans [OF send_fold_frame(1)])

lemma sendMessages_frame: "flush_frame g (sendMessages S X E key g)"
  by (auto simp: sendMessages_def getMsgQueue_def Let_def split: prod.splits sum.splits
      intro: flush_frame_trans [OF flush_frame_store send_loop_frame(1)])

lemma sendMessages_store:
  "store (sendMessages S X E key g) \<in> {store g, snd (st_GetQueue S key (store g))}"
  by (auto simp: sendMessages_def getMsgQueue_def send_loop_frame Let_def split: prod.splits sum.splits)

lemma flush_keys_frame: "flush_frame g (flush_keys S X E ks g)"
  by (induction ks arbitrary: E g) (auto intro: flush_frame_trans [OF sendMessages_frame])

subsection \<open>The clients of a key\<close>

lemma clients_fold:
  "set (fold (\<lambda>p out. if P p then add_new out (f p) else out) ps out) =
     set out \<union> (\<Union>p \<in> {p \<in> set ps. P p}. set (f p))"
  "distinct out \<Longrightarrow> distinct (fold (\<lambda>p out. if P p then add_new out (f p) else out) ps out)"
  by (induction ps arbitrary: out) auto

lemma clients_distinct: "distinct (clientsForKey ord key g)"
  by (simp add: clientsForKey_def clients_fold)

lemma clients_set:
  "range_order_ok ord \<Longrightarrow> set (clientsForKey ord key g) =
     set (gm_list (Conns g) key) \<union>
     (\<Union>p \<in> {p \<in> set (gm_keys (patterns g)). keyMatches p key}. set (gm_list (Conns g) p))"
  by (simp add: clientsForKey_def clients_fold range_order_set)

subsection \<open>Exact delivery\<close>

text \<open>The messages of a queue (from position \<open>i\<close>) that a flush attempts for a client: not expired,
  representable, and not in flight on that connection.\<close>

fun pending :: "externs \<Rightarrow> send_env \<Rightarrow> client \<Rightarrow> nat \<Rightarrow> Message list \<Rightarrow> (nat \<times> Message \<times> string) list" where
  "pending X E cl i [] = []"
| "pending X E cl i (m # ms) =
     (if isExpired (se_now E i) m \<or> inflight cl (msg_id m) \<noteq> None then pending X E cl (i + 1) ms
      else case marshal X m False of
        None \<Rightarrow> pending X E cl (i + 1) ms
      | Some data \<Rightarrow> (i, m, data) # pending X E cl (i + 1) ms)"

definition sent :: "externs \<Rightarrow> send_env \<Rightarrow> cid \<Rightarrow> client \<Rightarrow> Message list \<Rightarrow> (nat \<times> Message \<times> string) list" where
  "sent X E c cl ms = takeWhile (\<lambda>(i, m, data). se_ok E i c) (pending X E cl 0 ms)"

lemma deliver_closed: "is_closed cl \<Longrightarrow> deliver X E i key c ms cl = cl"
proof (induction ms arbitrary: i)
  case (Cons m ms)
  then have "deliver_one E i m data key c cl = cl" for data by (simp add: deliver_one_def markInflight_def)
  with Cons show ?case by (auto split: option.splits)
qed simp

lemma pending_cong:
  "(\<forall>m \<in> set ms. inflight cl (msg_id m) = inflight cl' (msg_id m)) \<Longrightarrow> pending X E cl i ms = pending X E cl' i ms"
  by (induction ms arbitrary: i) (auto split: option.splits)

lemma deliver_one_sent:
  assumes "\<not> is_closed cl" and "inflight cl (msg_id m) = None" and "se_ok E i c"
  shows "wire (deliver_one E i m data key c cl) = wire cl @ [TextFrame (compress cl) data]"
    and "inflight (deliver_one E i m data key c cl) = (inflight cl)(msg_id m \<mapsto> key)"
    and "\<not> is_closed (deliver_one E i m data key c cl)"
    and "ckeys (deliver_one E i m data key c cl) = ckeys cl"
    and "compress (deliver_one E i m data key c cl) = compress cl"
  using assms by (auto simp: deliver_one_def markInflight_def writeMessage_def Let_def frame_simps)

lemma deliver_one_failed:
  assumes "\<not> is_closed cl" and "inflight cl (msg_id m) = None" and "\<not> se_ok E i c"
  shows "wire (deliver_one E i m data key c cl) = wire cl"
    and "inflight (deliver_one E i m data key c cl) = inflight cl"
    and "is_closed (deliver_one E i m data key c cl)"
    and "ckeys (deliver_one E i m data key c cl) = ckeys cl"
    and "compress (deliver_one E i m data key c cl) = compress cl"
  using assms by (auto simp: deliver_one_def markInflight_def writeMessage_def Let_def frame_simps
      clearInflight_def close_client_def fun_upd_idem)

lemma deliver_one_skip: "inflight cl (msg_id m) \<noteq> None \<Longrightarrow> deliver_one E i m data key c cl = cl"
  by (auto simp: deliver_one_def markInflight_def)

definition sent_ids :: "(nat \<times> Message \<times> string) list \<Rightarrow> uuid set" where
  "sent_ids s = (\<lambda>(i, m, data). msg_id m) ` set s"

definition frames :: "bool \<Rightarrow> (nat \<times> Message \<times> string) list \<Rightarrow> frame list" where
  "frames cmpr s = map (\<lambda>(i, m, data). TextFrame cmpr data) s"

lemma deliver_exact:
  assumes "distinct (map msg_id ms)" and "\<not> is_closed cl"
    and "p = pending X E cl i ms" and "s = takeWhile (\<lambda>(i, m, data). se_ok E i c) p"
  shows "wire (deliver X E i key c ms cl) = wire cl @ frames (compress cl) s \<and>
         inflight (deliver X E i key c ms cl) = (\<lambda>u. if u \<in> sent_ids s then Some key else inflight cl u) \<and>
         (is_closed (deliver X E i key c ms cl) \<longleftrightarrow> s \<noteq> p) \<and>
         ckeys (deliver X E i key c ms cl) = ckeys cl \<and>
         compress (deliver X E i key c ms cl) = compress cl"
  using assms
proof (induction ms arbitrary: i cl p s)
  case Nil
  then show ?case by (simp add: frames_def sent_ids_def)
next
  case (Cons m ms)
  have d: "distinct (map msg_id ms)" using Cons.prems(1) by simp
  show ?case
  proof (cases "isExpired (se_now E i) m \<or> inflight cl (msg_id m) \<noteq> None \<or> marshal X m False = None")
    case True
    then have "deliver X E i key c (m # ms) cl = deliver X E (i + 1) key c ms cl"
      and "p = pending X E cl (i + 1) ms"
      using Cons.prems(3) deliver_one_skip by (auto split: option.splits)
    then show ?thesis using Cons.IH [OF d Cons.prems(2) _ Cons.prems(4), of "i + 1"] by simp
  next
    case False
    then obtain data where e: "\<not> isExpired (se_now E i) m" and n: "inflight cl (msg_id m) = None"
      and data: "marshal X m False = Some data" by auto
    have p: "p = (i, m, data) # pending X E cl (i + 1) ms" using Cons.prems(3) e n data by simp
    let ?cl = "deliver_one E i m data key c cl"
    show ?thesis
    proof (cases "se_ok E i c")
      case True
      note o = deliver_one_sent [OF Cons.prems(2) n True, of data key]
      have "pending X E ?cl (i + 1) ms = pending X E cl (i + 1) ms"
        using Cons.prems(1) by (intro pending_cong) (metis distinct.simps(2) fun_upd_other image_eqI list.set_map list.simps(9) o(2))
      from Cons.IH [OF d o(3) refl refl, of "i + 1", unfolded this] show ?thesis
        using True e data p Cons.prems(4) unfolding o
        by (auto simp: frames_def sent_ids_def fun_eq_iff)
    next
      case False
      note o = deliver_one_failed [OF Cons.prems(2) n False, of data key]
      have "s = []" using False p Cons.prems(4) by simp
      then show ?thesis using e data p deliver_closed [OF o(3)] by (simp add: o frames_def sent_ids_def)
    qed
  qed
qed

end
