(* ===== verification/Sessions.thy ===== *)
theory Sessions
  imports Delivery
begin

text \<open>
  The life of a connection (\<^verbatim>\<open>handleWs\<close> after the handshake in
  \<^verbatim>\<open>src/server.go\<close>; \<^verbatim>\<open>readLoop\<close>, \<^verbatim>\<open>handleAck\<close>,
  \<^verbatim>\<open>pingLoop\<close> and \<^verbatim>\<open>removeClient\<close> in
  \<^verbatim>\<open>src/client.go\<close>) and the registry invariant.
\<close>

subsection \<open>Registering\<close>

text \<open>The loop under \<^verbatim>\<open>g.mu\<close> in \<^verbatim>\<open>handleWs\<close>.\<close>

definition register_key :: "cid \<Rightarrow> string \<Rightarrow> ('s, 'a) goctopus \<Rightarrow> ('s, 'a) goctopus" where
  "register_key c key g =
     g\<lparr>Conns := gm_put key (gm_list (Conns g) key @ [c]) (Conns g),
       patterns := (if hasWildcard key then gm_put key True (patterns g) else patterns g)\<rparr>"

text \<open>From \<^verbatim>\<open>newClient\<close> to the end of \<^verbatim>\<open>handleWs\<close>. The two goroutines it
  starts, \<^verbatim>\<open>readLoop\<close> and \<^verbatim>\<open>pingLoop\<close>, are the step functions below.\<close>

definition accept_conn :: "string list \<Rightarrow> bool \<Rightarrow> ('s, 'a) goctopus \<Rightarrow> ('s, 'a) goctopus" where
  "accept_conn keys cmpr g =
     (let c = next_cid g;
          g1 = (set_client c (newClient keys (WriteTimeout (config g)) cmpr) g)\<lparr>next_cid := c + 1\<rparr>;
          g2 = fold (register_key c) keys g1
      in schedule (ConnectTask keys) g2)"

subsection \<open>Unregistering\<close>

definition unregister_key :: "cid \<Rightarrow> string \<Rightarrow> ('s, 'a) goctopus \<Rightarrow> ('s, 'a) goctopus" where
  "unregister_key c key g =
     (let live = filter (\<lambda>x. x \<noteq> c) (gm_list (Conns g) key) in
      if live = [] then g\<lparr>Conns := gm_del key (Conns g), patterns := gm_del key (patterns g)\<rparr>
      else g\<lparr>Conns := gm_put key live (Conns g)\<rparr>)"

definition removeClient :: "cid \<Rightarrow> ('s, 'a) goctopus \<Rightarrow> ('s, 'a) goctopus" where
  "removeClient c g =
     (let g1 = set_client c (close_client (heap g c)) g in
      fold (unregister_key c) (ckeys (heap g1 c)) g1)"

subsection \<open>Acknowledgements\<close>

text \<open>The id in an ACK frame: the payload is an object whose member \<^verbatim>\<open>id\<close> (the last
  one, if repeated) is a string that parses as a UUID.\<close>

definition ack_id :: "externs \<Rightarrow> string \<Rightarrow> uuid option" where
  "ack_id X payload =
     (case json_decode X payload of
        Some (JObj kvs) \<Rightarrow>
          (if nums_fit (JObj kvs)
           then case map_of (dedup_last kvs) ''id'' of Some (JStr s) \<Rightarrow> uuid_Parse X s | _ \<Rightarrow> None
           else None)
      | _ \<Rightarrow> None)"

definition handleAck :: "'s Storage \<Rightarrow> externs \<Rightarrow> cid \<Rightarrow> string \<Rightarrow> ('s, 'a) goctopus \<Rightarrow> ('s, 'a) goctopus" where
  "handleAck S X c payload g =
     (case ack_id X payload of
        None \<Rightarrow> g
      | Some i \<Rightarrow>
          (let (k, cl) = takeInflight i (heap g c);
               g1 = set_client c cl g;
               g2 = (case k of None \<Rightarrow> g1 | Some key \<Rightarrow> snd (deleteMsgById S key i g1))
           in g2\<lparr>delivered := delivered g2 + 1\<rparr>))"

subsection \<open>The read loop\<close>

datatype opcode = OpText | OpBinary | OpPing | OpPong | OpClose | OpOther

text \<open>What the websocket library gives for the next message: an error, or an opcode, whether the
  compression bit was set, the bytes, and whether reading fails after them.\<close>

datatype inbound = FrameErr | Inbound opcode bool string bool

text \<open>\<^verbatim>\<open>io.ReadAll(io.LimitReader(r, n))\<close>: at most \<open>n\<close> bytes; an error is only met when
  the limit is not reached first.\<close>

definition limit_read :: "int \<Rightarrow> string \<times> bool \<Rightarrow> string option" where
  "limit_read n r =
     (let (bs, fails) = r in
      if int (length bs) < n \<and> fails then None else Some (take (nat n) bs))"

definition deflateTail :: string where
  "deflateTail = [CHR 0x00, CHR 0x00, CHR 0xFF, CHR 0xFF]"

text \<open>\<open>flate\<close> stands for \<^verbatim>\<open>compress/flate\<close>: the bytes a stream decompresses to, and
  whether it then fails.\<close>

definition inflate :: "(string \<Rightarrow> string \<times> bool) \<Rightarrow> string \<Rightarrow> int \<Rightarrow> string option" where
  "inflate flate b mx = limit_read (int64 (mx + 1)) (flate (b @ deflateTail))"

text \<open>The first half of an iteration: the opcode and the payload of the next message, \<open>None\<close> when the
  loop returns. The limits apply to the bytes on the wire and again after decompression.\<close>

definition read_message :: "(string \<Rightarrow> string \<times> bool) \<Rightarrow> int \<Rightarrow> bool \<Rightarrow> inbound \<Rightarrow> (opcode \<times> string) option" where
  "read_message flate mx cmpr inb =
     (case inb of
        FrameErr \<Rightarrow> None
      | Inbound opc cmpd bs fails \<Rightarrow>
          (case limit_read (int64 (mx + 1)) (bs, fails) of
             None \<Rightarrow> None
           | Some payload \<Rightarrow>
               if int (length payload) > mx then None
               else if cmpr \<and> cmpd then
                 (case inflate flate payload mx of
                    None \<Rightarrow> None
                  | Some p \<Rightarrow> if int (length p) > mx then None else Some (opc, p))
               else Some (opc, payload)))"

text \<open>One iteration: whether the loop goes on. \<open>now\<close> and \<open>ok\<close> are for the pong write.\<close>

definition readLoop_body :: "'s Storage \<Rightarrow> externs \<Rightarrow> (string \<Rightarrow> string \<times> bool) \<Rightarrow> time \<Rightarrow> bool \<Rightarrow>
    inbound \<Rightarrow> cid \<Rightarrow> ('s, 'a) goctopus \<Rightarrow> bool \<times> ('s, 'a) goctopus" where
  "readLoop_body S X flate now ok inb c g =
     (case read_message flate (MaxMessageBytes (config g)) (compress (heap g c)) inb of
        None \<Rightarrow> (False, g)
      | Some (opc, p) \<Rightarrow>
          (case opc of
             OpText \<Rightarrow> (True, handleAck S X c p g)
           | OpBinary \<Rightarrow> (True, handleAck S X c p g)
           | OpPing \<Rightarrow> (let (r, cl) = writePong now ok p (heap g c) in (r, set_client c cl g))
           | OpClose \<Rightarrow> (False, g)
           | _ \<Rightarrow> (True, g)))"

text \<open>With the deferred \<^verbatim>\<open>removeClient\<close> when the loop returns.\<close>

definition readLoop_step :: "'s Storage \<Rightarrow> externs \<Rightarrow> (string \<Rightarrow> string \<times> bool) \<Rightarrow> time \<Rightarrow> bool \<Rightarrow>
    inbound \<Rightarrow> cid \<Rightarrow> ('s, 'a) goctopus \<Rightarrow> bool \<times> ('s, 'a) goctopus" where
  "readLoop_step S X flate now ok inb c g =
     (let (goes_on, g1) = readLoop_body S X flate now ok inb c g in
      if goes_on then (True, g1) else (False, removeClient c g1))"

subsection \<open>The ping loop\<close>

datatype ping_event = ConnDone | CtxDone | Tick time bool

definition pingLoop_step :: "ping_event \<Rightarrow> cid \<Rightarrow> ('s, 'a) goctopus \<Rightarrow> bool \<times> ('s, 'a) goctopus" where
  "pingLoop_step ev c g =
     (case ev of
        ConnDone \<Rightarrow> (False, g)
      | CtxDone \<Rightarrow> (False, set_client c (close_client (heap g c)) g)
      | Tick now ok \<Rightarrow>
          (let (r, cl) = writePing now ok (heap g c) in
           if r then (True, set_client c cl g) else (False, set_client c (close_client cl) g)))"

text \<open>C35: What the read loop takes for a frame: for every limit below the largest int64, a message is taken if
  and only if it arrives whole and is no longer than the limit, and a compressed one if also what it
  decompresses to is whole and no longer than the limit; then its bytes are exactly these, never a
  truncation.\<close>

theorem read_message_exact:
  assumes "0 \<le> mx" and "mx < 2 ^ 63 - 1"
  shows "read_message flate mx cmpr (Inbound opc cmpd bs fails) =
    (if fails \<or> mx < int (length bs) then None
     else if cmpr \<and> cmpd then
       (let (p, bad) = flate (bs @ deflateTail) in if bad \<or> mx < int (length p) then None else Some (opc, p))
     else Some (opc, bs))"
proof -
  have i: "int64 (mx + 1) = mx + 1" using assms by (intro int64_id) auto
  have l: "limit_read (mx + 1) (s, bad) =
      (if mx < int (length s) then Some (take (nat (mx + 1)) s) else if bad then None else Some s)" for s bad
    by (auto simp: limit_read_def)
  have t: "mx < int (length s) \<Longrightarrow> mx < int (length (take (nat (mx + 1)) s))" for s :: string
    using assms(1) by (simp add: min_def)
  show ?thesis
    by (cases "flate (bs @ deflateTail)") (auto simp: read_message_def inflate_def i l dest: t)
qed

theorem read_message_exact_witness:
  "read_message (\<lambda>b. (''abc'', False)) 3 True (Inbound OpText True ''z'' False) = Some (OpText, ''abc'') \<and>
   read_message (\<lambda>b. (''abcd'', False)) 3 True (Inbound OpText True ''z'' False) = None"
  using read_message_exact [of 3 "\<lambda>b. (''abc'', False)" True OpText True "''z''" False]
    read_message_exact [of 3 "\<lambda>b. (''abcd'', False)" True OpText True "''z''" False] by simp

text \<open>At the largest int64 the limit plus one wraps to a negative number and every payload reads as empty.\<close>

lemma read_message_overflow:
  "read_message flate (2 ^ 63 - 1) False (Inbound opc cmpd bs False) = Some (opc, [])"
  by (simp add: read_message_def limit_read_def int64_def)

end
