(* ===== verification/Registry.thy ===== *)
theory Registry
  imports Sessions
begin

text \<open>
  The connection registry (\<^verbatim>\<open>Conns\<close> and \<^verbatim>\<open>patterns\<close>): its invariant,
  what registering and unregistering do to it, and who receives a message published to a key.
\<close>

text \<open>
  No key has an empty list of clients; the patterns are exactly the wildcard keys that have one; a
  registered client was created and stands under all of its keys and no other.
\<close>

definition reg_ok :: "('s, 'a) goctopus \<Rightarrow> bool" where
  "reg_ok g \<longleftrightarrow> gm_ok (Conns g) \<and> gm_ok (patterns g) \<and>
     (\<forall>k. gm_get (Conns g) k \<noteq> Some []) \<and>
     (\<forall>k. k \<in> set (gm_keys (patterns g)) \<longleftrightarrow> hasWildcard k \<and> gm_list (Conns g) k \<noteq> []) \<and>
     (\<forall>k c. c \<in> set (gm_list (Conns g) k) \<longrightarrow>
        c < next_cid g \<and> k \<in> set (ckeys (heap g c)) \<and>
        (\<forall>k' \<in> set (ckeys (heap g c)). c \<in> set (gm_list (Conns g) k')))"

lemma reg_okI:
  assumes "gm_ok (Conns g)" and "gm_ok (patterns g)" and "\<forall>k. gm_get (Conns g) k \<noteq> Some []"
    and "\<And>k. k \<in> set (gm_keys (patterns g)) \<longleftrightarrow> hasWildcard k \<and> gm_list (Conns g) k \<noteq> []"
    and "\<And>k c. c \<in> set (gm_list (Conns g) k) \<Longrightarrow> c < next_cid g"
    and "\<And>k c. c \<in> set (gm_list (Conns g) k) \<Longrightarrow> k \<in> set (ckeys (heap g c))"
    and "\<And>k c k'. c \<in> set (gm_list (Conns g) k) \<Longrightarrow> k' \<in> set (ckeys (heap g c)) \<Longrightarrow>
           c \<in> set (gm_list (Conns g) k')"
  shows "reg_ok g"
  unfolding reg_ok_def using assms by blast

lemma reg_okD:
  assumes "reg_ok g"
  shows "gm_ok (Conns g)" and "gm_ok (patterns g)" and "\<forall>k. gm_get (Conns g) k \<noteq> Some []"
    and "k \<in> set (gm_keys (patterns g)) \<longleftrightarrow> hasWildcard k \<and> gm_list (Conns g) k \<noteq> []"
    and "c \<in> set (gm_list (Conns g) k) \<Longrightarrow> c < next_cid g"
    and "c \<in> set (gm_list (Conns g) k) \<Longrightarrow> k \<in> set (ckeys (heap g c))"
    and "c \<in> set (gm_list (Conns g) k) \<Longrightarrow> k' \<in> set (ckeys (heap g c)) \<Longrightarrow> c \<in> set (gm_list (Conns g) k')"
  using assms unfolding reg_ok_def by blast+

definition registered :: "('s, 'a) goctopus \<Rightarrow> cid \<Rightarrow> bool" where
  "registered g c \<longleftrightarrow> (\<exists>k. c \<in> set (gm_list (Conns g) k))"

lemma reg_ok_cong:
  assumes "Conns g' = Conns g" and "patterns g' = patterns g" and "next_cid g \<le> next_cid g'"
    and "\<And>c. c < next_cid g \<Longrightarrow> ckeys (heap g' c) = ckeys (heap g c)" and "reg_ok g"
  shows "reg_ok g'"
  using assms unfolding reg_ok_def by (metis order_less_le_trans)

lemma reg_ok_client: "reg_ok g \<Longrightarrow> ckeys cl = ckeys (heap g c) \<Longrightarrow> reg_ok (set_client c cl g)"
  by (rule reg_ok_cong [of _ g]) (auto simp: set_client_def)

subsection \<open>Registering\<close>

lemma register_fields [simp]:
  "heap (fold (register_key c) ks g) = heap g" "next_cid (fold (register_key c) ks g) = next_cid g"
  "store (fold (register_key c) ks g) = store g"
  by (induction ks arbitrary: g) (auto simp: register_key_def)

lemma register_list:
  "gm_list (Conns (fold (register_key c) ks g)) k =
     gm_list (Conns g) k @ replicate (count_list ks k) c"
  by (induction ks arbitrary: g)
     (auto simp: register_key_def gomap_simps replicate_append_same simp flip: replicate_app_Cons_same)

lemma register_set:
  "set (gm_list (Conns (fold (register_key c) ks g)) k) =
     set (gm_list (Conns g) k) \<union> (if k \<in> set ks then {c} else {})"
  by (auto simp: register_list count_list_0_iff)

lemma register_maps:
  "gm_ok (Conns g) \<Longrightarrow> gm_ok (Conns (fold (register_key c) ks g))"
  "gm_ok (patterns g) \<Longrightarrow> gm_ok (patterns (fold (register_key c) ks g))"
  "\<forall>k. gm_get (Conns g) k \<noteq> Some [] \<Longrightarrow> gm_get (Conns (fold (register_key c) ks g)) k \<noteq> Some []"
  by (induction ks arbitrary: g) (auto simp: register_key_def gomap_simps)

lemma register_patterns:
  "k \<in> set (gm_keys (patterns (fold (register_key c) ks g))) \<longleftrightarrow>
     k \<in> set (gm_keys (patterns g)) \<or> hasWildcard k \<and> k \<in> set ks"
proof (induction ks arbitrary: g)
  case (Cons a ks)
  show ?case unfolding fold_Cons comp_apply Cons.IH
    by (auto simp: register_key_def gm_keys_iff gomap_simps simp del: set_map)
qed simp

lemma accept_conn_reg:
  assumes "reg_ok g"
  shows "reg_ok (accept_conn keys cmpr g)"
proof -
  define g1 where "g1 = (set_client (next_cid g) (newClient keys (WriteTimeout (config g)) cmpr) g)
    \<lparr>next_cid := next_cid g + 1\<rparr>"
  define g2 where "g2 = fold (register_key (next_cid g)) keys g1"
  have eq: "Conns g1 = Conns g" "patterns g1 = patterns g" "next_cid g1 = next_cid g + 1"
    "heap g1 = (heap g)(next_cid g := newClient keys (WriteTimeout (config g)) cmpr)"
    by (simp_all add: g1_def set_client_def)
  have h2: "heap g2 = heap g1" "next_cid g2 = next_cid g + 1" by (simp_all add: g2_def eq)
  have l: "set (gm_list (Conns g2) k) = set (gm_list (Conns g) k) \<union> (if k \<in> set keys then {next_cid g} else {})" for k
    by (simp add: g2_def register_set eq)
  have o: "gm_ok (Conns g1)" "gm_ok (patterns g1)" "\<forall>k. gm_get (Conns g1) k \<noteq> Some []"
    using assms by (simp_all add: reg_ok_def eq)
  have m: "gm_ok (Conns g2)" "gm_ok (patterns g2)" "\<forall>k. gm_get (Conns g2) k \<noteq> Some []"
    unfolding g2_def using o by (simp_all add: register_maps)
  have pats: "k \<in> set (gm_keys (patterns g2)) \<longleftrightarrow> k \<in> set (gm_keys (patterns g)) \<or> hasWildcard k \<and> k \<in> set keys" for k
    by (simp only: g2_def register_patterns eq)
  have ne: "gm_list (Conns g2) k \<noteq> [] \<longleftrightarrow> gm_list (Conns g) k \<noteq> [] \<or> k \<in> set keys" for k
    using l [of k] by (metis Un_empty empty_not_insert set_empty)
  note d = reg_okD [OF assms]
  have old: "ckeys (heap g2 c) = ckeys (heap g c)" if "c \<in> set (gm_list (Conns g) k)" for c k
    using d(5) [OF that] by (simp add: h2 eq)
  have new: "ckeys (heap g2 (next_cid g)) = keys" by (simp add: h2 eq newClient_def)
  have "reg_ok g2"
  proof (rule reg_okI)
    show "k \<in> set (gm_keys (patterns g2)) \<longleftrightarrow> hasWildcard k \<and> gm_list (Conns g2) k \<noteq> []" for k
      unfolding pats ne d(4) by blast
    fix k c
    assume c: "c \<in> set (gm_list (Conns g2) k)"
    then consider (old) "c \<in> set (gm_list (Conns g) k)" | (new) "c = next_cid g" "k \<in> set keys"
      unfolding l by (auto split: if_splits)
    note cases = this
    show "c < next_cid g2" by (cases rule: cases) (auto simp: h2 dest!: d(5))
    show "k \<in> set (ckeys (heap g2 c))" using d(6) by (cases rule: cases) (auto simp: old new)
    show "c \<in> set (gm_list (Conns g2) k')" if "k' \<in> set (ckeys (heap g2 c))" for k'
      using that d(7) by (cases rule: cases) (auto simp: old new l)
  qed (use m in auto)
  moreover have "accept_conn keys cmpr g = schedule (ConnectTask keys) g2"
    by (simp add: accept_conn_def g2_def g1_def Let_def)
  ultimately show ?thesis by (auto simp: schedule_def intro: reg_ok_cong)
qed

lemma accept_conn_set:
  "set (gm_list (Conns (accept_conn keys cmpr g)) k) =
     set (gm_list (Conns g) k) \<union> (if k \<in> set keys then {next_cid g} else {})"
  by (simp add: accept_conn_def schedule_def register_set set_client_def Let_def)

lemma accept_conn_registered:
  "registered (accept_conn keys cmpr g) c \<longleftrightarrow> registered g c \<or> (c = next_cid g \<and> keys \<noteq> [])"
proof -
  have "keys \<noteq> [] \<longleftrightarrow> (\<exists>k. k \<in> set keys)" by (cases keys) auto
  then show ?thesis by (auto simp: registered_def accept_conn_set)
qed

lemma register_frame:
  "config (fold (register_key c) ks g) = config g" "authz (fold (register_key c) ks g) = authz g"
  "cancelled (fold (register_key c) ks g) = cancelled g"
  by (induction ks arbitrary: g) (auto simp: register_key_def)

lemma accept_conn_frame:
  "config (accept_conn keys cmpr g) = config g" "authz (accept_conn keys cmpr g) = authz g"
  "cancelled (accept_conn keys cmpr g) = cancelled g"
  by (simp_all add: accept_conn_def schedule_def register_frame set_client_def Let_def)

lemma removeClient_frame:
  "config (removeClient c g) = config g" "authz (removeClient c g) = authz g" "cancelled (removeClient c g) = cancelled g"
proof -
  have "config (fold (unregister_key c) ks g0) = config g0 \<and> authz (fold (unregister_key c) ks g0) = authz g0 \<and>
      cancelled (fold (unregister_key c) ks g0) = cancelled g0"
    for ks and g0 :: "('a, 'b) goctopus"
    by (induction ks arbitrary: g0) (auto simp: unregister_key_def Let_def)
  then show "config (removeClient c g) = config g" "authz (removeClient c g) = authz g" "cancelled (removeClient c g) = cancelled g"
    by (simp_all add: removeClient_def Let_def set_client_def)
qed

lemma accept_conn_next [simp]: "next_cid (accept_conn keys cmpr g) = next_cid g + 1"
  by (simp add: accept_conn_def schedule_def Let_def)

subsection \<open>Unregistering\<close>

lemma unregister_fields [simp]:
  "heap (fold (unregister_key c) ks g) = heap g" "next_cid (fold (unregister_key c) ks g) = next_cid g"
  "store (fold (unregister_key c) ks g) = store g"
  by (induction ks arbitrary: g) (auto simp: unregister_key_def Let_def)

lemma unregister_list:
  "gm_list (Conns (fold (unregister_key c) ks g)) k =
     (if k \<in> set ks then filter (\<lambda>x. x \<noteq> c) (gm_list (Conns g) k) else gm_list (Conns g) k)"
  by (induction ks arbitrary: g) (auto simp: unregister_key_def gomap_simps Let_def)

lemma unregister_maps:
  "gm_ok (Conns g) \<Longrightarrow> gm_ok (Conns (fold (unregister_key c) ks g))"
  "gm_ok (patterns g) \<Longrightarrow> gm_ok (patterns (fold (unregister_key c) ks g))"
  "\<forall>k. gm_get (Conns g) k \<noteq> Some [] \<Longrightarrow> gm_get (Conns (fold (unregister_key c) ks g)) k \<noteq> Some []"
  by (induction ks arbitrary: g) (auto simp: unregister_key_def gomap_simps Let_def)

lemma unregister_patterns:
  "k \<in> set (gm_keys (patterns (fold (unregister_key c) ks g))) \<longleftrightarrow>
     k \<in> set (gm_keys (patterns g)) \<and> (k \<in> set ks \<longrightarrow> filter (\<lambda>x. x \<noteq> c) (gm_list (Conns g) k) \<noteq> [])"
proof (induction ks arbitrary: g)
  case (Cons a ks)
  show ?case unfolding fold_Cons comp_apply Cons.IH
    by (auto simp: unregister_key_def gm_keys_iff gomap_simps Let_def simp del: set_map)
qed simp

lemma removeClient_list:
  "gm_list (Conns (removeClient c g)) k =
     (if k \<in> set (ckeys (heap g c)) then filter (\<lambda>x. x \<noteq> c) (gm_list (Conns g) k) else gm_list (Conns g) k)"
  by (simp add: removeClient_def Let_def unregister_list set_client_def frame_simps)

lemma removeClient_heap:
  "heap (removeClient c g) = (heap g)(c := close_client (heap g c))"
  "next_cid (removeClient c g) = next_cid g" "store (removeClient c g) = store g"
  by (simp_all add: removeClient_def Let_def set_client_def)

text \<open>After \<^verbatim>\<open>removeClient\<close> no key lists the client.\<close>

lemma removeClient_gone: "reg_ok g \<Longrightarrow> \<not> registered (removeClient c g) c"
  by (auto simp: registered_def removeClient_list reg_ok_def)

lemma removeClient_reg:
  assumes "reg_ok g"
  shows "reg_ok (removeClient c g)"
proof -
  define g1 where "g1 = set_client c (close_client (heap g c)) g"
  have "reg_ok g1" unfolding g1_def using assms by (rule reg_ok_client) (simp add: frame_simps)
  have eq: "removeClient c g = fold (unregister_key c) (ckeys (heap g1 c)) g1"
    by (simp add: removeClient_def g1_def Let_def)
  note d = reg_okD [OF \<open>reg_ok g1\<close>]
  let ?g = "fold (unregister_key c) (ckeys (heap g1 c)) g1"
  have l: "x \<in> set (gm_list (Conns ?g) k) \<longleftrightarrow> x \<in> set (gm_list (Conns g1) k) \<and> x \<noteq> c" for x k
    using d(6) by (auto simp: unregister_list)
  have ne: "gm_list (Conns ?g) k \<noteq> [] \<longleftrightarrow> gm_list (Conns g1) k \<noteq> [] \<and>
      (k \<in> set (ckeys (heap g1 c)) \<longrightarrow> filter (\<lambda>x. x \<noteq> c) (gm_list (Conns g1) k) \<noteq> [])" for k
    by (auto simp: unregister_list)
  have "reg_ok ?g"
  proof (rule reg_okI)
    show "k \<in> set (gm_keys (patterns ?g)) \<longleftrightarrow> hasWildcard k \<and> gm_list (Conns ?g) k \<noteq> []" for k
      unfolding unregister_patterns ne d(4) by blast
    fix x k
    assume "x \<in> set (gm_list (Conns ?g) k)"
    then have x: "x \<in> set (gm_list (Conns g1) k)" "x \<noteq> c" unfolding l by simp_all
    show "x < next_cid ?g" "k \<in> set (ckeys (heap ?g x))" using d(5,6) [OF x(1)] by simp_all
    show "x \<in> set (gm_list (Conns ?g) k')" if "k' \<in> set (ckeys (heap ?g x))" for k'
      using d(7) [OF x(1)] that x(2) unfolding l by simp
  qed (use d(1-3) in \<open>simp_all add: unregister_maps\<close>)
  then show ?thesis by (simp only: eq)
qed

lemma removeClient_registered:
  "reg_ok g \<Longrightarrow> registered (removeClient c g) x \<longleftrightarrow> registered g x \<and> x \<noteq> c"
  by (auto simp: registered_def removeClient_list reg_ok_def)

end
