(* ===== verification/Server.thy ===== *)
theory Server
  imports Registry
begin

text \<open>
  The HTTP surface (\<^verbatim>\<open>src/server.go\<close>, the handlers of
  \<^verbatim>\<open>src/metrics.go\<close> and \<^verbatim>\<open>src/version.go\<close>, and
  \<^verbatim>\<open>allow\<close> of \<^verbatim>\<open>src/ratelimit.go\<close>): routing, backend
  authentication, publishing, reading, deleting, and websocket upgrades.

  A handler answers with a status, a content type and a body; or the connection was hijacked by the
  upgrade, or the upgrade library wrote the refusal itself, or the handler panicked and
  \<^verbatim>\<open>net/http\<close> dropped the connection.
\<close>

datatype reply = Reply response | Hijacked | UpgradeRefused | Aborted

abbreviation (input) reply_json :: "nat \<Rightarrow> string \<Rightarrow> reply" where
  "reply_json st b \<equiv> Reply \<lparr>status = st, content_type = APPLICATION_JSON, body = b\<rparr>"

abbreviation (input) reply_plain :: "nat \<Rightarrow> string \<Rightarrow> reply" where
  "reply_plain st b \<equiv> Reply \<lparr>status = st, content_type = ''text/plain; charset=utf-8'', body = b\<rparr>"

abbreviation (input) reply_bare :: "nat \<Rightarrow> reply" where
  "reply_bare st \<equiv> Reply \<lparr>status = st, content_type = [], body = []\<rparr>"

text \<open>What one request meets: clock readings, the new UUID, the authorizer's backend, the handshake.\<close>

record http_env =
  he_limit :: time
  he_now :: "nat \<Rightarrow> time"
  he_newid :: "error + uuid"
  he_auth :: auth_backend
  he_clk :: "nat \<Rightarrow> time"
  he_upgrade :: "error + bool"

subsection \<open>Gates\<close>

definition allow :: "time \<Rightarrow> request \<Rightarrow> ('s, 'a) goctopus \<Rightarrow> bool \<times> ('s, 'a) goctopus" where
  "allow now r g =
     (case limiter g of
        None \<Rightarrow> (True, g)
      | Some rl \<Rightarrow>
          (let (ok, rl') = Allow now (clientIP (TrustProxyHeaders (config g)) r) rl
           in (ok, g\<lparr>limiter := Some rl'\<rparr>)))"

definition auth_failure :: "('s, 'a) goctopus \<Rightarrow> ('s, 'a) goctopus" where
  "auth_failure g = g\<lparr>authFail := authFail g + 1\<rparr>"

text \<open>\<open>None\<close> lets the request through, \<open>Some st\<close> is the status of the refusal.\<close>

definition authorizeBackend :: "request \<Rightarrow> ('s, 'a) goctopus \<Rightarrow> nat option \<times> ('s, 'a) goctopus" where
  "authorizeBackend r g =
     (if InsecureNoAuth (config g) then (None, g)
      else let login = Login (config g); pass = Password (config g) in
        if login = [] \<or> pass = [] then (Some 401, auth_failure g)
        else case BasicAuth r of
          None \<Rightarrow> (Some 401, auth_failure g)
        | Some (username, password) \<Rightarrow>
            (let userOK = (username = login); passOK = (password = pass) in
             if \<not> userOK \<or> \<not> passOK then (Some 403, auth_failure g) else (None, g)))"

subsection \<open>Publishing\<close>

definition handlePost :: "externs \<Rightarrow> time \<Rightarrow> error + uuid \<Rightarrow> request \<Rightarrow> ('s, 'a) goctopus \<Rightarrow>
    reply \<times> ('s, 'a) goctopus" where
  "handlePost X now newid r g =
     (case unmarshal X (MaxBytesReader (MaxMessageBytes (config g)) (r_Body r)) (DefaultExpire (config g))
             now newid zero_Message of
        UErr e \<Rightarrow> (reply_json 400 [], g)
      | UPanic \<Rightarrow> (Aborted, g)
      | UOk m \<Rightarrow>
          (let g1 = g\<lparr>received := received g + 1\<rparr>
           in (reply_json 202 [], schedule (PostTask m (targets m)) g1)))"

subsection \<open>Reading\<close>

definition handlePresence :: "externs \<Rightarrow> ('s, 'a) goctopus \<Rightarrow> reply" where
  "handlePresence X g =
     (case json_text X (JObj (sort_key fst (map (\<lambda>(k, cs). (k, JNum (Fin (of_nat (length cs))))) (Conns g)))) of
        Inl e \<Rightarrow> reply_json 500 [] | Inr b \<Rightarrow> reply_json 200 b)"

definition handleHistory :: "externs \<Rightarrow> time \<Rightarrow> string \<Rightarrow> ('s, 'a) goctopus \<Rightarrow> reply \<times> ('s, 'a) goctopus" where
  "handleHistory X now key g =
     (let (msgs, h) = history_get now key (history g); g1 = g\<lparr>history := h\<rparr> in
      case maps_text X (map (\<lambda>m. toMap m True) msgs) of
        Inl e \<Rightarrow> (reply_json 500 [], g1) | Inr b \<Rightarrow> (reply_json 200 b, g1))"

definition handleGet :: "'s Storage \<Rightarrow> externs \<Rightarrow> (nat \<Rightarrow> time) \<Rightarrow> request \<Rightarrow> ('s, 'a) goctopus \<Rightarrow>
    reply \<times> ('s, 'a) goctopus" where
  "handleGet S X now r g =
     (let q = r_Query r; key = Get q KEY in
      if Has q PRESENCE then (handlePresence X g, g)
      else if key \<noteq> [] \<and> Has q HISTORY then handleHistory X (now 0) key g
      else let (res, g1) = (if key = [] then getMarshalledKeys S X g else getMarshalledMessages S X now key g) in
        case res of Inl e \<Rightarrow> (reply_json 400 [], g1) | Inr data \<Rightarrow> (reply_json 200 data, g1))"

subsection \<open>Deleting\<close>

definition handleDelete :: "'s Storage \<Rightarrow> externs \<Rightarrow> request \<Rightarrow> ('s, 'a) goctopus \<Rightarrow>
    reply \<times> ('s, 'a) goctopus" where
  "handleDelete S X r g =
     (let key = Get (r_Query r) KEY; idq = Get (r_Query r) ID in
      if idq \<noteq> [] \<and> key = [] then (reply_json 400 [], g)
      else case (if idq = [] then Some 0 else uuid_Parse X idq) of
        None \<Rightarrow> (reply_json 400 [], g)
      | Some i \<Rightarrow>
          if key = [] then
            (let (res, g1) = get_keys S g in
             case res of
               Inl e \<Rightarrow> (reply_json 400 [], g1)
             | Inr keys \<Rightarrow> (reply_json 200 [], fold (deleteMsgQueue S) keys g1))
          else if idq = [] then (reply_json 200 [], deleteMsgQueue S key g)
          else let (e, g1) = deleteMsgById S key i g in
            if e \<noteq> None then (reply_json 400 [], g1) else (reply_json 200 [], g1))"

subsection \<open>The JSON API\<close>

definition handleMethodNotAllowed :: "('s, 'a) goctopus \<Rightarrow> reply \<times> ('s, 'a) goctopus" where
  [simp]: "handleMethodNotAllowed g = (reply_json 405 [], g)"

definition handleHTTP :: "'s Storage \<Rightarrow> externs \<Rightarrow> http_env \<Rightarrow> request \<Rightarrow> ('s, 'a) goctopus \<Rightarrow>
    reply \<times> ('s, 'a) goctopus" where
  "handleHTTP S X H r g =
     (let (ok, g1) = allow (he_limit H) r g in
      if \<not> ok then (reply_json 429 [], g1)
      else let (refused, g2) = authorizeBackend r g1 in
        case refused of
          Some st \<Rightarrow> (reply_json st [], g2)
        | None \<Rightarrow>
            if r_Method r = ''POST'' then handlePost X (he_now H 0) (he_newid H) r g2
            else if r_Method r = ''GET'' then handleGet S X (he_now H) r g2
            else if r_Method r = ''DELETE'' then handleDelete S X r g2
            else handleMethodNotAllowed g2)"

subsection \<open>Websocket upgrades\<close>

text \<open>\<^verbatim>\<open>upgrade\<close>: without compression the extension is never accepted.\<close>

definition upgrade :: "error + bool \<Rightarrow> Config \<Rightarrow> error + bool" where
  "upgrade res cfg =
     (case res of Inl e \<Rightarrow> Inl e | Inr ext \<Rightarrow> Inr (Compression cfg \<and> ext))"

definition handleWs :: "'a Authorizer \<Rightarrow> http_env \<Rightarrow> request \<Rightarrow> ('s, 'a) goctopus \<Rightarrow>
    reply \<times> ('s, 'a) goctopus" where
  "handleWs A H r g =
     (let (ok, g1) = allow (he_limit H) r g in
      if \<not> ok then (reply_bare 429, g1)
      else if \<not> originAllowed (config g1) (Get (r_Header r) ORIGIN) then (reply_bare 403, g1)
      else let (res, a) = au_Authorize A (he_auth H) (he_clk H) r (authz g1); g2 = g1\<lparr>authz := a\<rparr> in
        case res of
          Inl e \<Rightarrow> (reply_bare 401, auth_failure g2)
        | Inr keys \<Rightarrow>
            (case upgrade (he_upgrade H) (config g2) of
               Inl e \<Rightarrow> (UpgradeRefused, g2)
             | Inr cmpr \<Rightarrow> (Hijacked, accept_conn keys cmpr g2)))"

subsection \<open>Probes and metrics\<close>

definition handleHealthz :: reply where
  "handleHealthz = reply_plain 200 ''ok''"

text \<open>Once \<^verbatim>\<open>Start\<close> returned, storage and authorizer are set. \<open>None\<close> in place of the
  engine is a request that comes before.\<close>

definition handleReadyz :: "'s Storage \<Rightarrow> ('s, 'a) goctopus option \<Rightarrow> reply \<times> ('s, 'a) goctopus option" where
  "handleReadyz S og =
     (case og of
        None \<Rightarrow> (reply_bare 503, None)
      | Some g \<Rightarrow>
          (case st_PingContext S of
             None \<Rightarrow> (reply_plain 200 ''ready'', Some g)
           | Some ping \<Rightarrow>
               (let (e, s) = ping (store g); g1 = g\<lparr>store := s\<rparr> in
                if e \<noteq> None then (reply_bare 503, Some g1) else (reply_plain 200 ''ready'', Some g1))))"

definition goctopus_connections :: "('s, 'a) goctopus \<Rightarrow> nat" where
  "goctopus_connections g = sum_list (map (\<lambda>(k, cs). length cs) (Conns g))"

text \<open>The gauge of keys, cached for ten seconds (\<open>keysAt\<close> is \<open>None\<close> for the zero time). A scrape
  reads both gauges; \<open>render\<close> is the text the Prometheus library makes of the instruments.\<close>

definition goctopus_keys :: "'s Storage \<Rightarrow> time \<Rightarrow> time \<Rightarrow> ('s, 'a) goctopus \<Rightarrow> nat \<times> ('s, 'a) goctopus" where
  "goctopus_keys S now now' g =
     (if (case keysAt g of None \<Rightarrow> False | Some t \<Rightarrow> time_Sub now t < 10 * second) then (keysVal g, g)
      else let (r, g1) = get_keys S g; v = (case r of Inl e \<Rightarrow> keysVal g1 | Inr ks \<Rightarrow> length ks)
           in (v, g1\<lparr>keysVal := v, keysAt := Some now'\<rparr>))"

text \<open>The instruments, each with its name, its help text and what a scrape reads from it (\<open>n\<close> is the gauge of
  keys). The library adds the collectors of the Go runtime and of the process.\<close>

datatype sample =
    Counter nat
  | Gauge nat
  | Histogram "f64 list"
  | Info "(string \<times> string) list"

definition newMetrics :: "string \<Rightarrow> string \<Rightarrow> nat \<Rightarrow> ('s, 'a) goctopus \<Rightarrow> (string \<times> string \<times> sample) list" where
  "newMetrics version commit n g =
     [(''goctopus_messages_received_total'', ''Messages accepted from backends.'', Counter (received g)),
      (''goctopus_messages_delivered_total'', ''Messages acknowledged by websocket clients.'', Counter (delivered g)),
      (''goctopus_messages_expired_total'', ''Messages dropped because they expired.'', Counter (expired g)),
      (''goctopus_auth_failures_total'', ''Failed authentication attempts.'', Counter (authFail g)),
      (''goctopus_delivery_seconds'', ''Time from enqueue to delivery.'', Histogram (delivery g)),
      (''goctopus_build_info'', ''Build information; always 1, labelled with version and commit.'',
         Info [(''version'', version), (''commit'', commit)]),
      (''goctopus_connections'', ''Current number of websocket connections.'', Gauge (goctopus_connections g)),
      (''goctopus_keys'', ''Current number of keys with queued messages.'', Gauge n)]"

definition handleMetrics :: "'s Storage \<Rightarrow> ((string \<times> string \<times> sample) list \<Rightarrow> string) \<Rightarrow> string \<times> string \<times> string \<Rightarrow>
    http_env \<Rightarrow> ('s, 'a) goctopus \<Rightarrow> reply \<times> ('s, 'a) goctopus" where
  "handleMetrics S render ver H g =
     (let (n, g1) = goctopus_keys S (he_now H 0) (he_now H 1) g
      in (reply_plain 200 (render (newMetrics (fst ver) (fst (snd ver)) n g1)), g1))"

definition handleVersion :: "externs \<Rightarrow> string \<Rightarrow> string \<Rightarrow> string \<Rightarrow> reply" where
  "handleVersion X version commit go =
     (case json_text X (JObj [(''commit'', JStr commit), (''go'', JStr go), (''version'', JStr version)]) of
        Inl e \<Rightarrow> reply_json 200 [] | Inr b \<Rightarrow> reply_json 200 (b @ [CHR 0x0A]))"

subsection \<open>Routing\<close>

datatype route = RouteHTTP | RouteWs | RouteHealthz | RouteReadyz | RouteMetrics | RouteVersion | NotFound

definition route_of :: "string \<Rightarrow> route" where
  "route_of path =
     (if path = ROOT then RouteHTTP
      else if path = WS \<or> path = WS_slash then RouteWs
      else if path = HEALTHZ then RouteHealthz
      else if path = READYZ then RouteReadyz
      else if path = METRICS then RouteMetrics
      else if path = VERSION then RouteVersion
      else NotFound)"

text \<open>\<open>ver\<close> is the build information.\<close>

definition ServeHTTP :: "'s Storage \<Rightarrow> 'a Authorizer \<Rightarrow> externs \<Rightarrow> ((string \<times> string \<times> sample) list \<Rightarrow> string) \<Rightarrow>
    string \<times> string \<times> string \<Rightarrow> http_env \<Rightarrow> request \<Rightarrow> ('s, 'a) goctopus \<Rightarrow>
    reply \<times> ('s, 'a) goctopus" where
  "ServeHTTP S A X render ver H r g =
     (case route_of (r_Path r) of
        RouteHTTP \<Rightarrow> handleHTTP S X H r g
      | RouteWs \<Rightarrow> handleWs A H r g
      | RouteHealthz \<Rightarrow> (handleHealthz, g)
      | RouteReadyz \<Rightarrow> (let (rep, og) = handleReadyz S (Some g) in (rep, the og))
      | RouteMetrics \<Rightarrow> handleMetrics S render ver H g
      | RouteVersion \<Rightarrow> (handleVersion X (fst ver) (fst (snd ver)) (snd (snd ver)), g)
      | NotFound \<Rightarrow> (reply_plain 404 (''404 page not found'' @ [CHR 0x0A]), g))"

end
