(* ===== verification/Conservation.thy ===== *)
theory Conservation
  imports Server
begin

text \<open>
  What every operation of the engine and the server does to the mailbox of the storage backend,
  proved once from the contract of \<^verbatim>\<open>storage.go\<close>: reads and flushes leave it alone,
  publishing only adds, and there are exactly three ways for a message to leave.
\<close>

context storage_contract
begin

lemma getMsgQueue_box:
  assumes "inv (store g)" and "getMsgQueue S k g = (r, g')"
  shows "inv (store g') \<and> box (store g') = box (store g)"
  using get_queue [OF assms(1), of k r "store g'"] assms(2)
  by (auto simp: getMsgQueue_def split: prod.splits)

lemma get_keys_box:
  assumes "inv (store g)" and "get_keys S g = (r, g')"
  shows "inv (store g') \<and> box (store g') = box (store g)"
  using get_keys [OF assms(1), of r "store g'"] assms(2) by (auto simp: get_keys_def split: prod.splits)

lemma storageKeysMatching_box:
  assumes "inv (store g)" and "storageKeysMatching S p g = (ks, g')"
  shows "inv (store g') \<and> box (store g') = box (store g)"
  using get_keys_box [OF assms(1)] assms(2)
  by (auto simp: storageKeysMatching_def split: prod.splits sum.splits)

lemma notify_box:
  assumes "inv (store g)"
  shows "inv (store (notify S k g)) \<and> box (store (notify S k g)) = box (store g)"
  using notify [OF _ assms] assms by (auto simp: notify_def split: prod.splits option.splits)

lemma getMsgQueue_queue:
  assumes "inv (store g)" and "getMsgQueue S k g = (Inr q, g')"
  shows "distinct (map msg_id q)" and "queue_map q = box (store g) k"
  using get_queue [OF assms(1), of k "Inr q" "store g'"] assms(2)
  by (auto simp: getMsgQueue_def split: prod.splits)

lemma sendMessages_box:
  assumes "inv (store g)"
  shows "inv (store (sendMessages S X E k g)) \<and> box (store (sendMessages S X E k g)) = box (store g)"
  using sendMessages_store [of S X E k g] get_queue [OF assms, of k] assms
  by (cases "st_GetQueue S k (store g)") auto

lemma flush_keys_box:
  "inv (store g) \<Longrightarrow> inv (store (flush_keys S X E ks g)) \<and> box (store (flush_keys S X E ks g)) = box (store g)"
proof (induction ks arbitrary: E g)
  case (Cons k ks)
  show ?case using Cons.IH sendMessages_box [OF Cons.prems, of X "E 0" k] by simp
qed simp

lemma connect_keys_box:
  "inv (store g) \<Longrightarrow>
     inv (store (connect_keys S X T i ks g)) \<and> box (store (connect_keys S X T i ks g)) = box (store g)"
proof (induction ks arbitrary: i g)
  case (Cons k ks)
  obtain sks g1 where m: "storageKeysMatching S k g = (sks, g1)" by fastforce
  show ?case
    using Cons.IH sendMessages_box [OF Cons.prems, of X "te_send T i 0" k]
      flush_keys_box [of g1 X "te_send T i" sks] storageKeysMatching_box [OF Cons.prems m]
    by (simp add: m)
qed simp

lemma match_patterns_box:
  "inv (store g) \<Longrightarrow> match_patterns S ps g = (ks, g') \<Longrightarrow> inv (store g') \<and> box (store g') = box (store g)"
proof (induction ps arbitrary: g ks g')
  case (Cons p ps)
  obtain k1 g1 where m: "storageKeysMatching S p g = (k1, g1)" by fastforce
  obtain k2 g2 where m2: "match_patterns S ps g1 = (k2, g2)" by fastforce
  show ?case using Cons.IH [OF _ m2] storageKeysMatching_box [OF Cons.prems(1) m] Cons.prems(2) by (simp add: m m2)
qed simp

lemma reconcile_box:
  assumes "inv (store g)"
  shows "inv (store (reconcile S X o1 o2 E g)) \<and> box (store (reconcile S X o1 o2 E g)) = box (store g)"
proof -
  obtain sks g1 where m: "match_patterns S (filter hasWildcard (o1 (gm_keys (Conns g)))) g = (sks, g1)"
    by fastforce
  show ?thesis using match_patterns_box [OF assms m] flush_keys_box [of g1 X E] assms
    by (simp add: reconcile_def m Let_def)
qed

lemma queueMessage_box:
  assumes "inv (store g)"
  shows "inv (store (queueMessage S m g)) \<and>
         box (store (queueMessage S m g)) \<in> {box (store g), box_put (Key m) (msg_id m) (keep m) (box (store g))}"
  using add_message [OF assms, of "Key m"] by (auto simp: queueMessage_def split: prod.splits)

lemma post_key_box:
  assumes "inv (store g)"
  shows "inv (store (post_key S X now E m k g)) \<and>
         box (store (post_key S X now E m k g)) \<in> {box (store g), box_put k (msg_id m) (keep (m\<lparr>Key := k\<rparr>)) (box (store g))}"
proof -
  define g1 where "g1 = queueMessage S (m\<lparr>Key := k\<rparr>) g"
  define g2 where "g2 = g1\<lparr>history := history_add now k (m\<lparr>Key := k\<rparr>) (history g1)\<rparr>"
  have 1: "inv (store g2)" "box (store g2) \<in> {box (store g), box_put k (msg_id m) (keep (m\<lparr>Key := k\<rparr>)) (box (store g))}"
    using queueMessage_box [OF assms, of "m\<lparr>Key := k\<rparr>"] by (simp_all add: g2_def g1_def)
  have "post_key S X now E m k g = sendMessages S X E k (notify S k g2)"
    by (simp add: post_key_def g2_def g1_def Let_def)
  moreover have 2: "inv (store (notify S k g2))" "box (store (notify S k g2)) = box (store g2)"
    using notify_box [OF 1(1)] by simp_all
  ultimately show ?thesis using sendMessages_box [OF 2(1), of X E k] 1(2) 2(2) by simp
qed

lemma deleteMsgById_box:
  assumes "inv (store g)" and "deleteMsgById S k i g = (e, g')"
  shows "inv (store g') \<and> box (store g') \<in> {box (store g), box_del k i (box (store g))} \<and>
         (e = None \<longrightarrow> box (store g') = box_del k i (box (store g)))"
  using delete_message [OF assms(1), of k i] assms(2) by (auto simp: deleteMsgById_def split: prod.splits)

lemma deleteMsgQueue_box:
  assumes "inv (store g)"
  shows "inv (store (deleteMsgQueue S k g)) \<and>
         box (store (deleteMsgQueue S k g)) \<in> {box (store g), box_clear k (box (store g))}"
  using delete_queue [OF assms, of k] by (auto simp: deleteMsgQueue_def split: prod.splits)

end

text \<open>How a mailbox changed: \<open>lost b b' k i\<close> is that the message under key \<open>k\<close> with id \<open>i\<close> is gone or
  replaced.\<close>

definition lost :: "mailbox \<Rightarrow> mailbox \<Rightarrow> string \<Rightarrow> uuid \<Rightarrow> bool" where
  "lost b b' k i \<longleftrightarrow> b k i \<noteq> None \<and> b' k i \<noteq> b k i"

lemma lost_put: "lost b (box_put k' i' v b) k i \<Longrightarrow> k' = k \<and> i' = i"
  by (auto simp: lost_def box_put_def split: if_splits)

lemma lost_del: "lost b (box_del k' i' b) k i \<Longrightarrow> k' = k \<and> i' = i"
  by (auto simp: lost_def box_del_def split: if_splits)

lemma lost_clear: "lost b (box_clear k' b) k i \<Longrightarrow> k' = k"
  by (auto simp: lost_def box_clear_def split: if_splits)

lemma lost_refl [simp]: "\<not> lost b b k i"
  by (simp add: lost_def)

lemma lost_step: "lost b b'' k i \<Longrightarrow> lost b b' k i \<or> lost b' b'' k i"
  by (auto simp: lost_def)

context storage_contract
begin

lemma post_keys_lost:
  "inv (store g) \<Longrightarrow> inv (store (post_keys S X T n m ks g)) \<and>
     (lost (box (store g)) (box (store (post_keys S X T n m ks g))) k i \<longrightarrow> k \<in> set ks \<and> i = msg_id m)"
proof (induction ks arbitrary: n g)
  case (Cons a ks)
  let ?g = "post_key S X (te_hist T n) (te_send T n 0) m a g"
  have p: "inv (store ?g)" "box (store ?g) \<in> {box (store g), box_put a (msg_id m) (keep (m\<lparr>Key := a\<rparr>)) (box (store g))}"
    using post_key_box [OF Cons.prems, of X "te_hist T n" "te_send T n 0" m a] by simp_all
  let ?b = "box (store g)" and ?b1 = "box (store ?g)" and ?b2 = "box (store (post_keys S X T n m (a # ks) g))"
  have 1: "lost ?b ?b1 k i \<Longrightarrow> a = k \<and> msg_id m = i" using p(2) lost_put by fastforce
  have 2: "inv (store (post_keys S X T n m (a # ks) g))"
    "lost ?b1 ?b2 k i \<Longrightarrow> k \<in> set ks \<and> i = msg_id m"
    using Cons.IH [OF p(1), of "n + 1"] by simp_all
  show ?case using 1 2 lost_step [of ?b ?b2 k i ?b1] by (auto simp del: post_keys.simps)
qed simp

lemma run_task_lost:
  assumes "inv (store g)"
  shows "inv (store (run_task S X T t g))"
    and "lost (box (store g)) (box (store (run_task S X T t g))) k i \<Longrightarrow>
           \<exists>m ks. t = PostTask m ks \<and> k \<in> set ks \<and> i = msg_id m"
proof -
  have "inv (store (run_task S X T t g)) \<and> (lost (box (store g)) (box (store (run_task S X T t g))) k i \<longrightarrow>
      (\<exists>m ks. t = PostTask m ks \<and> k \<in> set ks \<and> i = msg_id m))"
  proof (cases t)
    case (FlushTask key)
    then show ?thesis using sendMessages_box [OF assms(1), of X "te_send T 0 0" key] by simp
  next
    case (PostTask m ks)
    then show ?thesis using post_keys_lost [OF assms(1), of X T 0 m ks k i] by simp
  next
    case (ConnectTask ks)
    then show ?thesis using connect_keys_box [OF assms(1), of X T 0 ks] by simp
  qed
  then show "inv (store (run_task S X T t g))"
    and "lost (box (store g)) (box (store (run_task S X T t g))) k i \<Longrightarrow>
           \<exists>m ks. t = PostTask m ks \<and> k \<in> set ks \<and> i = msg_id m" by auto
qed

lemma sweep_loop_lost:
  "inv (store g) \<Longrightarrow> sweep_loop S now n key ms r g = (r', g') \<Longrightarrow> inv (store g') \<and>
     (lost (box (store g)) (box (store g')) k i \<longrightarrow>
        k = key \<and> (\<exists>m \<in> set ms. msg_id m = i \<and> (\<exists>j. isExpired (now j) m)))"
proof (induction ms arbitrary: n r g)
  case (Cons m ms)
  obtain e g1 where d: "deleteMsgById S key (msg_id m) g = (e, g1)" by fastforce
  note b = deleteMsgById_box [OF Cons.prems(1) d]
  show ?case
  proof (cases "isExpired (now n) m")
    case True
    then have "sweep_loop S now (n + 1) key ms (r + 1) g1 = (r', g')" using Cons.prems(2) d by simp
    from Cons.IH [OF _ this] b have
      2: "inv (store g')" "lost (box (store g1)) (box (store g')) k i \<Longrightarrow>
          k = key \<and> (\<exists>m \<in> set ms. msg_id m = i \<and> (\<exists>j. isExpired (now j) m))" by auto
    have 1: "lost (box (store g)) (box (store g1)) k i \<Longrightarrow> key = k \<and> msg_id m = i"
      using b lost_del by fastforce
    show ?thesis
      using 1 2 lost_step [of "box (store g)" "box (store g')" k i "box (store g1)"] True by auto
  next
    case False
    then show ?thesis using Cons.IH [OF Cons.prems(1), of "n + 1" r] Cons.prems(2) by auto
  qed
qed simp

lemma sweepKey_lost:
  assumes "inv (store g)"
  shows "inv (store (sweepKey S now key g)) \<and>
     (lost (box (store g)) (box (store (sweepKey S now key g))) k i \<longrightarrow>
        k = key \<and> (\<exists>m j. box (store g) k i = Some m \<and> isExpired (now j) m))"
proof -
  obtain r g1 where q: "getMsgQueue S key g = (r, g1)" by fastforce
  note b = getMsgQueue_box [OF assms q]
  show ?thesis
  proof (cases r)
    case (Inl e)
    then show ?thesis using b by (simp add: sweepKey_def q)
  next
    case (Inr queue)
    obtain n g2 where l: "sweep_loop S now 0 key queue 0 g1 = (n, g2)" by fastforce
    have "box (store g) key (msg_id m) = Some m" if "m \<in> set queue" for m
      using getMsgQueue_queue [OF assms] q Inr that queue_map_iff [of queue "msg_id m" m] by auto
    moreover have "store (sweepKey S now key g) = store g2" by (simp add: sweepKey_def q Inr l)
    moreover have "inv (store g2)" "lost (box (store g)) (box (store g2)) k i \<Longrightarrow>
        k = key \<and> (\<exists>m \<in> set queue. msg_id m = i \<and> (\<exists>j. isExpired (now j) m))"
      using sweep_loop_lost [OF _ l, of k i] b by auto
    ultimately show ?thesis by metis
  qed
qed

lemma handleAck_lost:
  assumes "inv (store g)"
  shows "inv (store (handleAck S X c payload g)) \<and>
     (lost (box (store g)) (box (store (handleAck S X c payload g))) k i \<longrightarrow>
        ack_id X payload = Some i \<and> inflight (heap g c) i = Some k)"
proof (cases "ack_id X payload")
  case (Some j)
  show ?thesis
  proof (cases "inflight (heap g c) j")
    case None
    then show ?thesis using Some assms by (simp add: handleAck_def takeInflight_def set_client_def)
  next
    case (Some key)
    define g1 where "g1 = set_client c (snd (takeInflight j (heap g c))) g"
    obtain e g2 where d: "deleteMsgById S key j g1 = (e, g2)" by fastforce
    have s: "store g1 = store g" by (simp add: g1_def set_client_def)
    have "store (handleAck S X c payload g) = store g2"
      using \<open>ack_id X payload = Some j\<close> Some d by (simp add: handleAck_def takeInflight_def g1_def)
    moreover have "inv (store g2)" "box (store g2) \<in> {box (store g), box_del key j (box (store g))}"
      using deleteMsgById_box [OF _ d] assms s by simp_all
    moreover from this(2) have "lost (box (store g)) (box (store g2)) k i \<Longrightarrow> key = k \<and> j = i"
      using lost_del by fastforce
    ultimately show ?thesis using \<open>ack_id X payload = Some j\<close> Some by auto
  qed
qed (simp add: handleAck_def assms)

end

subsection \<open>The HTTP surface\<close>

text \<open>Who may use the JSON API: anybody when authentication is switched off; otherwise a request with
  exactly the configured, non-empty credentials.\<close>

definition backend_ok :: "Config \<Rightarrow> request \<Rightarrow> bool" where
  "backend_ok cfg r \<longleftrightarrow> InsecureNoAuth cfg \<or>
     (Login cfg \<noteq> [] \<and> Password cfg \<noteq> [] \<and> BasicAuth r = Some (Login cfg, Password cfg))"

lemma allow_frame: "allow now r g = (ok, g') \<Longrightarrow> g' = g\<lparr>limiter := limiter g'\<rparr>"
  by (auto simp: allow_def split: option.splits prod.splits)

lemma authorizeBackend_spec:
  "authorizeBackend r g = (refused, g') \<Longrightarrow>
     g' = g\<lparr>authFail := authFail g'\<rparr> \<and> (refused = None \<longleftrightarrow> backend_ok (config g) r)"
  by (auto simp: authorizeBackend_def auth_failure_def backend_ok_def Let_def split: if_splits option.splits)

text \<open>The rest of \<^verbatim>\<open>handleHTTP\<close> runs on an engine that differs only in the limiter and
  the counter of authentication failures, and only for an authorized request.\<close>

lemma handleHTTP_cases:
  assumes "handleHTTP S X H r g = (rep, g')"
  obtains (refused) l n st where "g' = g\<lparr>limiter := l, authFail := n\<rparr>" "rep = reply_json st []"
      "st \<in> {401, 403, 405, 429}"
  | (post) l n where "backend_ok (config g) r" "r_Method r = ''POST''"
      "handlePost X (he_now H 0) (he_newid H) r (g\<lparr>limiter := l, authFail := n\<rparr>) = (rep, g')"
  | (get) l n where "backend_ok (config g) r" "r_Method r = ''GET''"
      "handleGet S X (he_now H) r (g\<lparr>limiter := l, authFail := n\<rparr>) = (rep, g')"
  | (delete) l n where "backend_ok (config g) r" "r_Method r = ''DELETE''"
      "handleDelete S X r (g\<lparr>limiter := l, authFail := n\<rparr>) = (rep, g')"
proof -
  obtain ok g1 where a: "allow (he_limit H) r g = (ok, g1)" by fastforce
  obtain res g2 where b: "authorizeBackend r g1 = (res, g2)" by fastforce
  define l where "l = limiter g1"
  have g1: "g1 = g\<lparr>limiter := l\<rparr>" unfolding l_def using a by (rule allow_frame)
  define n where "n = authFail g2"
  have g2: "g2 = g\<lparr>limiter := l, authFail := n\<rparr>" and bo: "res = None \<longleftrightarrow> backend_ok (config g) r"
    using authorizeBackend_spec [OF b] unfolding g1 n_def by simp_all
  have eq: "handleHTTP S X H r g = (if \<not> ok then (reply_json 429 [], g1) else
      case res of Some st \<Rightarrow> (reply_json st [], g2) | None \<Rightarrow>
        if r_Method r = ''POST'' then handlePost X (he_now H 0) (he_newid H) r g2
        else if r_Method r = ''GET'' then handleGet S X (he_now H) r g2
        else if r_Method r = ''DELETE'' then handleDelete S X r g2 else (reply_json 405 [], g2))"
    by (simp add: handleHTTP_def handleMethodNotAllowed_def a b split: option.split)
  consider "\<not> ok" | st where "ok" "res = Some st" | "ok" "res = None" by fastforce
  then show ?thesis
  proof cases
    case 1
    then have "g' = g\<lparr>limiter := l\<rparr>" "rep = reply_json 429 []" using assms unfolding eq g1 by simp_all
    moreover have "g\<lparr>limiter := l\<rparr> = g\<lparr>limiter := l, authFail := authFail g\<rparr>" by simp
    ultimately show ?thesis using refused by blast
  next
    case (2 st)
    have "st \<in> {401, 403}"
      using b 2(2) by (auto simp: authorizeBackend_def Let_def split: if_splits option.splits)
    moreover have "g' = g\<lparr>limiter := l, authFail := n\<rparr>" "rep = reply_json st []"
      using assms 2 unfolding eq g2 by simp_all
    ultimately show ?thesis using refused by blast
  next
    case 3
    then have ok: "backend_ok (config g) r" using bo by simp
    consider "r_Method r = ''POST''" | "r_Method r = ''GET''" | "r_Method r = ''DELETE''"
      | "r_Method r \<notin> {''POST'', ''GET'', ''DELETE''}" by blast
    then show ?thesis
    proof cases
      case 1
      then show ?thesis using post [OF ok] assms 3 unfolding eq g2 by simp
    next
      case 2
      then show ?thesis using get [OF ok] assms 3 unfolding eq g2 by simp
    next
      case p: 3
      then show ?thesis using delete [OF ok] assms 3 unfolding eq g2 by simp
    next
      case 4
      then have "g' = g\<lparr>limiter := l, authFail := n\<rparr>" "rep = reply_json 405 []"
        using assms 3 unfolding eq g2 by simp_all
      then show ?thesis using refused by blast
    qed
  qed
qed

lemma handleHTTP_denied:
  assumes "\<not> backend_ok (config g) r" and "handleHTTP S X H r g = (rep, g')"
  shows "\<exists>l n. g' = g\<lparr>limiter := l, authFail := n\<rparr> \<and> (\<exists>st \<in> {401, 403, 429}. rep = reply_json st [])"
proof -
  obtain ok g1 where a: "allow (he_limit H) r g = (ok, g1)" by fastforce
  obtain res g2 where b: "authorizeBackend r g1 = (res, g2)" by fastforce
  have g1: "g1 = g\<lparr>limiter := limiter g1, authFail := authFail g1\<rparr>" "config g1 = config g"
    using allow_frame [OF a] by (cases g; cases g1; simp)+
  obtain st where st: "res = Some st" "st \<in> {401, 403}"
    using b assms(1) g1(2)
    by (auto simp: authorizeBackend_def backend_ok_def Let_def split: if_splits option.splits)
  have "g2 = g\<lparr>limiter := limiter g1, authFail := authFail g2\<rparr>"
    using authorizeBackend_spec [OF b] allow_frame [OF a] by (cases g; cases g1; cases g2; simp)
  then show ?thesis using assms(2) g1(1) st by (auto simp: handleHTTP_def a b split: if_splits)
qed

lemma handleDelete_cases:
  assumes "handleDelete S X r g = (rep, g')"
  obtains (same) "g' = g"
  | (all) rk g1 where "Get (r_Query r) ''key'' = []" "Get (r_Query r) ''id'' = []" "get_keys S g = (rk, g1)"
      "g' = (case rk of Inl e \<Rightarrow> g1 | Inr ks \<Rightarrow> fold (deleteMsgQueue S) ks g1)"
  | (queue) "Get (r_Query r) ''id'' = []" "g' = deleteMsgQueue S (Get (r_Query r) ''key'') g"
  | (one) j e where "uuid_Parse X (Get (r_Query r) ''id'') = Some j"
      "deleteMsgById S (Get (r_Query r) ''key'') j g = (e, g')"
  using assms by (auto simp: handleDelete_def Let_def split: if_splits option.splits prod.splits sum.splits)

context storage_contract
begin

lemma getMarshalled_box:
  assumes "inv (store g)"
  shows "getMarshalledKeys S X g = (r, g') \<Longrightarrow> inv (store g') \<and> box (store g') = box (store g)"
    and "getMarshalledMessages S X now k g = (r, g') \<Longrightarrow> inv (store g') \<and> box (store g') = box (store g)"
  using get_keys_box [OF assms] getMsgQueue_box [OF assms]
  by (auto simp: getMarshalledKeys_def getMarshalledMessages_def split: prod.splits sum.splits)

lemma handleGet_box:
  assumes "inv (store g)" and "handleGet S X now r g = (rep, g')"
  shows "inv (store g') \<and> box (store g') = box (store g)"
  using assms(2) getMarshalled_box [OF assms(1)] assms(1)
  by (auto simp: handleGet_def handleHistory_def Let_def split: if_splits prod.splits sum.splits)

lemma delete_queues_box:
  "inv (store g) \<Longrightarrow> inv (store (fold (deleteMsgQueue S) ks g))"
proof (induction ks arbitrary: g)
  case (Cons k ks)
  then show ?case using deleteMsgQueue_box [OF Cons.prems, of k] by simp
qed simp

lemma handleDelete_lost:
  assumes "inv (store g)" and "handleDelete S X r g = (rep, g')"
  shows "inv (store g')"
    and "lost (box (store g)) (box (store g')) k i \<Longrightarrow>
           Get (r_Query r) ''key'' \<in> {[], k} \<and>
           (Get (r_Query r) ''id'' = [] \<or> uuid_Parse X (Get (r_Query r) ''id'') = Some i)"
proof -
  let ?key = "Get (r_Query r) ''key''" and ?id = "Get (r_Query r) ''id''"
  from assms(2) have "inv (store g') \<and> (lost (box (store g)) (box (store g')) k i \<longrightarrow>
      ?key \<in> {[], k} \<and> (?id = [] \<or> uuid_Parse X ?id = Some i))"
  proof (cases rule: handleDelete_cases)
    case same
    then show ?thesis using assms(1) by simp
  next
    case (all rk g1)
    then show ?thesis using get_keys_box [OF assms(1) all(3)] delete_queues_box [of g1] by (auto split: sum.splits)
  next
    case queue
    then show ?thesis using deleteMsgQueue_box [OF assms(1), of ?key] lost_clear by fastforce
  next
    case (one j e)
    then show ?thesis using deleteMsgById_box [OF assms(1) one(2)] lost_del by fastforce
  qed
  then show "inv (store g')" and "lost (box (store g)) (box (store g')) k i \<Longrightarrow>
           ?key \<in> {[], k} \<and> (?id = [] \<or> uuid_Parse X ?id = Some i)" by auto
qed

lemma handleHTTP_lost:
  assumes "inv (store g)" and "handleHTTP S X H r g = (rep, g')"
  shows "inv (store g') \<and> (lost (box (store g)) (box (store g')) k i \<longrightarrow>
           backend_ok (config g) r \<and> r_Method r = ''DELETE'' \<and> Get (r_Query r) ''key'' \<in> {[], k} \<and>
           (Get (r_Query r) ''id'' = [] \<or> uuid_Parse X (Get (r_Query r) ''id'') = Some i))"
  using assms(2)
proof (cases rule: handleHTTP_cases)
  case refused
  then show ?thesis using assms(1) by simp
next
  case post
  then show ?thesis using assms(1)
    by (auto simp: handlePost_def schedule_def Let_def split: unmarshal_result.splits if_splits)
next
  case get
  then show ?thesis using handleGet_box [OF _ get(3)] assms(1) by simp
next
  case delete
  then show ?thesis using handleDelete_lost(1) [OF _ delete(3)] handleDelete_lost(2) [OF _ delete(3), of k i] assms(1)
    by auto
qed

end

lemma accept_conn_store [simp]: "store (accept_conn keys cmpr g) = store g"
  by (simp add: accept_conn_def schedule_def set_client_def Let_def)

lemma handleWs_cases:
  assumes "handleWs A H r g = (rep, g')"
  obtains (refused) l where "g' = g\<lparr>limiter := l\<rparr>" "rep \<in> {reply_bare 429, reply_bare 403}"
  | (denied) l a e n where "au_Authorize A (he_auth H) (he_clk H) r (authz g) = (Inl e, a)"
      "g' = g\<lparr>limiter := l, authz := a, authFail := n\<rparr>" "rep = reply_bare 401"
  | (broken) l a keys where "au_Authorize A (he_auth H) (he_clk H) r (authz g) = (Inr keys, a)"
      "g' = g\<lparr>limiter := l, authz := a\<rparr>" "rep = UpgradeRefused"
  | (accepted) l a keys cmpr where "au_Authorize A (he_auth H) (he_clk H) r (authz g) = (Inr keys, a)"
      "originAllowed (config g) (Get (r_Header r) ''Origin'')" "upgrade (he_upgrade H) (config g) = Inr cmpr"
      "g' = accept_conn keys cmpr (g\<lparr>limiter := l, authz := a\<rparr>)" "rep = Hijacked"
proof -
  obtain ok g1 where a: "allow (he_limit H) r g = (ok, g1)" by fastforce
  define l where "l = limiter g1"
  have g1: "g1 = g\<lparr>limiter := l\<rparr>" unfolding l_def using a by (rule allow_frame)
  obtain res au where b: "au_Authorize A (he_auth H) (he_clk H) r (authz g) = (res, au)" by fastforce
  have eq: "handleWs A H r g = (if \<not> ok then (reply_bare 429, g1)
      else if \<not> originAllowed (config g) (Get (r_Header r) ''Origin'') then (reply_bare 403, g1)
      else case res of Inl e \<Rightarrow> (reply_bare 401, auth_failure (g1\<lparr>authz := au\<rparr>))
        | Inr keys \<Rightarrow> (case upgrade (he_upgrade H) (config g) of
            Inl e \<Rightarrow> (UpgradeRefused, g1\<lparr>authz := au\<rparr>)
          | Inr cmpr \<Rightarrow> (Hijacked, accept_conn keys cmpr (g1\<lparr>authz := au\<rparr>))))"
    by (simp add: handleWs_def a b g1 Let_def split: sum.splits)
  consider "\<not> ok \<or> \<not> originAllowed (config g) (Get (r_Header r) ''Origin'')"
    | (den) e where "res = Inl e" "ok" "originAllowed (config g) (Get (r_Header r) ''Origin'')"
    | (br) keys e where "res = Inr keys" "ok" "originAllowed (config g) (Get (r_Header r) ''Origin'')"
        "upgrade (he_upgrade H) (config g) = Inl e"
    | (ac) keys cmpr where "res = Inr keys" "ok" "originAllowed (config g) (Get (r_Header r) ''Origin'')"
        "upgrade (he_upgrade H) (config g) = Inr cmpr"
    by (cases res; cases "upgrade (he_upgrade H) (config g)") auto
  then show ?thesis
  proof cases
    case 1
    then have "g' = g\<lparr>limiter := l\<rparr>" "rep \<in> {reply_bare 429, reply_bare 403}"
      using assms unfolding eq g1 by (auto split: if_splits)
    then show ?thesis using refused by blast
  next
    case den
    then show ?thesis
      using denied [of e au "authFail g + 1" l] b assms unfolding eq g1 auth_failure_def by simp
  next
    case br
    then show ?thesis using broken [of keys au l] b assms unfolding eq g1 by simp
  next
    case ac
    then show ?thesis using accepted [of keys au cmpr l] b assms unfolding eq g1 by simp
  qed
qed

lemma handleWs_store: "handleWs A H r g = (rep, g') \<Longrightarrow> store g' = store g"
  by (erule handleWs_cases) simp_all

end
