(* ===== verification/Redis_Storage.thy ===== *)
theory Redis_Storage
  imports Storage Config
begin

text \<open>
  The Redis backend (\<^verbatim>\<open>src/redis_storage.go\<close>). The Redis server and its client
  library are parameters: the record \<open>redis\<close> holds the commands the program issues, on a state that
  also carries whatever decides that a command fails. What Redis documents of these commands is the
  locale \<open>redis_server\<close>; from it and the JSON and UUID laws follows the contract of
  \<^verbatim>\<open>src/storage.go\<close>, with a hash of encoded messages per key as the representation.
\<close>

subsection \<open>Commands\<close>

datatype redis_cmd =
    Del string
  | HSet string string string
  | HDel string string
  | Expire_key string duration

record ('r, 'o) redis =
  rd_ParseURL :: "string \<Rightarrow> error + 'o"
  rd_NewClient :: "'o \<Rightarrow> 'r"
  rd_Ping :: "'r \<Rightarrow> error option \<times> 'r"
  rd_Do :: "redis_cmd \<Rightarrow> 'r \<Rightarrow> error option \<times> 'r"
  rd_TxExec :: "redis_cmd list \<Rightarrow> 'r \<Rightarrow> error option \<times> 'r"
  rd_HGetAll :: "string \<Rightarrow> 'r \<Rightarrow> (error + (string, string) gomap) \<times> 'r"
  rd_Scan :: "64 word \<Rightarrow> string \<Rightarrow> nat \<Rightarrow> 'r \<Rightarrow> (error + string list \<times> 64 word) \<times> 'r"
  rd_Publish :: "string \<Rightarrow> string \<Rightarrow> 'r \<Rightarrow> error option \<times> 'r"

text \<open>The effect of a command on the hashes of the database.\<close>

type_synonym hash_db = "string \<Rightarrow> string \<rightharpoonup> string"

fun cmd_effect :: "redis_cmd \<Rightarrow> hash_db \<Rightarrow> hash_db" where
  "cmd_effect (Del k) h = h(k := Map.empty)"
| "cmd_effect (HSet k f v) h = h(k := (h k)(f \<mapsto> v))"
| "cmd_effect (HDel k f) h = h(k := (h k)(f := None))"
| "cmd_effect (Expire_key k d) h = h"

subsection \<open>The methods\<close>

definition redisDefaultURL :: string where "redisDefaultURL = ''redis://localhost:6379/0''"
definition redisPrefix :: string where "redisPrefix = ''goctopus:''"
definition redisQueuePfx :: string where "redisQueuePfx = redisPrefix @ ''q:''"
definition redisEvents :: string where "redisEvents = redisPrefix @ ''events''"

record 'r RedisStorage =
  rs_client :: 'r
  rs_keyTTL :: duration

definition queueKey :: "string \<Rightarrow> string" where
  "queueKey key = redisQueuePfx @ key"

definition redis_Init :: "('r, 'o) redis \<Rightarrow> Config \<Rightarrow> error + 'r RedisStorage" where
  "redis_Init R cfg =
     (case rd_ParseURL R (if RedisURL cfg = [] then redisDefaultURL else RedisURL cfg) of
        Inl e \<Rightarrow> Inl e
      | Inr opt \<Rightarrow>
          (let (e, r) = rd_Ping R (rd_NewClient R opt) in
           case e of Some e \<Rightarrow> Inl e | None \<Rightarrow> Inr \<lparr>rs_client = r, rs_keyTTL = RedisKeyTTL cfg\<rparr>))"

text \<open>The commands \<^verbatim>\<open>SetQueue\<close> puts into its pipeline; an encoding error ends the
  method before anything is sent.\<close>

fun set_cmds :: "externs \<Rightarrow> string \<Rightarrow> Message list \<Rightarrow> redis_cmd list option" where
  "set_cmds X qk [] = Some []"
| "set_cmds X qk (m # queue) =
     (case encode X m of
        None \<Rightarrow> None
      | Some b \<Rightarrow> map_option (Cons (HSet qk (uuid_String X (msg_id m)) b)) (set_cmds X qk queue))"

definition lift_client :: "error option \<times> 'r \<Rightarrow> 'r RedisStorage \<Rightarrow> error option \<times> 'r RedisStorage" where
  "lift_client er s = (fst er, s\<lparr>rs_client := snd er\<rparr>)"

definition redis_SetQueue :: "('r, 'o) redis \<Rightarrow> externs \<Rightarrow> string \<Rightarrow> Message list \<Rightarrow> 'r RedisStorage \<Rightarrow>
    error option \<times> 'r RedisStorage" where
  "redis_SetQueue R X key queue s =
     (let qk = queueKey key in
      case set_cmds X qk queue of
        None \<Rightarrow> (Some ''json'', s)
      | Some sets \<Rightarrow>
          lift_client (rd_TxExec R
            ([Del qk] @ sets @ (if 0 < rs_keyTTL s \<and> queue \<noteq> [] then [Expire_key qk (rs_keyTTL s)] else []))
            (rs_client s)) s)"

text \<open>The loop of \<^verbatim>\<open>GetQueue\<close> over the fields of the hash: an entry that does not
  decode is deleted (whatever comes of that) and skipped.\<close>

fun decode_loop :: "('r, 'o) redis \<Rightarrow> externs \<Rightarrow> string \<Rightarrow> (string, string) gomap \<Rightarrow> string list \<Rightarrow> 'r \<Rightarrow>
    Message list \<times> 'r" where
  "decode_loop R X qk vals [] r = ([], r)"
| "decode_loop R X qk vals (field # fs) r =
     (case gm_get vals field of
        None \<Rightarrow> decode_loop R X qk vals fs r
      | Some v \<Rightarrow>
          (case decodeMessage X v of
             None \<Rightarrow> decode_loop R X qk vals fs (snd (rd_Do R (HDel qk field) r))
           | Some m \<Rightarrow> (let (ms, r') = decode_loop R X qk vals fs r in (m # ms, r'))))"

text \<open>\<^verbatim>\<open>sort.Slice\<close> is not stable; a stable sort after an arbitrary order of the
  fields has the same possible results.\<close>

definition redis_GetQueue :: "('r, 'o) redis \<Rightarrow> externs \<Rightarrow> range_order \<Rightarrow> string \<Rightarrow> 'r RedisStorage \<Rightarrow>
    (error + Message list) \<times> 'r RedisStorage" where
  "redis_GetQueue R X ord key s =
     (let qk = queueKey key; (res, r) = rd_HGetAll R qk (rs_client s) in
      case res of
        Inl e \<Rightarrow> (Inl e, s\<lparr>rs_client := r\<rparr>)
      | Inr vals \<Rightarrow>
          (let (queue, r') = decode_loop R X qk vals (ord (gm_keys vals)) r in
           (Inr (sort_key date queue), s\<lparr>rs_client := r'\<rparr>)))"

definition redis_DeleteQueue :: "('r, 'o) redis \<Rightarrow> string \<Rightarrow> 'r RedisStorage \<Rightarrow>
    error option \<times> 'r RedisStorage" where
  "redis_DeleteQueue R key s = lift_client (rd_Do R (Del (queueKey key)) (rs_client s)) s"

definition redis_AddMessage :: "('r, 'o) redis \<Rightarrow> externs \<Rightarrow> string \<Rightarrow> Message \<Rightarrow> 'r RedisStorage \<Rightarrow>
    error option \<times> 'r RedisStorage" where
  "redis_AddMessage R X key m s =
     (case encode X m of
        None \<Rightarrow> (Some ''json'', s)
      | Some b \<Rightarrow>
          (let qk = queueKey key; set = HSet qk (uuid_String X (msg_id m)) b in
           if rs_keyTTL s \<le> 0 then lift_client (rd_Do R set (rs_client s)) s
           else lift_client (rd_TxExec R [set, Expire_key qk (rs_keyTTL s)] (rs_client s)) s))"

definition redis_DeleteMessage :: "('r, 'o) redis \<Rightarrow> externs \<Rightarrow> string \<Rightarrow> uuid \<Rightarrow> 'r RedisStorage \<Rightarrow>
    error option \<times> 'r RedisStorage" where
  "redis_DeleteMessage R X key i s = lift_client (rd_Do R (HDel (queueKey key) (uuid_String X i)) (rs_client s)) s"

definition TrimPrefix :: "string \<Rightarrow> string \<Rightarrow> string" where
  "TrimPrefix s p = (if take (length p) s = p then drop (length p) s else s)"

text \<open>The cursor loop of \<^verbatim>\<open>GetKeys\<close>, with fuel; \<open>None\<close> is running out of it.\<close>

fun scan_loop :: "nat \<Rightarrow> ('r, 'o) redis \<Rightarrow> 64 word \<Rightarrow> string list \<Rightarrow> 'r \<Rightarrow>
    (error + string list) option \<times> 'r" where
  "scan_loop fuel R cursor keys r =
     (if fuel = 0 then (None, r)
      else let (res, r1) = rd_Scan R cursor (redisQueuePfx @ ''*'') 100 r in
        case res of
          Inl e \<Rightarrow> (Some (Inl e), r1)
        | Inr (batch, next) \<Rightarrow>
            (let keys' = keys @ map (\<lambda>k. TrimPrefix k redisQueuePfx) batch in
             if next = 0 then (Some (Inr keys'), r1) else scan_loop (fuel - 1) R next keys' r1))"

declare scan_loop.simps [simp del]

text \<open>No cursor comes twice in one iteration of a scan, so \<open>2 ^ 64\<close> rounds are enough.\<close>

definition redis_GetKeys :: "('r, 'o) redis \<Rightarrow> 'r RedisStorage \<Rightarrow> (error + string list) \<times> 'r RedisStorage" where
  "redis_GetKeys R s =
     (let (res, r) = scan_loop (2 ^ 64) R 0 [] (rs_client s) in
      (case res of None \<Rightarrow> Inl ''scan'' | Some x \<Rightarrow> x, s\<lparr>rs_client := r\<rparr>))"

definition redis_PingContext :: "('r, 'o) redis \<Rightarrow> 'r RedisStorage \<Rightarrow> error option \<times> 'r RedisStorage" where
  "redis_PingContext R s = lift_client (rd_Ping R (rs_client s)) s"

definition redis_Notify :: "('r, 'o) redis \<Rightarrow> string \<Rightarrow> 'r RedisStorage \<Rightarrow> error option \<times> 'r RedisStorage" where
  "redis_Notify R key s = lift_client (rd_Publish R redisEvents key (rs_client s)) s"

text \<open>\<^verbatim>\<open>Subscribe\<close>: one turn of its loop, and whether the loop goes on. The context is done,
  the channel is closed, or a message has come in.\<close>

datatype sub_event = SubDone | SubClosed | SubMsg string

definition Subscribe_step :: "sub_event \<Rightarrow> (string \<Rightarrow> 'g \<Rightarrow> 'g) \<Rightarrow> 'g \<Rightarrow> bool \<times> 'g" where
  "Subscribe_step ev handler g =
     (case ev of SubDone \<Rightarrow> (False, g) | SubClosed \<Rightarrow> (False, g) | SubMsg key \<Rightarrow> (True, handler key g))"

definition RedisStorage_methods :: "('r, 'o) redis \<Rightarrow> externs \<Rightarrow> range_order \<Rightarrow> 'r RedisStorage Storage" where
  "RedisStorage_methods R X ord =
     \<lparr>st_SetQueue = redis_SetQueue R X, st_GetQueue = redis_GetQueue R X ord,
      st_DeleteQueue = redis_DeleteQueue R, st_AddMessage = redis_AddMessage R X,
      st_DeleteMessage = redis_DeleteMessage R X, st_GetKeys = redis_GetKeys R, st_NilKeys = True,
      st_Notify = Some (redis_Notify R), st_PingContext = Some (redis_PingContext R)\<rparr>"

subsection \<open>What Redis documents\<close>

text \<open>
  A command or transaction that reports an error has been executed or not; reads change nothing.
  \<^verbatim>\<open>HGETALL\<close> returns every field once. \<open>pending r c\<close> are the keys an iteration
  of \<^verbatim>\<open>SCAN\<close> that has got the cursor \<open>c\<close> has still to return: at the cursor 0 every
  key of the database, and each call returns of them those that match or leaves them to the next
  cursor. No cursor comes twice in an iteration: \<open>rank\<close>. The state of the keys does not change
  between the calls of one iteration; changes by others come between operations.
\<close>

locale redis_server =
  fixes R :: "('r, 'o) redis" and hashes :: "'r \<Rightarrow> hash_db"
    and pending :: "'r \<Rightarrow> 64 word \<Rightarrow> string set" and rank :: "'r \<Rightarrow> 64 word \<Rightarrow> nat"
  assumes ping: "rd_Ping R r = (e, r') \<Longrightarrow> hashes r' = hashes r"
    and publish: "rd_Publish R ch p r = (e, r') \<Longrightarrow> hashes r' = hashes r"
    and run_cmd: "rd_Do R cmd r = (e, r') \<Longrightarrow>
      hashes r' \<in> {hashes r, cmd_effect cmd (hashes r)} \<and> (e = None \<longrightarrow> hashes r' = cmd_effect cmd (hashes r))"
    and run_tx: "rd_TxExec R cs r = (e, r') \<Longrightarrow>
      hashes r' \<in> {hashes r, fold cmd_effect cs (hashes r)} \<and>
      (e = None \<longrightarrow> hashes r' = fold cmd_effect cs (hashes r))"
    and hgetall: "rd_HGetAll R k r = (res, r') \<Longrightarrow> hashes r' = hashes r \<and>
      (\<forall>vals. res = Inr vals \<longrightarrow> gm_ok vals \<and> gm_get vals = hashes r k)"
    and scan_start: "hashes r k \<noteq> Map.empty \<Longrightarrow> k \<in> pending r 0"
    and scan: "rd_Scan R c (p @ ''*'') n r = (Inr (batch, next), r') \<Longrightarrow>
      (\<forall>k \<in> pending r c. take (length p) k = p \<longrightarrow> k \<in> set batch \<or> next \<noteq> 0 \<and> k \<in> pending r' next) \<and>
      (next \<noteq> 0 \<longrightarrow> rank r' next < rank r c)"
    and scan_frame: "rd_Scan R c p n r = (sres, r') \<Longrightarrow> hashes r' = hashes r"
    and scan_bound: "rank r c < 2 ^ 64"
begin

text \<open>The loop ends within its fuel, and then nothing is missing.\<close>

lemma scan_loop_spec:
  "rank r c < fuel \<Longrightarrow> scan_loop fuel R c keys r = (res, r') \<Longrightarrow>
     hashes r' = hashes r \<and> res \<noteq> None \<and>
     (\<forall>ks. res = Some (Inr ks) \<longrightarrow> set keys \<subseteq> set ks \<and> (\<forall>k. queueKey k \<in> pending r c \<longrightarrow> k \<in> set ks))"
proof (induction fuel arbitrary: c keys r res r')
  case (Suc fuel)
  obtain a r1 where s: "rd_Scan R c (redisQueuePfx @ ''*'') 100 r = (a, r1)" by fastforce
  note h = scan_frame [OF s]
  show ?case
  proof (cases a)
    case (Inl e)
    then show ?thesis using Suc.prems(2) h by (auto simp: scan_loop.simps [of "Suc fuel"] s)
  next
    case (Inr bn)
    obtain batch "next" where bn: "bn = (batch, next)" by fastforce
    define keys' where "keys' = keys @ map (\<lambda>k. TrimPrefix k redisQueuePfx) batch"
    note law = scan [OF s [unfolded Inr bn]]
    have got: "k \<in> set keys' \<or> next \<noteq> 0 \<and> queueKey k \<in> pending r1 next" if "queueKey k \<in> pending r c" for k
    proof -
      have "queueKey k \<in> set batch \<Longrightarrow> k \<in> set keys'"
        by (auto simp: keys'_def queueKey_def TrimPrefix_def image_iff intro!: bexI [of _ "redisQueuePfx @ k"])
      then show ?thesis using law that by (auto simp: queueKey_def)
    qed
    have eq: "scan_loop (Suc fuel) R c keys r =
        (if next = 0 then (Some (Inr keys'), r1) else scan_loop fuel R next keys' r1)"
      by (simp add: scan_loop.simps [of "Suc fuel"] s Inr bn keys'_def Let_def)
    show ?thesis
    proof (cases "next = 0")
      case True
      then show ?thesis using Suc.prems(2) got h unfolding eq by (auto simp: keys'_def)
    next
      case False
      then have "rank r1 next < fuel" using law Suc.prems(1) by simp
      then have ih: "hashes r' = hashes r1 \<and> res \<noteq> None \<and> (\<forall>ks. res = Some (Inr ks) \<longrightarrow> set keys' \<subseteq> set ks \<and>
          (\<forall>k. queueKey k \<in> pending r1 next \<longrightarrow> k \<in> set ks))"
        using Suc.IH [of r1 "next" keys' res r'] Suc.prems(2) False unfolding eq by simp
      have "set keys \<subseteq> set keys'" by (simp add: keys'_def)
      then show ?thesis using ih got h by (metis subset_iff)
    qed
  qed
qed simp

lemma scan_total: "fst (scan_loop (2 ^ 64) R 0 [] r) \<noteq> None"
  by (cases "scan_loop (2 ^ 64) R 0 [] r") (use scan_loop_spec [OF scan_bound] in fastforce)

end

subsection \<open>The mailbox in Redis\<close>

text \<open>The hash of a key holds a message under the text of its id; entries that do not decode do not
  count. An entry that decodes sits in the field of its id.\<close>

definition redis_box :: "externs \<Rightarrow> ('r \<Rightarrow> hash_db) \<Rightarrow> 'r RedisStorage \<Rightarrow> mailbox" where
  "redis_box X hashes s k i =
     Option.bind (hashes (rs_client s) (queueKey k) (uuid_String X i)) (decodeMessage X)"

text \<open>What is read back of a message.\<close>

definition redis_keep :: "externs \<Rightarrow> Message \<Rightarrow> Message option" where
  "redis_keep X m = Option.bind (encode X m) (decodeMessage X)"

definition redis_inv :: "externs \<Rightarrow> ('r \<Rightarrow> hash_db) \<Rightarrow> 'r RedisStorage \<Rightarrow> bool" where
  "redis_inv X hashes s \<longleftrightarrow> (\<forall>k f v m. hashes (rs_client s) (queueKey k) f = Some v \<longrightarrow>
     decodeMessage X v = Some m \<longrightarrow> f = uuid_String X (msg_id m))"

lemma queueKey_inj [simp]: "queueKey k = queueKey k' \<longleftrightarrow> k = k'"
  by (simp add: queueKey_def)

lemma redis_same:
  assumes "hashes (rs_client s') = hashes (rs_client s)"
  shows "redis_inv X hashes s' = redis_inv X hashes s" and "redis_box X hashes s' = redis_box X hashes s"
  using assms by (simp_all add: redis_inv_def redis_box_def fun_eq_iff)

lemma lift_client_eq:
  "lift_client er s = (e, s') \<Longrightarrow> er = (e, rs_client s') \<and> s' = s\<lparr>rs_client := rs_client s'\<rparr>"
  by (auto simp: lift_client_def)

locale redis_backend = redis_server R hashes pending rank + codec X
  for R :: "('r, 'o) redis" and hashes :: "'r \<Rightarrow> hash_db"
    and pending :: "'r \<Rightarrow> 64 word \<Rightarrow> string set" and rank :: "'r \<Rightarrow> 64 word \<Rightarrow> nat" and X :: externs +
  fixes ord :: range_order
  assumes ord: "range_order_ok ord"
begin

abbreviation rinv :: "'r RedisStorage \<Rightarrow> bool" where "rinv \<equiv> redis_inv X hashes"
abbreviation rbox :: "'r RedisStorage \<Rightarrow> mailbox" where "rbox \<equiv> redis_box X hashes"
abbreviation str :: "uuid \<Rightarrow> string" where "str \<equiv> uuid_String X"

lemma str_inj [simp]: "str i = str j \<longleftrightarrow> i = j"
  using uuid_String_inj by blast

lemma rinvD: "rinv s \<Longrightarrow> hashes (rs_client s) (queueKey k) f = Some v \<Longrightarrow> decodeMessage X v = Some m \<Longrightarrow>
    f = str (msg_id m)"
  unfolding redis_inv_def by blast

lemma rbox_id:
  assumes "rinv s" and "rbox s k i = Some m"
  shows "msg_id m = i"
proof -
  obtain v where "hashes (rs_client s) (queueKey k) (str i) = Some v" "decodeMessage X v = Some m"
    using assms(2) by (auto simp: redis_box_def bind_eq_Some_conv)
  from rinvD [OF assms(1) this] show ?thesis by simp
qed

text \<open>The effect of each write command on the mailbox.\<close>

lemma hset_effect:
  assumes "rinv s" and "encode X m = Some b"
    and "hashes (rs_client s') = cmd_effect (HSet (queueKey k) (str (msg_id m)) b) (hashes (rs_client s))"
  shows "rinv s' \<and> rbox s' = box_put k (msg_id m) (redis_keep X m) (rbox s)"
proof
  have h: "hashes (rs_client s') (queueKey k') f =
      (if k' = k \<and> f = str (msg_id m) then Some b else hashes (rs_client s) (queueKey k') f)" for k' f
    using assms(3) by simp
  show "rinv s'" unfolding redis_inv_def
  proof (intro allI impI)
    fix k' f v m'
    assume v: "hashes (rs_client s') (queueKey k') f = Some v" and m': "decodeMessage X v = Some m'"
    show "f = str (msg_id m')"
    proof (cases "k' = k \<and> f = str (msg_id m)")
      case True
      then show ?thesis using v m' decode_encode_id [OF assms(2)] unfolding h by simp
    next
      case False
      then show ?thesis using v m' rinvD [OF assms(1)] unfolding h by (simp split: if_splits)
    qed
  qed
  show "rbox s' = box_put k (msg_id m) (redis_keep X m) (rbox s)"
    unfolding fun_eq_iff redis_box_def h by (simp add: box_put_def redis_keep_def redis_box_def assms(2))
qed

lemma hdel_effect:
  assumes "rinv s" and "hashes (rs_client s') = cmd_effect (HDel (queueKey k) (str i)) (hashes (rs_client s))"
  shows "rinv s' \<and> rbox s' = box_del k i (rbox s)"
  using assms by (auto simp: redis_inv_def redis_box_def box_del_def fun_eq_iff split: if_splits)

lemma del_effect:
  assumes "rinv s" and "hashes (rs_client s') = cmd_effect (Del (queueKey k)) (hashes (rs_client s))"
  shows "rinv s' \<and> rbox s' = box_clear k (rbox s)"
  using assms by (auto simp: redis_inv_def redis_box_def box_clear_def fun_eq_iff split: if_splits)

text \<open>Reading a queue can only make entries disappear that do not decode, which no mailbox shows.\<close>

definition purged :: "hash_db \<Rightarrow> hash_db \<Rightarrow> bool" where
  "purged h h' \<longleftrightarrow> (\<forall>k f. h' k f = h k f \<or> h' k f = None \<and> Option.bind (h k f) (decodeMessage X) = None)"

lemma purged_box:
  assumes "purged (hashes (rs_client s)) (hashes (rs_client s'))" and "rinv s"
  shows "rinv s' \<and> rbox s' = rbox s"
proof -
  have "hashes (rs_client s') k f = Some v \<Longrightarrow> hashes (rs_client s) k f = Some v" for k f v
    using assms(1) unfolding purged_def by (metis option.distinct(1))
  then have "rinv s'" using assms(2) unfolding redis_inv_def by blast
  moreover have "Option.bind (hashes (rs_client s') k f) (decodeMessage X) =
      Option.bind (hashes (rs_client s) k f) (decodeMessage X)" for k f
    using assms(1) unfolding purged_def by (metis bind.bind_lzero)
  ultimately show ?thesis by (simp add: redis_box_def fun_eq_iff)
qed

lemma purged_hdel:
  assumes "purged h h'" and "Option.bind (h k f) (decodeMessage X) = None" and "h'' \<in> {h', cmd_effect (HDel k f) h'}"
  shows "purged h h''"
proof -
  have "purged h (h'(k := (h' k)(f := None)))"
    unfolding purged_def
  proof (intro allI)
    fix k' f'
    show "(h'(k := (h' k)(f := None))) k' f' = h k' f' \<or>
        (h'(k := (h' k)(f := None))) k' f' = None \<and> Option.bind (h k' f') (decodeMessage X) = None"
    proof (cases "k' = k \<and> f' = f")
      case False
      then have "(h'(k := (h' k)(f := None))) k' f' = h' k' f'" by auto
      then show ?thesis using assms(1) unfolding purged_def by metis
    qed (simp add: assms(2))
  qed
  then show ?thesis using assms(1,3) by auto
qed

lemma decode_loop_spec:
  "purged h (hashes r) \<Longrightarrow> h qk = gm_get vals \<Longrightarrow> decode_loop R X qk vals fs r = (ms, r') \<Longrightarrow>
     purged h (hashes r') \<and> ms = List.map_filter (\<lambda>f. Option.bind (gm_get vals f) (decodeMessage X)) fs"
proof (induction fs arbitrary: r ms r')
  case Nil
  then show ?case by (simp add: map_filter_simps)
next
  case (Cons f fs)
  consider "gm_get vals f = None" | (poison) v where "gm_get vals f = Some v" "decodeMessage X v = None"
    | (good) v m where "gm_get vals f = Some v" "decodeMessage X v = Some m"
    by (cases "gm_get vals f"; cases "decodeMessage X (the (gm_get vals f))") auto
  then show ?case
  proof cases
    case 1
    then show ?thesis using Cons by (simp add: map_filter_simps)
  next
    case poison
    obtain e r1 where d: "rd_Do R (HDel qk f) r = (e, r1)" by fastforce
    have "purged h (hashes r1)"
      using purged_hdel [OF Cons.prems(1), of qk f "hashes r1"] run_cmd [OF d] poison Cons.prems(2) by auto
    then show ?thesis using Cons.IH [of r1] Cons.prems(2,3) poison d by (simp add: map_filter_simps)
  next
    case good
    then show ?thesis using Cons.IH [OF Cons.prems(1,2)] Cons.prems(3)
      by (auto simp: map_filter_simps split: prod.splits)
  qed
qed

lemma placed_distinct:
  assumes "distinct fs" and "\<And>f m. g f = Some m \<Longrightarrow> f = str (msg_id m)"
  shows "distinct (map msg_id (List.map_filter g fs)) \<and> set (List.map_filter g fs) = {m. \<exists>f \<in> set fs. g f = Some m}"
proof -
  have "map (\<lambda>m. str (msg_id m)) (List.map_filter g fs) = filter (\<lambda>f. g f \<noteq> None) fs"
    by (induction fs) (auto simp: map_filter_simps dest: assms(2) split: option.splits)
  then have "distinct (map str (map msg_id (List.map_filter g fs)))" using assms(1) by (simp add: comp_def)
  then have "distinct (map msg_id (List.map_filter g fs))" using distinct_map by blast
  moreover have "m \<in> set (List.map_filter g fs) \<longleftrightarrow> (\<exists>f \<in> set fs. g f = Some m)" for m
    by (induction fs) (auto simp: map_filter_simps split: option.splits)
  ultimately show ?thesis by blast
qed

lemma GetQueue_spec:
  assumes "rinv s" and "redis_GetQueue R X ord k s = (res, s')"
  shows "rinv s' \<and> rbox s' = rbox s \<and>
         (\<forall>ms. res = Inr ms \<longrightarrow> distinct (map msg_id ms) \<and> queue_map ms = rbox s k \<and> sorted (map date ms))"
proof -
  obtain a r where h: "rd_HGetAll R (queueKey k) (rs_client s) = (a, r)" by fastforce
  note law = hgetall [OF h]
  show ?thesis
  proof (cases a)
    case (Inl e)
    then have "res = Inl e" "s' = s\<lparr>rs_client := r\<rparr>" using assms(2) h by (simp_all add: redis_GetQueue_def)
    then show ?thesis using law assms(1) redis_same [of hashes s' s] by simp
  next
    case (Inr vals)
    let ?g = "\<lambda>f. Option.bind (gm_get vals f) (decodeMessage X)" and ?h = "hashes (rs_client s)"
    obtain q r' where d: "decode_loop R X (queueKey k) vals (ord (gm_keys vals)) r = (q, r')" by fastforce
    have res: "res = Inr (sort_key date q)" "s' = s\<lparr>rs_client := r'\<rparr>"
      using assms(2) h Inr d by (simp_all add: redis_GetQueue_def)
    have v: "gm_ok vals" "gm_get vals = ?h (queueKey k)" "hashes r = ?h" using law Inr by auto
    have dl: "purged ?h (hashes r')" "q = List.map_filter ?g (ord (gm_keys vals))"
      using decode_loop_spec [OF _ _ d, of ?h] v by (simp_all add: purged_def)
    have pl: "f = str (msg_id m)" if "?g f = Some m" for f m
      using that rinvD [OF assms(1)] unfolding v(2) by (auto simp: bind_eq_Some_conv)
    have q: "distinct (map msg_id q)" "set q = {m. \<exists>f \<in> set (gm_keys vals). ?g f = Some m}"
      using placed_distinct [of "ord (gm_keys vals)" ?g] pl v(1)
      unfolding dl(2) gm_ok_def by (simp_all add: range_order_distinct [OF ord] range_order_set [OF ord] del: set_map)
    have dist: "distinct (map msg_id (sort_key date q))"
      using q(1) by (metis mset_eq_imp_distinct_iff mset_map mset_sort)
    have "queue_map (sort_key date q) i = Some m \<longleftrightarrow> rbox s k i = Some m" for i m
    proof -
      have "queue_map (sort_key date q) i = Some m \<longleftrightarrow> (\<exists>f \<in> set (gm_keys vals). ?g f = Some m) \<and> msg_id m = i"
        by (simp add: queue_map_iff [OF dist] q(2) del: set_map)
      also have "\<dots> \<longleftrightarrow> ?g (str i) = Some m"
      proof
        assume "(\<exists>f \<in> set (gm_keys vals). ?g f = Some m) \<and> msg_id m = i"
        then show "?g (str i) = Some m" using pl by blast
      next
        assume g: "?g (str i) = Some m"
        then have "str i \<in> set (gm_keys vals)" by (cases "gm_get vals (str i)") (auto simp: gm_keys_iff simp del: set_map)
        then show "(\<exists>f \<in> set (gm_keys vals). ?g f = Some m) \<and> msg_id m = i" using g pl [OF g] by (auto simp del: set_map)
      qed
      finally show ?thesis by (simp add: redis_box_def v(2))
    qed
    then have "queue_map (sort_key date q) = rbox s k" by (metis ext option.exhaust)
    then show ?thesis using dist purged_box [OF _ assms(1), of s'] dl(1) by (simp add: res)
  qed
qed

lemma write_cases:
  assumes "rinv s" and "hashes (rs_client s') \<in> {hashes (rs_client s), h'}"
    and "e = None \<longrightarrow> hashes (rs_client s') = h'"
    and "\<And>s''. hashes (rs_client s'') = h' \<Longrightarrow> rinv s'' \<and> rbox s'' = b"
  shows "rinv s' \<and> rbox s' \<in> {rbox s, b} \<and> (e = None \<longrightarrow> rbox s' = b)"
proof (cases "hashes (rs_client s') = h'")
  case True
  then show ?thesis using assms(4) by simp
next
  case False
  then show ?thesis using redis_same [of hashes s' s] assms(1-3) by auto
qed

text \<open>Filling a queue from scratch.\<close>

lemma set_cmds_effect:
  assumes "set_cmds X qk q = Some cs" and "distinct (map msg_id q)"
  shows "fold cmd_effect cs h k = (if k = qk then (\<lambda>f. if \<exists>m \<in> set q. f = str (msg_id m)
           then Some (the (encode X (the (find (\<lambda>m. f = str (msg_id m)) q)))) else h k f) else h k) \<and>
         (\<forall>m \<in> set q. encode X m \<noteq> None)"
  using assms
proof (induction q arbitrary: cs h)
  case (Cons m q)
  then obtain b cs' where b: "encode X m = Some b" "set_cmds X qk q = Some cs'"
    and cs: "cs = HSet qk (str (msg_id m)) b # cs'" by (auto split: option.splits)
  have ids: "msg_id m \<notin> msg_id ` set q" using Cons.prems(2) by simp
  have ih: "fold cmd_effect cs' h' k = (if k = qk then (\<lambda>f. if \<exists>m \<in> set q. f = str (msg_id m)
           then Some (the (encode X (the (find (\<lambda>m. f = str (msg_id m)) q)))) else h' k f) else h' k) \<and>
         (\<forall>m \<in> set q. encode X m \<noteq> None)" for h'
    using Cons.IH [OF b(2)] Cons.prems(2) by simp
  have "\<forall>m' \<in> set (m # q). encode X m' \<noteq> None" using ih [of h] b(1) by simp
  then show ?case using ids b(1) ih [THEN conjunct1] by (auto simp: cs fun_eq_iff image_iff)
qed simp

lemma contract_set_queue:
  assumes "rinv s" and "distinct (map msg_id q)" and "q \<noteq> []" and "redis_SetQueue R X k q s = (e, s')"
  shows "rinv s' \<and> rbox s' \<in> {rbox s, (rbox s)(k := (\<lambda>i. Option.bind (queue_map q i) (redis_keep X)))} \<and>
         (e = None \<longrightarrow> rbox s' = (rbox s)(k := (\<lambda>i. Option.bind (queue_map q i) (redis_keep X))))"
proof (cases "set_cmds X (queueKey k) q")
  case None
  then show ?thesis using assms by (auto simp: redis_SetQueue_def)
next
  case (Some cs)
  let ?qk = "queueKey k" and ?h = "hashes (rs_client s)"
  define ex where "ex = (if 0 < rs_keyTTL s then [Expire_key ?qk (rs_keyTTL s)] else [])"
  obtain t where t: "rd_TxExec R ([Del ?qk] @ cs @ ex) (rs_client s) = (e, t)" "s' = s\<lparr>rs_client := t\<rparr>"
    using assms(3,4) Some by (auto simp: redis_SetQueue_def ex_def Let_def dest: lift_client_eq)
  have ex: "fold cmd_effect ex h = h" for h by (simp add: ex_def)
  note eff = set_cmds_effect [OF Some assms(2), of "cmd_effect (Del ?qk) ?h"]
  define h' where "h' = fold cmd_effect ([Del ?qk] @ cs @ ex) ?h"
  have f: "find (\<lambda>m'. str (msg_id m) = str (msg_id m')) q = Some m" if "m \<in> set q" for m
    using that assms(2) by (induction q) (auto simp: image_iff)
  have h': "h' k' = (if k' = ?qk then (\<lambda>f. if \<exists>m \<in> set q. f = str (msg_id m)
           then Some (the (encode X (the (find (\<lambda>m. f = str (msg_id m)) q)))) else None) else ?h k')" for k'
    using eff [of k'] by (auto simp: h'_def ex fun_eq_iff)
  have enc: "\<exists>b. encode X m = Some b" if "m \<in> set q" for m using eff [of k] that by auto
  have at: "h' ?qk (str (msg_id m)) = encode X m" if "m \<in> set q" for m
    using that enc [OF that] by (auto simp: h' f [OF that] simp del: str_inj)
  have good: "rinv s'' \<and> rbox s'' = (rbox s)(k := (\<lambda>i. Option.bind (queue_map q i) (redis_keep X)))"
    if s'': "hashes (rs_client s'') = h'" for s''
  proof
    show "rinv s''" unfolding redis_inv_def s''
    proof (intro allI impI)
      fix k' f v m
      assume v: "h' (queueKey k') f = Some v" and m: "decodeMessage X v = Some m"
      show "f = str (msg_id m)"
      proof (cases "k' = k")
        case True
        with v obtain m' where m': "m' \<in> set q" "f = str (msg_id m')" unfolding h' by (auto split: if_splits)
        then have e: "encode X m' = Some v" using at [OF m'(1)] v True by simp
        then show ?thesis using decode_encode_id [OF e m] m'(2) by simp
      next
        case False
        then show ?thesis using v m rinvD [OF assms(1)] unfolding h' by simp
      qed
    qed
    have new: "Option.bind (h' ?qk (str i)) (decodeMessage X) = Option.bind (queue_map q i) (redis_keep X)" for i
    proof (cases "\<exists>m \<in> set q. msg_id m = i")
      case True
      then obtain m where m: "m \<in> set q" "msg_id m = i" by blast
      obtain b where b: "encode X m = Some b" using enc m(1) by blast
      have "queue_map q i = Some m" using m assms(2) by (simp add: queue_map_iff)
      then show ?thesis using at [OF m(1)] b m(2) by (simp add: redis_keep_def)
    next
      case False
      then have "h' ?qk (str i) = None" unfolding h' by auto
      moreover have "i \<notin> dom (queue_map q)" using False by (auto simp: dom_queue_map)
      ultimately show ?thesis by (simp add: domIff)
    qed
    have "h' (queueKey k') = ?h (queueKey k')" if "k' \<noteq> k" for k' using that unfolding h' by simp
    then show "rbox s'' = (rbox s)(k := (\<lambda>i. Option.bind (queue_map q i) (redis_keep X)))"
      using new by (auto simp: redis_box_def fun_eq_iff s'' simp del: bind_eq_Some_conv)
  qed
  have law: "hashes t \<in> {?h, h'}" "e = None \<longrightarrow> hashes t = h'" using run_tx [OF t(1)] unfolding h'_def by auto
  show ?thesis by (rule write_cases [OF assms(1) _ _ good]) (use law t(2) in simp_all)
qed

lemma contract_add:
  assumes "rinv s" and "redis_AddMessage R X k m s = (e, s')"
  shows "rinv s' \<and> rbox s' \<in> {rbox s, box_put k (msg_id m) (redis_keep X m) (rbox s)} \<and>
         (e = None \<longrightarrow> rbox s' = box_put k (msg_id m) (redis_keep X m) (rbox s))"
proof (cases "encode X m")
  case None
  then show ?thesis using assms by (auto simp: redis_AddMessage_def)
next
  case (Some b)
  let ?c = "HSet (queueKey k) (str (msg_id m)) b"
  have "hashes (rs_client s') \<in> {hashes (rs_client s), cmd_effect ?c (hashes (rs_client s))} \<and>
      (e = None \<longrightarrow> hashes (rs_client s') = cmd_effect ?c (hashes (rs_client s)))"
  proof (cases "rs_keyTTL s \<le> 0")
    case True
    then show ?thesis using assms(2) Some run_cmd [of ?c "rs_client s"]
      by (auto simp: redis_AddMessage_def Let_def simp del: cmd_effect.simps dest!: lift_client_eq)
  next
    case False
    then show ?thesis using assms(2) Some run_tx [of "[?c, Expire_key (queueKey k) (rs_keyTTL s)]" "rs_client s"]
      by (auto simp: redis_AddMessage_def Let_def dest!: lift_client_eq)
  qed
  then show ?thesis using write_cases [OF assms(1)] hset_effect [OF assms(1) Some] by blast
qed

lemma contract_delete_message:
  assumes "rinv s" and "redis_DeleteMessage R X k i s = (e, s')"
  shows "rinv s' \<and> rbox s' \<in> {rbox s, box_del k i (rbox s)} \<and> (e = None \<longrightarrow> rbox s' = box_del k i (rbox s))"
proof -
  let ?c = "HDel (queueKey k) (str i)"
  have "rd_Do R ?c (rs_client s) = (e, rs_client s')"
    using assms(2) lift_client_eq unfolding redis_DeleteMessage_def by blast
  note law = run_cmd [OF this]
  show ?thesis by (rule write_cases [OF assms(1) _ _ hdel_effect [OF assms(1)]]) (use law in auto)
qed

lemma contract_delete_queue:
  assumes "rinv s" and "redis_DeleteQueue R k s = (e, s')"
  shows "rinv s' \<and> rbox s' \<in> {rbox s, box_clear k (rbox s)} \<and> (e = None \<longrightarrow> rbox s' = box_clear k (rbox s))"
proof -
  let ?c = "Del (queueKey k)"
  have "rd_Do R ?c (rs_client s) = (e, rs_client s')"
    using assms(2) lift_client_eq unfolding redis_DeleteQueue_def by blast
  note law = run_cmd [OF this]
  show ?thesis by (rule write_cases [OF assms(1) _ _ del_effect [OF assms(1)]]) (use law in auto)
qed

lemma contract_get_keys:
  assumes "rinv s" and "redis_GetKeys R s = (rk, s')"
  shows "rinv s' \<and> rbox s' = rbox s \<and> (\<forall>ks. rk = Inr ks \<longrightarrow> {k. rbox s k \<noteq> Map.empty} \<subseteq> set ks)"
proof -
  obtain res r where l: "scan_loop (2 ^ 64) R 0 [] (rs_client s) = (res, r)" by fastforce
  note law = scan_loop_spec [OF scan_bound l]
  have s': "rk = (case res of None \<Rightarrow> Inl ''scan'' | Some x \<Rightarrow> x)" "s' = s\<lparr>rs_client := r\<rparr>"
    using assms(2) l by (auto simp: redis_GetKeys_def)
  have "queueKey k \<in> pending (rs_client s) 0" if "rbox s k \<noteq> Map.empty" for k
  proof (rule scan_start)
    show "hashes (rs_client s) (queueKey k) \<noteq> Map.empty"
      using that by (metis bind.bind_lzero ext redis_box_def)
  qed
  then show ?thesis using law redis_same [of hashes s' s] assms(1) by (auto simp: s')
qed

end

text \<open>So the Redis backend meets the contract of \<^verbatim>\<open>storage.go\<close>.\<close>

sublocale redis_backend < storage_contract "RedisStorage_methods R X ord" rinv rbox "redis_keep X"
proof (unfold_locales, goal_cases)
  case (1 s k i m)
  then show ?case by (rule rbox_id)
next
  case (2 s k r s')
  then show ?case using GetQueue_spec by (simp add: RedisStorage_methods_def)
next
  case (3 s rk s')
  then show ?case using contract_get_keys by (simp add: RedisStorage_methods_def)
next
  case (4 s k m e s')
  then show ?case using contract_add by (simp add: RedisStorage_methods_def)
next
  case (5 s k i e s')
  then show ?case using contract_delete_message by (simp add: RedisStorage_methods_def)
next
  case (6 s k e s')
  then show ?case using contract_delete_queue by (simp add: RedisStorage_methods_def)
next
  case (7 s q k e s')
  then show ?case using contract_set_queue by (simp add: RedisStorage_methods_def)
next
  case (8 f s k e s')
  then show ?case using publish redis_same [of hashes s' s]
    by (auto simp: RedisStorage_methods_def redis_Notify_def dest!: lift_client_eq)
next
  case (9 p s e s')
  then show ?case using ping redis_same [of hashes s' s]
    by (auto simp: RedisStorage_methods_def redis_PingContext_def dest!: lift_client_eq)
qed

end
