(* ===== verification/System.thy ===== *)
theory System
  imports Conservation Redis_Storage
begin

text \<open>
  The running gateway as a transition system. A state is the engine together with the connections
  whose read loop and ping loop are still running. Each step is one whole handler, task or tick of
  \<^verbatim>\<open>src/engine.go\<close>, \<^verbatim>\<open>src/server.go\<close> and
  \<^verbatim>\<open>src/client.go\<close>, in any order: requests, frames, pings, worker tasks, overflow
  tasks, reconciliation, sweeps, notifications from other instances, and \<^verbatim>\<open>Stop\<close>.
  A shared backend may also change between steps: the relation \<open>dext\<close> of the deployment.
\<close>

record ('s, 'a) deployment =
  dS :: "'s Storage"
  dA :: "'a Authorizer"
  dX :: externs
  dflate :: "string \<Rightarrow> string \<times> bool"
  drender :: "(string \<times> string \<times> sample) list \<Rightarrow> string"
  dver :: "string \<times> string \<times> string"
  dext :: "'s \<Rightarrow> 's \<Rightarrow> bool"

text \<open>The background goroutines of \<^verbatim>\<open>Start\<close>, one of each.\<close>

datatype loop = SweepLoop | ReconcileLoop | SubscribeLoop

abbreviation all_loops :: "loop set" where
  "all_loops \<equiv> {SweepLoop, ReconcileLoop, SubscribeLoop}"

record ('s, 'a) sys =
  eng :: "('s, 'a) goctopus"
  readers :: "cid set"
  pingers :: "cid set"
  loops :: "loop set"

datatype event =
    EvHTTP http_env request
  | EvFrame time bool inbound cid
  | EvPing ping_event cid
  | EvWorker task_env
  | EvSpawned task_env nat
  | EvReconcile range_order range_order "nat \<Rightarrow> send_env"
  | EvSweep "nat \<Rightarrow> nat \<Rightarrow> time" time
  | EvNotified sub_event
  | EvLoopDone loop
  | EvStop
  | EvBackend

inductive step :: "('s, 'a) deployment \<Rightarrow> ('s, 'a) sys \<Rightarrow> event \<Rightarrow> ('s, 'a) sys \<Rightarrow> bool"
  for D :: "('s, 'a) deployment" where
  http: "ServeHTTP (dS D) (dA D) (dX D) (drender D) (dver D) H r (eng y) = (rep, g') \<Longrightarrow>
     step D y (EvHTTP H r)
       (y\<lparr>eng := g', readers := readers y \<union> {next_cid (eng y)..<next_cid g'},
          pingers := pingers y \<union> {next_cid (eng y)..<next_cid g'}\<rparr>)"
| frame: "c \<in> readers y \<Longrightarrow> readLoop_step (dS D) (dX D) (dflate D) now ok inb c (eng y) = (goes_on, g') \<Longrightarrow>
     step D y (EvFrame now ok inb c)
       (y\<lparr>eng := g', readers := (if goes_on then readers y else readers y - {c})\<rparr>)"
| ping: "c \<in> pingers y \<Longrightarrow> (ev = ConnDone \<longrightarrow> is_closed (heap (eng y) c)) \<Longrightarrow>
     (ev = CtxDone \<longrightarrow> cancelled (eng y)) \<Longrightarrow> pingLoop_step ev c (eng y) = (goes_on, g') \<Longrightarrow>
     step D y (EvPing ev c)
       (y\<lparr>eng := g', pingers := (if goes_on then pingers y else pingers y - {c})\<rparr>)"
| worker: "work (eng y) \<noteq> [] \<Longrightarrow>
     step D y (EvWorker T) (y\<lparr>eng := worker (dS D) (dX D) T (eng y)\<rparr>)"
| spawned: "n < length (spawned (eng y)) \<Longrightarrow>
     step D y (EvSpawned T n) (y\<lparr>eng := run_spawned (dS D) (dX D) T n (eng y)\<rparr>)"
| reconcile: "ReconcileLoop \<in> loops y \<Longrightarrow>
     step D y (EvReconcile o1 o2 E) (y\<lparr>eng := reconcile (dS D) (dX D) o1 o2 E (eng y)\<rparr>)"
| sweep: "SweepLoop \<in> loops y \<Longrightarrow>
     step D y (EvSweep now pnow) (y\<lparr>eng := sweepExpired (dS D) now pnow (eng y)\<rparr>)"
| loop_done: "l \<in> loops y \<Longrightarrow> cancelled (eng y) \<Longrightarrow> step D y (EvLoopDone l) (y\<lparr>loops := loops y - {l}\<rparr>)"
| notified: "SubscribeLoop \<in> loops y \<Longrightarrow> st_Notify (dS D) \<noteq> None \<Longrightarrow> (ev = SubDone \<longrightarrow> cancelled (eng y)) \<Longrightarrow>
     Subscribe_step ev (\<lambda>key. schedule (FlushTask key)) (eng y) = (goes_on, g') \<Longrightarrow>
     step D y (EvNotified ev)
       (y\<lparr>eng := g', loops := (if goes_on then loops y else loops y - {SubscribeLoop})\<rparr>)"
| stop: "step D y EvStop (y\<lparr>eng := Stop (eng y)\<rparr>)"
| backend: "dext D (store (eng y)) s \<Longrightarrow> step D y EvBackend (y\<lparr>eng := (eng y)\<lparr>store := s\<rparr>\<rparr>)"

text \<open>Executions, from the state \<^verbatim>\<open>Start\<close> builds.\<close>

inductive reach :: "('s, 'a) deployment \<Rightarrow> ('s, 'a) goctopus \<Rightarrow> ('s, 'a) sys \<Rightarrow> bool"
  for D :: "('s, 'a) deployment" and g0 :: "('s, 'a) goctopus" where
  init: "reach D g0 \<lparr>eng = g0, readers = {}, pingers = {}, loops = all_loops\<rparr>"
| next_step: "reach D g0 y \<Longrightarrow> step D y ev y' \<Longrightarrow> reach D g0 y'"

inductive_cases step_cases: "step D y ev y'"

subsection \<open>The registry and the read loops\<close>

text \<open>How an operation that only serves a connection changes it: its keys stay, it is not reopened, no
  frame is taken back, and nothing leaves the in-flight table but, perhaps, the ids of \<open>A\<close>.\<close>

definition client_le :: "uuid set \<Rightarrow> client \<Rightarrow> client \<Rightarrow> bool" where
  "client_le A cl cl' \<longleftrightarrow> ckeys cl' = ckeys cl \<and> compress cl' = compress cl \<and>
     (is_closed cl \<longrightarrow> is_closed cl') \<and> prefix (wire cl) (wire cl') \<and>
     (\<forall>i k. i \<notin> A \<longrightarrow> inflight cl i = Some k \<longrightarrow> inflight cl' i = Some k)"

lemma client_le_refl [simp]: "client_le A cl cl"
  by (simp add: client_le_def)

lemma client_le_trans: "client_le A a b \<Longrightarrow> client_le A b c \<Longrightarrow> client_le A a c"
  unfolding client_le_def by (metis prefix_order.order_trans)

lemma client_le_mono: "client_le A a b \<Longrightarrow> A \<subseteq> B \<Longrightarrow> client_le B a b"
  unfolding client_le_def by blast

text \<open>Operations that leave the registry, the authorizer and the configuration alone and only serve the
  clients; \<open>A\<close> gives the ids each client may lose.\<close>

definition same_registry_upto :: "(cid \<Rightarrow> uuid set) \<Rightarrow> ('s, 'a) goctopus \<Rightarrow> ('s, 'a) goctopus \<Rightarrow> bool" where
  "same_registry_upto A g g' \<longleftrightarrow> Conns g' = Conns g \<and> patterns g' = patterns g \<and> next_cid g' = next_cid g \<and>
     authz g' = authz g \<and> config g' = config g \<and> (cancelled g \<longrightarrow> cancelled g') \<and>
     (\<forall>c. client_le (A c) (heap g c) (heap g' c))"

abbreviation same_registry :: "('s, 'a) goctopus \<Rightarrow> ('s, 'a) goctopus \<Rightarrow> bool" where
  "same_registry \<equiv> same_registry_upto (\<lambda>_. {})"

lemma same_registry_refl [simp]: "same_registry_upto A g g"
  by (simp add: same_registry_upto_def)

lemma same_registry_trans:
  "same_registry_upto A g1 g2 \<Longrightarrow> same_registry_upto A g2 g3 \<Longrightarrow> same_registry_upto A g1 g3"
  unfolding same_registry_upto_def using client_le_trans by metis

lemma same_registry_mono: "same_registry g g' \<Longrightarrow> same_registry_upto A g g'"
  unfolding same_registry_upto_def using client_le_mono by (metis empty_subsetI)

lemma same_registry_heap: "same_registry_upto A g g' \<Longrightarrow> client_le (A c) (heap g c) (heap g' c)"
  by (simp add: same_registry_upto_def)

lemma same_registry_ok: "same_registry_upto A g g' \<Longrightarrow> reg_ok g \<Longrightarrow> reg_ok g'"
  by (rule reg_ok_cong [of _ g]) (auto simp: same_registry_upto_def client_le_def)

lemma same_registry_registered: "same_registry_upto A g g' \<Longrightarrow> registered g' c = registered g c"
  by (simp add: same_registry_upto_def registered_def)

lemma same_registry_client:
  "client_le (A c) (heap g c) cl \<Longrightarrow> same_registry_upto A g (set_client c cl g)"
  by (simp add: same_registry_upto_def set_client_def)

lemma client_le_close: "client_le A cl (close_client cl)"
  by (simp add: client_le_def close_client_def)

lemma client_le_writers:
  "client_le A cl (snd (writeMessage now ok data cl))" "client_le A cl (snd (writePing now ok cl))"
  "client_le A cl (snd (writePong now ok data cl))"
  by (auto simp: client_le_def writeMessage_def writePing_def writePong_def Let_def frame_simps)

lemma client_le_deliver_one: "client_le A cl (deliver_one E i m data key c cl)"
proof (cases "is_closed cl \<or> inflight cl (msg_id m) \<noteq> None")
  case True
  then have "deliver_one E i m data key c cl = cl" by (auto simp: deliver_one_def markInflight_def)
  then show ?thesis by simp
next
  case False
  then show ?thesis
    by (cases "se_ok E i c") (auto simp: client_le_def deliver_one_sent deliver_one_failed)
qed

lemma client_le_deliver: "client_le A cl (deliver X E i key c ms cl)"
  by (induction ms arbitrary: i cl)
     (auto intro: client_le_trans [OF client_le_deliver_one] split: option.splits)

lemma sendMessages_heap:
  assumes "st_GetQueue S key (store g) = (r, s)"
  shows "heap (sendMessages S X E key g) c =
     (if c \<in> set (clientsForKey (se_ord E) key g)
      then (case r of Inl e \<Rightarrow> heap g c | Inr q \<Rightarrow> deliver X E 0 key c q (heap g c)) else heap g c)"
  using assms
  by (cases r) (auto simp: sendMessages_def getMsgQueue_def Let_def send_loop_heap clients_distinct)

lemma sendMessages_registry: "same_registry g (sendMessages S X E key g)"
proof -
  obtain r s where q: "st_GetQueue S key (store g) = (r, s)" by fastforce
  have "client_le {} (heap g c) (heap (sendMessages S X E key g) c)" for c
    by (auto simp: sendMessages_heap [OF q] client_le_deliver split: sum.splits)
  then show ?thesis using flush_frameD [OF sendMessages_frame [of g S X E key]]
    by (simp add: same_registry_upto_def)
qed

lemma flush_keys_registry: "same_registry g (flush_keys S X E ks g)"
  by (induction ks arbitrary: E g) (auto intro: same_registry_trans [OF sendMessages_registry])

lemma same_registry_update [simp]:
  "same_registry g (g\<lparr>history := h\<rparr>)" "same_registry g (g\<lparr>work := w\<rparr>)" "same_registry g (g\<lparr>spawned := w\<rparr>)"
  "same_registry g (g\<lparr>expired := n\<rparr>)" "same_registry g (g\<lparr>delivered := n\<rparr>)" "same_registry g (g\<lparr>received := n\<rparr>)"
  "same_registry g (g\<lparr>cancelled := True\<rparr>)" "same_registry g (g\<lparr>limiter := l, authFail := n\<rparr>)"
  "same_registry g (g\<lparr>keysVal := n, keysAt := t\<rparr>)" "same_registry g (g\<lparr>store := s\<rparr>)"
  "same_registry g (schedule t' g)"
  by (simp_all add: same_registry_upto_def schedule_def)

lemma getMsgQueue_registry: "getMsgQueue S k g = (r, g') \<Longrightarrow> same_registry g g'"
  by (cases "st_GetQueue S k (store g)") (auto simp: getMsgQueue_def)

lemma get_keys_registry: "get_keys S g = (r, g') \<Longrightarrow> same_registry g g'"
  by (cases "st_GetKeys S (store g)") (auto simp: get_keys_def)

lemma storageKeysMatching_registry: "storageKeysMatching S p g = (ks, g') \<Longrightarrow> same_registry g g'"
  by (cases "get_keys S g") (auto simp: storageKeysMatching_def dest: get_keys_registry split: sum.splits)

lemma deleteMsgById_registry: "deleteMsgById S k i g = (e, g') \<Longrightarrow> same_registry g g'"
  by (cases "st_DeleteMessage S k i (store g)") (auto simp: deleteMsgById_def)

lemma deleteMsgQueue_registry: "same_registry g (deleteMsgQueue S k g)"
  by (cases "st_DeleteQueue S k (store g)") (simp add: deleteMsgQueue_def)

lemma queueMessage_registry: "same_registry g (queueMessage S m g)"
  by (cases "st_AddMessage S (Key m) m (store g)") (simp add: queueMessage_def)

lemma notify_registry: "same_registry g (notify S k g)"
proof (cases "st_Notify S")
  case (Some f)
  then show ?thesis by (cases "f k (store g)") (simp add: notify_def)
qed (simp add: notify_def)

lemma post_key_registry: "same_registry g (post_key S X now E m k g)"
  unfolding post_key_def Let_def
  by (rule same_registry_trans [OF queueMessage_registry],
      rule same_registry_trans [OF same_registry_update(1)], rule same_registry_trans [OF notify_registry],
      rule sendMessages_registry)

lemma post_keys_registry: "same_registry g (post_keys S X T n m ks g)"
  by (induction ks arbitrary: n g) (auto intro: same_registry_trans [OF post_key_registry])

lemma connect_keys_registry: "same_registry g (connect_keys S X T n ks g)"
proof (induction ks arbitrary: n g)
  case (Cons k ks)
  obtain sks g1 where m: "storageKeysMatching S k g = (sks, g1)" by fastforce
  have "same_registry g (if hasWildcard k then flush_keys S X (te_send T n) sks g1
      else sendMessages S X (te_send T n 0) k g)"
    using same_registry_trans [OF storageKeysMatching_registry [OF m] flush_keys_registry] sendMessages_registry
    by auto
  then show ?case using Cons.IH same_registry_trans by (fastforce simp: m)
qed simp

lemma run_task_registry: "same_registry g (run_task S X T t g)"
  by (cases t) (simp_all add: post_keys_registry connect_keys_registry sendMessages_registry)

lemma worker_registry: "same_registry g (worker S X T g)"
  by (auto simp: worker_def same_registry_trans [OF same_registry_update(2) run_task_registry]
      split: list.splits)

lemma run_spawned_registry: "same_registry g (run_spawned S X T n g)"
  by (simp add: run_spawned_def same_registry_trans [OF same_registry_update(3) run_task_registry])

lemma match_patterns_registry: "match_patterns S ps g = (ks, g') \<Longrightarrow> same_registry g g'"
proof (induction ps arbitrary: g ks g')
  case (Cons p ps)
  obtain k1 g1 where m: "storageKeysMatching S p g = (k1, g1)" by fastforce
  obtain k2 g2 where m2: "match_patterns S ps g1 = (k2, g2)" by fastforce
  show ?case
    using same_registry_trans [OF storageKeysMatching_registry [OF m] Cons.IH [OF m2]] Cons.prems
    by (simp add: m m2)
qed simp

lemma reconcile_registry: "same_registry g (reconcile S X o1 o2 E g)"
proof -
  obtain sks g1 where m: "match_patterns S (filter hasWildcard (o1 (gm_keys (Conns g)))) g = (sks, g1)"
    by fastforce
  show ?thesis using same_registry_trans [OF match_patterns_registry [OF m] flush_keys_registry]
    by (simp add: reconcile_def Let_def m)
qed

lemma sweep_loop_registry: "sweep_loop S now n key ms r g = (r', g') \<Longrightarrow> same_registry g g'"
proof (induction ms arbitrary: n r g)
  case (Cons m ms)
  obtain e g1 where d: "deleteMsgById S key (msg_id m) g = (e, g1)" by fastforce
  show ?case
  proof (cases "isExpired (now n) m")
    case True
    then have "sweep_loop S now (n + 1) key ms (r + 1) g1 = (r', g')" using Cons.prems d by simp
    then show ?thesis using same_registry_trans [OF deleteMsgById_registry [OF d]] Cons.IH by blast
  next
    case False
    then have "sweep_loop S now (n + 1) key ms r g = (r', g')" using Cons.prems by simp
    then show ?thesis by (rule Cons.IH)
  qed
qed simp

lemma sweepKey_registry: "same_registry g (sweepKey S now key g)"
proof -
  obtain r g1 where q: "getMsgQueue S key g = (r, g1)" by fastforce
  obtain n g2 where l: "sweep_loop S now 0 key (projr r) 0 g1 = (n, g2)" by fastforce
  note 1 = getMsgQueue_registry [OF q] and 2 = same_registry_trans [OF getMsgQueue_registry [OF q] sweep_loop_registry [OF l]]
  show ?thesis using 1 2 l same_registry_trans [OF 2 same_registry_update(4)]
    by (cases r) (simp_all add: sweepKey_def q)
qed

lemma sweep_keys_registry: "same_registry g (sweep_keys S now n ks g)"
proof (induction ks arbitrary: n g)
  case (Cons k ks)
  show ?case using same_registry_trans [OF sweepKey_registry Cons.IH] by simp
qed simp

lemma sweepExpired_registry: "same_registry g (sweepExpired S now pnow g)"
proof -
  obtain r g1 where q: "get_keys S g = (r, g1)" by fastforce
  note 1 = get_keys_registry [OF q]
  note 2 = same_registry_trans [OF same_registry_trans [OF 1 sweep_keys_registry] same_registry_update(1)]
  show ?thesis using 1 2 by (cases r) (simp_all add: sweepExpired_def q Let_def)
qed

text \<open>Only the ACK of an id takes it out of the table.\<close>

definition acks :: "externs \<Rightarrow> (string \<Rightarrow> string \<times> bool) \<Rightarrow> inbound \<Rightarrow> cid \<Rightarrow> ('s, 'a) goctopus \<Rightarrow> uuid \<Rightarrow> bool" where
  "acks X flate inb c g i \<longleftrightarrow>
     (case read_message flate (MaxMessageBytes (config g)) (compress (heap g c)) inb of
        Some (opc, p) \<Rightarrow> opc \<in> {OpText, OpBinary} \<and> ack_id X p = Some i
      | None \<Rightarrow> False)"

lemma handleAck_registry:
  "same_registry_upto ((\<lambda>_. {})(c := {i. ack_id X payload = Some i})) g (handleAck S X c payload g)"
proof (cases "ack_id X payload")
  case (Some i)
  let ?A = "(\<lambda>_. {})(c := {i. ack_id X payload = Some i}) :: cid \<Rightarrow> uuid set"
  obtain k cl where t: "takeInflight i (heap g c) = (k, cl)" by fastforce
  have "client_le {i} (heap g c) cl" using t by (auto simp: takeInflight_def client_le_def split: option.splits)
  then have 1: "same_registry_upto ?A g (set_client c cl g)" by (intro same_registry_client) (simp add: Some)
  obtain e g2 where d: "deleteMsgById S (the k) i (set_client c cl g) = (e, g2)" by fastforce
  note 2 = same_registry_trans [OF 1 same_registry_mono [OF deleteMsgById_registry [OF d]]]
  note u = same_registry_mono [OF same_registry_update(5)]
  show ?thesis
    using same_registry_trans [OF 1 u] same_registry_trans [OF 2 u] d
    by (cases k) (simp_all add: handleAck_def Some t Let_def)
qed (simp add: handleAck_def)

lemma readLoop_body_registry:
  assumes "readLoop_body S X flate now ok inb c g = (b, g')"
  shows "same_registry_upto ((\<lambda>_. {})(c := {i. acks X flate inb c g i})) g g'"
proof (cases "read_message flate (MaxMessageBytes (config g)) (compress (heap g c)) inb")
  case (Some op)
  obtain opc p where op: "op = (opc, p)" by fastforce
  have pong: "same_registry_upto A g (set_client c (snd (writePong now ok p (heap g c))) g)" for A
    by (rule same_registry_client) (rule client_le_writers)
  have a: "{i. acks X flate inb c g i} = {i. ack_id X p = Some i}" if "opc \<in> {OpText, OpBinary}"
    using that by (simp add: acks_def Some op)
  show ?thesis using assms handleAck_registry [of c X p g S] pong a
    by (cases opc) (auto simp: readLoop_body_def Some op case_prod_beta Let_def simp del: fun_upd_apply)
qed (use assms in \<open>simp add: readLoop_body_def\<close>)

lemma pingLoop_registry: "pingLoop_step ev c g = (b, g') \<Longrightarrow> same_registry g g'"
proof -
  have "same_registry g (set_client c (close_client (heap g c)) g)"
    "same_registry g (set_client c (snd (writePing now ok (heap g c))) g)"
    "same_registry g (set_client c (close_client (snd (writePing now ok (heap g c)))) g)" for now ok
    using client_le_writers(2) client_le_close client_le_trans by (blast intro: same_registry_client)+
  then show "pingLoop_step ev c g = (b, g') \<Longrightarrow> same_registry g g'"
    by (auto simp: pingLoop_step_def case_prod_beta split: ping_event.splits if_splits)
qed

lemma notified_registry: "Subscribe_step ev (\<lambda>key. schedule (FlushTask key)) g = (b, g') \<Longrightarrow> same_registry g g'"
  by (auto simp: Subscribe_step_def split: sub_event.splits)

lemma Stop_registry: "same_registry g (Stop g)"
proof -
  have "same_registry g (fold (\<lambda>c g. set_client c (close_client (heap g c)) g) cs g)" for cs g
  proof (induction cs arbitrary: g)
    case (Cons c cs)
    have "same_registry g (set_client c (close_client (heap g c)) g)"
      by (rule same_registry_client) (rule client_le_close)
    then show ?case using same_registry_trans [OF _ Cons.IH] by simp
  qed simp
  from same_registry_trans [OF same_registry_update(7) this] show ?thesis by (simp add: Stop_def Let_def)
qed

lemma handlePost_registry: "handlePost X now newid r g = (rep, g') \<Longrightarrow> same_registry g g'"
  using same_registry_trans [OF same_registry_update(6) same_registry_update(11)]
  by (auto simp: handlePost_def Let_def split: unmarshal_result.splits)

lemma getMarshalled_registry:
  "getMarshalledKeys S X g = (r, g') \<Longrightarrow> same_registry g g'"
  "getMarshalledMessages S X now k g = (r, g') \<Longrightarrow> same_registry g g'"
  using get_keys_registry [of S g] getMsgQueue_registry [of S k g]
  by (auto simp: getMarshalledKeys_def getMarshalledMessages_def split: prod.splits sum.splits)

lemma handleGet_registry: "handleGet S X now r g = (rep, g') \<Longrightarrow> same_registry g g'"
  using getMarshalled_registry [of S X]
  by (auto simp: handleGet_def handleHistory_def Let_def split: if_splits prod.splits sum.splits)

lemma delete_queues_registry: "same_registry g (fold (deleteMsgQueue S) ks g)"
proof (induction ks arbitrary: g)
  case (Cons k ks)
  show ?case using same_registry_trans [OF deleteMsgQueue_registry Cons.IH] by simp
qed simp

lemma handleDelete_registry: "handleDelete S X r g = (rep, g') \<Longrightarrow> same_registry g g'"
  using deleteMsgQueue_registry [of g S] deleteMsgById_registry [of S] get_keys_registry [of S g]
    same_registry_trans [OF get_keys_registry delete_queues_registry]
  by (auto simp: handleDelete_def Let_def split: if_splits option.splits prod.splits sum.splits)

lemma same_registry_limiter: "same_registry (g\<lparr>limiter := l, authFail := n\<rparr>) g' \<Longrightarrow> same_registry g g'"
  by (simp add: same_registry_upto_def)

lemma handleHTTP_registry:
  assumes "handleHTTP S X H r g = (rep, g')"
  shows "same_registry g g'"
  using assms
proof (cases rule: handleHTTP_cases)
  case (post l n)
  then show ?thesis using handlePost_registry same_registry_limiter by blast
next
  case (get l n)
  then show ?thesis using handleGet_registry same_registry_limiter by blast
next
  case (delete l n)
  then show ?thesis using handleDelete_registry same_registry_limiter by blast
qed simp_all

lemma goctopus_keys_registry: "goctopus_keys S now now' g = (n, g') \<Longrightarrow> same_registry g g'"
  using same_registry_trans [OF get_keys_registry [of S g] same_registry_update(9)]
  by (auto simp: goctopus_keys_def Let_def split: if_splits prod.splits)

definition sys_ok :: "('s, 'a) sys \<Rightarrow> bool" where
  "sys_ok y \<longleftrightarrow> reg_ok (eng y) \<and> (\<forall>c. registered (eng y) c \<longleftrightarrow> c \<in> readers y)"

lemma sys_ok_registry:
  assumes "sys_ok y" and "same_registry (eng y) (eng y')" and "readers y' = readers y"
  shows "sys_ok y'"
  using assms same_registry_ok same_registry_registered unfolding sys_ok_def by metis

text \<open>Every route but the two that matter is a probe: it may read the storage and the gauge cache.\<close>

definition probe_only :: "'s Storage \<Rightarrow> ('s, 'a) goctopus \<Rightarrow> ('s, 'a) goctopus \<Rightarrow> bool" where
  "probe_only S g g' \<longleftrightarrow> g' = g\<lparr>store := store g', keysVal := keysVal g', keysAt := keysAt g'\<rparr> \<and>
     (store g' \<in> {store g, snd (st_GetKeys S (store g))} \<or>
      (\<exists>p. st_PingContext S = Some p \<and> store g' = snd (p (store g))))"

lemma goctopus_keys_probe: "goctopus_keys S now now' g = (n, g') \<Longrightarrow> probe_only S g g'"
  by (cases "st_GetKeys S (store g)")
     (auto simp: goctopus_keys_def get_keys_def probe_only_def Let_def split: if_splits)

lemma handleReadyz_probe: "handleReadyz S (Some g) = (rep, og) \<Longrightarrow> probe_only S g (the og)"
proof (cases "st_PingContext S")
  case (Some ping)
  assume "handleReadyz S (Some g) = (rep, og)"
  then show ?thesis using Some
    by (cases "ping (store g)") (auto simp: handleReadyz_def probe_only_def Let_def split: if_splits)
qed (auto simp: handleReadyz_def probe_only_def)

lemma ServeHTTP_cases:
  assumes "ServeHTTP S A X render ver H r g = (rep, g')"
  obtains (api) "r_Path r = ''/''" "handleHTTP S X H r g = (rep, g')"
  | (ws) "r_Path r \<in> {''/ws'', ''/ws/''}" "handleWs A H r g = (rep, g')"
  | (probe) "r_Path r \<notin> {''/'', ''/ws'', ''/ws/''}" "probe_only S g g'"
proof (cases "route_of (r_Path r)")
  case RouteHTTP
  then have "r_Path r = ''/''" by (auto simp: route_of_def split: if_splits)
  then show ?thesis using assms RouteHTTP api by (simp add: ServeHTTP_def)
next
  case RouteWs
  then have "r_Path r \<in> {''/ws'', ''/ws/''}" by (auto simp: route_of_def split: if_splits)
  then show ?thesis using assms RouteWs ws by (simp add: ServeHTTP_def)
next
  case RouteReadyz
  have "r_Path r \<notin> {''/'', ''/ws'', ''/ws/''}" using RouteReadyz by (auto simp: route_of_def)
  moreover obtain og where "handleReadyz S (Some g) = (rep, og)" "g' = the og"
    using assms RouteReadyz by (auto simp: ServeHTTP_def split: prod.splits)
  ultimately show ?thesis using probe handleReadyz_probe by blast
next
  case RouteMetrics
  have "r_Path r \<notin> {''/'', ''/ws'', ''/ws/''}" using RouteMetrics by (auto simp: route_of_def)
  moreover obtain n where "goctopus_keys S (he_now H 0) (he_now H 1) g = (n, g')"
    using assms RouteMetrics by (auto simp: ServeHTTP_def handleMetrics_def split: prod.splits)
  ultimately show ?thesis using probe goctopus_keys_probe by blast
qed (use assms probe in \<open>auto simp: ServeHTTP_def probe_only_def route_of_def split: if_splits\<close>)

lemma ServeHTTP_sys_ok:
  assumes "authorizer A ainv" and "ainv (authz (eng y))" and "sys_ok y"
    and "ServeHTTP S A X render ver H r (eng y) = (rep, g')"
  shows "sys_ok (y\<lparr>eng := g', readers := readers y \<union> {next_cid (eng y)..<next_cid g'}, pingers := P\<rparr>)"
  using assms(4)
proof (cases rule: ServeHTTP_cases)
  case api
  then have "same_registry (eng y) g'" by (intro handleHTTP_registry)
  then show ?thesis using sys_ok_registry [OF assms(3)] by (simp add: same_registry_upto_def)
next
  case probe
  have "same_registry (eng y) g'"
    by (subst probe(2) [unfolded probe_only_def, THEN conjunct1]) (simp add: same_registry_upto_def)
  then show ?thesis using sys_ok_registry [OF assms(3)] by (simp add: same_registry_upto_def)
next
  case ws
  from ws(2) show ?thesis
  proof (cases rule: handleWs_cases)
    case (accepted l a keys cmpr)
    let ?g = "eng y\<lparr>limiter := l, authz := a\<rparr>"
    have "keys \<noteq> []"
      using authorizer.grants [OF assms(1,2) accepted(1)] by (simp add: good_keys_def)
    moreover have "reg_ok ?g" using assms(3) by (intro reg_ok_cong [of ?g "eng y"]) (auto simp: sys_ok_def)
    moreover have "registered ?g c \<longleftrightarrow> c \<in> readers y" for c
      using assms(3) by (simp add: sys_ok_def registered_def)
    ultimately show ?thesis
      by (auto simp: sys_ok_def accepted(4) accept_conn_reg accept_conn_registered)
  qed (use assms(3) reg_ok_cong [of g' "eng y"] in \<open>auto simp: sys_ok_def registered_def\<close>)
qed

lemma ServeHTTP_config:
  assumes "authorizer A ainv" and "ainv (authz g)" and "ServeHTTP S A X render ver H r g = (rep, g')"
  shows "config g' = config g \<and> ainv (authz g')"
  using assms(3)
proof (cases rule: ServeHTTP_cases)
  case api
  then have "same_registry g g'" by (intro handleHTTP_registry)
  then show ?thesis using assms(2) by (simp add: same_registry_upto_def)
next
  case probe
  then show ?thesis using assms(2)
    by (subst (1 2) probe(2) [unfolded probe_only_def, THEN conjunct1]) simp
next
  case ws
  have k: "ainv a" if "au_Authorize A (he_auth H) (he_clk H) r (authz g) = (res, a)" for res a
    using authorizer.keeps [OF assms(1,2) that] .
  have acc: "config (accept_conn ks b g0) = config g0" "authz (accept_conn ks b g0) = authz g0"
    for ks b and g0 :: "('b, 'a) goctopus"
    by (simp_all add: accept_conn_frame)
  from ws(2) show ?thesis by (cases rule: handleWs_cases) (auto simp: acc assms(2) dest: k)
qed

subsection \<open>Storage along a run\<close>

lemma Stop_store [simp]: "store (Stop g) = store g"
proof -
  have "store (fold (\<lambda>c g. set_client c (close_client (heap g c)) g) cs g0) = store g0" for cs and g0 :: "('a, 'b) goctopus"
    by (induction cs arbitrary: g0) (simp_all add: set_client_def)
  then show ?thesis by (simp add: Stop_def Let_def)
qed

lemma schedule_store [simp]: "store (schedule t g) = store g"
  by (simp add: schedule_def)

lemma set_client_store [simp]: "store (set_client c cl g) = store g"
  by (simp add: set_client_def)

lemma notified_store: "Subscribe_step ev (\<lambda>key. schedule (FlushTask key)) g = (b, g') \<Longrightarrow> store g' = store g"
  by (auto simp: Subscribe_step_def split: sub_event.splits)

lemma pingLoop_store: "pingLoop_step ev c g = (b, g') \<Longrightarrow> store g' = store g"
  by (auto simp: pingLoop_step_def case_prod_beta Let_def split: ping_event.splits if_splits)

text \<open>The events that can remove (or replace) message \<open>m\<close> of key \<open>k\<close>: an authorized DELETE that
  covers it; an ACK of its id from a connection it is in flight on for this very key; a sweep that
  found it expired; a publish of the same id to the same key; and, when the backend is shared, somebody
  else.\<close>

definition republishes :: "task \<Rightarrow> string \<Rightarrow> Message \<Rightarrow> bool" where
  "republishes t k m \<longleftrightarrow> (case t of PostTask m' ks \<Rightarrow> k \<in> set ks \<and> msg_id m' = msg_id m | _ \<Rightarrow> False)"

definition may_remove :: "('s, 'a) deployment \<Rightarrow> ('s, 'a) goctopus \<Rightarrow> event \<Rightarrow> string \<Rightarrow> Message \<Rightarrow> bool" where
  "may_remove D g ev k m \<longleftrightarrow>
     (case ev of
        EvHTTP H r \<Rightarrow>
          r_Path r = ''/'' \<and> r_Method r = ''DELETE'' \<and> backend_ok (config g) r \<and>
          Get (r_Query r) ''key'' \<in> {[], k} \<and>
          (Get (r_Query r) ''id'' = [] \<or> uuid_Parse (dX D) (Get (r_Query r) ''id'') = Some (msg_id m))
      | EvFrame now ok inb c \<Rightarrow>
          acks (dX D) (dflate D) inb c g (msg_id m) \<and> inflight (heap g c) (msg_id m) = Some k
      | EvSweep now pnow \<Rightarrow> \<exists>i j. isExpired (now i j) m
      | EvWorker T \<Rightarrow> (\<exists>t ts. work g = t # ts \<and> republishes t k m)
      | EvSpawned T n \<Rightarrow> n < length (spawned g) \<and> republishes (spawned g ! n) k m
      | EvBackend \<Rightarrow> True
      | _ \<Rightarrow> False)"

context storage_contract
begin

lemma sweep_keys_lost:
  "inv (store g) \<Longrightarrow> inv (store (sweep_keys S now n ks g)) \<and>
     (lost (box (store g)) (box (store (sweep_keys S now n ks g))) k i \<longrightarrow>
        (\<exists>m j l. box (store g) k i = Some m \<and> isExpired (now j l) m))"
proof (induction ks arbitrary: n g)
  case (Cons a ks)
  let ?g = "sweepKey S (now n) a g" and ?g' = "sweep_keys S now n (a # ks) g"
  have s: "inv (store ?g)" "lost (box (store g)) (box (store ?g)) k i \<Longrightarrow>
      \<exists>m j. box (store g) k i = Some m \<and> isExpired (now n j) m"
    using sweepKey_lost [OF Cons.prems] by auto
  from Cons.IH [OF s(1), of "n + 1"] have
    i: "inv (store ?g')" "lost (box (store ?g)) (box (store ?g')) k i \<Longrightarrow>
      \<exists>m j l. box (store ?g) k i = Some m \<and> isExpired (now j l) m" by auto
  have "\<exists>m j l. box (store g) k i = Some m \<and> isExpired (now j l) m"
    if "lost (box (store g)) (box (store ?g')) k i"
  proof (cases "lost (box (store g)) (box (store ?g)) k i")
    case True
    then show ?thesis using s(2) by blast
  next
    case False
    then have "box (store ?g) k i = box (store g) k i" "lost (box (store ?g)) (box (store ?g')) k i"
      using that by (auto simp: lost_def)
    then show ?thesis using i(2) by simp
  qed
  with i(1) show ?case by blast
qed simp

lemma sweepExpired_lost:
  assumes "inv (store g)"
  shows "inv (store (sweepExpired S now pnow g)) \<and>
     (lost (box (store g)) (box (store (sweepExpired S now pnow g))) k i \<longrightarrow>
        (\<exists>m j l. box (store g) k i = Some m \<and> isExpired (now j l) m))"
proof -
  obtain r g1 where q: "get_keys S g = (r, g1)" by fastforce
  note b = get_keys_box [OF assms q]
  show ?thesis using sweep_keys_lost [of g1 now 0 "projr r" k i] b
    by (cases r) (simp_all add: sweepExpired_def q Let_def)
qed

lemma readLoop_step_lost:
  assumes "inv (store g)" and "readLoop_step S X flate now ok inb c g = (b, g')"
  shows "inv (store g') \<and> (lost (box (store g)) (box (store g')) k i \<longrightarrow>
           acks X flate inb c g i \<and> inflight (heap g c) i = Some k)"
proof -
  obtain b1 g1 where body: "readLoop_body S X flate now ok inb c g = (b1, g1)" by fastforce
  have st: "store g' = store g1"
    using assms(2) body by (auto simp: readLoop_step_def removeClient_heap split: if_splits)
  show ?thesis
  proof (cases "\<exists>opc p. read_message flate (MaxMessageBytes (config g)) (compress (heap g c)) inb = Some (opc, p) \<and>
      opc \<in> {OpText, OpBinary}")
    case True
    then obtain opc p where rm: "read_message flate (MaxMessageBytes (config g)) (compress (heap g c)) inb = Some (opc, p)"
      and o: "opc \<in> {OpText, OpBinary}" by blast
    then have "g1 = handleAck S X c p g" using body by (auto simp: readLoop_body_def)
    then show ?thesis using handleAck_lost [OF assms(1), of X c p k i] st rm o by (auto simp: acks_def)
  next
    case False
    then have "store g1 = store g" using body
      by (auto simp: readLoop_body_def case_prod_beta Let_def split: option.splits opcode.splits)
    then show ?thesis using st assms(1) by simp
  qed
qed

lemma ServeHTTP_lost:
  assumes "inv (store g)" and "ServeHTTP S A X render ver H r g = (rep, g')"
  shows "inv (store g') \<and> (lost (box (store g)) (box (store g')) k i \<longrightarrow>
           r_Path r = ''/'' \<and> r_Method r = ''DELETE'' \<and> backend_ok (config g) r \<and>
           Get (r_Query r) ''key'' \<in> {[], k} \<and>
           (Get (r_Query r) ''id'' = [] \<or> uuid_Parse X (Get (r_Query r) ''id'') = Some i))"
  using assms(2)
proof (cases rule: ServeHTTP_cases)
  case api
  then show ?thesis using handleHTTP_lost [OF assms(1) api(2), of k i] by simp
next
  case ws
  then show ?thesis using handleWs_store [OF ws(2)] assms(1) by simp
next
  case probe
  then consider "store g' = store g" | "store g' = snd (st_GetKeys S (store g))"
    | p where "st_PingContext S = Some p" "store g' = snd (p (store g))"
    unfolding probe_only_def by blast
  then have "inv (store g') \<and> box (store g') = box (store g)"
  proof cases
    case 2
    then show ?thesis using get_keys [OF assms(1)] by (cases "st_GetKeys S (store g)") simp
  next
    case (3 p)
    then show ?thesis using ping [OF 3(1) assms(1)] by (cases "p (store g)") simp
  qed (simp add: assms(1))
  then show ?thesis by simp
qed

lemma worker_lost:
  assumes "inv (store g)"
  shows "inv (store (worker S X T g)) \<and> (lost (box (store g)) (box (store (worker S X T g))) k i \<longrightarrow>
     (\<exists>m ks ts. work g = PostTask m ks # ts \<and> k \<in> set ks \<and> i = msg_id m))"
proof (cases "work g")
  case (Cons t ts)
  then show ?thesis
    using run_task_lost(1) [of "g\<lparr>work := ts\<rparr>" X T t] run_task_lost(2) [of "g\<lparr>work := ts\<rparr>" X T t k i] assms
    by (auto simp: worker_def)
qed (simp add: worker_def assms)

lemma run_spawned_lost:
  assumes "inv (store g)"
  shows "inv (store (run_spawned S X T n g)) \<and> (lost (box (store g)) (box (store (run_spawned S X T n g))) k i \<longrightarrow>
     (n < length (spawned g) \<and> (\<exists>m ks. spawned g ! n = PostTask m ks \<and> k \<in> set ks \<and> i = msg_id m)))"
proof -
  let ?g = "g\<lparr>spawned := take n (spawned g) @ drop (n + 1) (spawned g)\<rparr>"
  show ?thesis
    using run_task_lost(1) [of ?g X T "spawned g ! n"] run_task_lost(2) [of ?g X T "spawned g ! n" k i] assms
    by (auto simp: run_spawned_def)
qed

end

subsection \<open>Invariants of every execution\<close>

definition sys_inv :: "('s \<Rightarrow> bool) \<Rightarrow> ('a \<Rightarrow> bool) \<Rightarrow> ('s, 'a) sys \<Rightarrow> bool" where
  "sys_inv sinv ainv y \<longleftrightarrow> sys_ok y \<and> sinv (store (eng y)) \<and> ainv (authz (eng y))"

text \<open>The parts of a deployment keep their contracts.\<close>

definition deployment_ok :: "('s, 'a) deployment \<Rightarrow> ('s \<Rightarrow> bool) \<Rightarrow> ('s \<Rightarrow> mailbox) \<Rightarrow> (Message \<Rightarrow> Message option) \<Rightarrow>
    ('a \<Rightarrow> bool) \<Rightarrow> bool" where
  "deployment_ok D sinv box keep ainv \<longleftrightarrow>
     storage_contract (dS D) sinv box keep \<and> authorizer (dA D) ainv \<and>
     (\<forall>s s'. sinv s \<and> dext D s s' \<longrightarrow> sinv s')"

lemma step_store:
  assumes "deployment_ok D sinv box keep ainv" and "sinv (store (eng y))" and "step D y ev y'"
  shows "sinv (store (eng y')) \<and>
     (box (store (eng y)) k (msg_id m) = Some m \<and> box (store (eng y')) k (msg_id m) \<noteq> Some m \<longrightarrow>
        may_remove D (eng y) ev k m)"
proof -
  have l: "lost b b' k (msg_id m)" if "b k (msg_id m) = Some m \<and> b' k (msg_id m) \<noteq> Some m" for b b' :: mailbox
    using that by (simp add: lost_def)
  have c: "storage_contract (dS D) sinv box keep" and x: "\<And>s s'. sinv s \<Longrightarrow> dext D s s' \<Longrightarrow> sinv s'"
    using assms(1) by (auto simp: deployment_ok_def)
  note i = assms(2)
  from assms(3) show ?thesis
  proof cases
    case (http H r rep g')
    show ?thesis using storage_contract.ServeHTTP_lost [OF c i http(3), of k "msg_id m"] l
      by (fastforce simp: http may_remove_def)
  next
    case (frame c' now ok inb goes_on g')
    show ?thesis using storage_contract.readLoop_step_lost [OF c i frame(4), of k "msg_id m"] l
      by (fastforce simp: frame may_remove_def)
  next
    case (ping c' e goes_on g')
    then show ?thesis using pingLoop_store [OF ping(6)] i by simp
  next
    case (worker T)
    show ?thesis using storage_contract.worker_lost [OF c i, of "dX D" T k "msg_id m"] l
      by (fastforce simp: worker may_remove_def republishes_def)
  next
    case (spawned n T)
    show ?thesis using storage_contract.run_spawned_lost [OF c i, of "dX D" T n k "msg_id m"] l
      by (fastforce simp: spawned may_remove_def republishes_def)
  next
    case (reconcile o1 o2 E)
    then show ?thesis using storage_contract.reconcile_box [OF c i, of "dX D" o1 o2 E] by simp
  next
    case (sweep now pnow)
    show ?thesis using storage_contract.sweepExpired_lost [OF c i, of now pnow k "msg_id m"] l
      by (fastforce simp: sweep may_remove_def)
  next
    case (notified e goes_on g')
    then show ?thesis using notified_store [OF notified(6)] i by simp
  next
    case (backend s)
    then show ?thesis using x [OF i] by (simp add: may_remove_def)
  qed (simp_all add: i)
qed

lemma step_sys_inv:
  assumes "deployment_ok D sinv box keep ainv" and "sys_inv sinv ainv y" and "step D y ev y'"
  shows "sys_inv sinv ainv y' \<and> config (eng y') = config (eng y)"
proof -
  have ok: "sys_ok y" and i: "sinv (store (eng y))" and ai: "ainv (authz (eng y))"
    using assms(2) by (auto simp: sys_inv_def)
  have au: "authorizer (dA D) ainv" using assms(1) by (simp add: deployment_ok_def)
  have st: "sinv (store (eng y'))" using step_store [OF assms(1) i assms(3)] by blast
  have same: ?thesis if "same_registry (eng y) (eng y')" "readers y' = readers y"
    using that ok ai st sys_ok_registry by (auto simp: sys_inv_def same_registry_upto_def)
  from assms(3) show ?thesis
  proof cases
    case (http H r rep g')
    then show ?thesis using ServeHTTP_sys_ok [OF au ai ok http(3)] ServeHTTP_config [OF au ai http(3)] st
      by (auto simp: sys_inv_def)
  next
    case (frame c now ok' inb goes_on g')
    obtain g1 where b: "readLoop_body (dS D) (dX D) (dflate D) now ok' inb c (eng y) = (goes_on, g1)"
      and g': "g' = (if goes_on then g1 else removeClient c g1)"
      using frame(4) by (auto simp: readLoop_step_def split: prod.splits if_splits)
    note s = readLoop_body_registry [OF b]
    have ok1: "reg_ok g1" "\<And>x. registered g1 x \<longleftrightarrow> x \<in> readers y"
      using ok same_registry_ok [OF s] same_registry_registered [OF s] by (auto simp: sys_ok_def)
    have "authz g1 = authz (eng y)" "config g1 = config (eng y)" using s by (simp_all add: same_registry_upto_def)
    then show ?thesis using st ai ok1
      by (auto simp: frame sys_inv_def sys_ok_def g' removeClient_reg removeClient_registered removeClient_frame)
  next
    case (ping c e goes_on g')
    then show ?thesis using same pingLoop_registry [OF ping(6)] by simp
  next
    case (worker T)
    then show ?thesis using same by (simp add: worker_registry)
  next
    case (spawned n T)
    then show ?thesis using same by (simp add: run_spawned_registry)
  next
    case (reconcile o1 o2 E)
    then show ?thesis using same by (simp add: reconcile_registry)
  next
    case (sweep now pnow)
    then show ?thesis using same by (simp add: sweepExpired_registry)
  next
    case (loop_done l)
    then show ?thesis using same by simp
  next
    case (notified e goes_on g')
    have "same_registry (eng y) (eng y')" "readers y' = readers y" using notified_registry [OF notified(6)] by (simp_all add: notified(2))
    then show ?thesis by (rule same)
  next
    case stop
    then show ?thesis using same by (simp add: Stop_registry)
  next
    case (backend s)
    then show ?thesis using same by (simp add: same_registry_upto_def)
  qed
qed

lemma reach_inv:
  assumes "deployment_ok D sinv box keep ainv" and "reach D g0 y" and "sys_inv sinv ainv \<lparr>eng = g0, readers = {}, pingers = {}, loops = all_loops\<rparr>"
  shows "sys_inv sinv ainv y \<and> config (eng y) = config g0"
  using assms(2)
proof induction
  case init
  then show ?case using assms(3) by simp
next
  case (next_step y ev y')
  then show ?case using step_sys_inv [OF assms(1)] by fastforce
qed

lemma Start_inv:
  assumes "Start initS initA cfg = Inr g0" and "\<And>kind s. initS kind cfg = Inr s \<Longrightarrow> sinv s"
    and "\<And>kind a. initA kind cfg = Inr a \<Longrightarrow> ainv a"
  shows "sys_inv sinv ainv \<lparr>eng = g0, readers = {}, pingers = {}, loops = all_loops\<rparr> \<and> config g0 = cfg"
  using assms
  by (auto simp: Start_def getStorage_def getAuthorizer_def sys_inv_def sys_ok_def reg_ok_def registered_def
      split: sum.splits option.splits if_splits)

subsection \<open>Who receives a message\<close>

lemma clients_set_exact:
  assumes "reg_ok g" and "range_order_ok ord"
  shows "set (clientsForKey ord key g) =
           {c. registered g c \<and> (\<exists>p \<in> set (ckeys (heap g c)). p = key \<or> keyMatches p key)}"
proof -
  note d = reg_okD [OF assms(1)]
  have p: "p \<in> set (gm_keys (patterns g)) \<and> keyMatches p key \<and> c \<in> set (gm_list (Conns g) p) \<longleftrightarrow>
      hasWildcard p \<and> keyMatches p key \<and> c \<in> set (gm_list (Conns g) p)" for p c
    unfolding d(4) by auto
  have "set (clientsForKey ord key g) =
      set (gm_list (Conns g) key) \<union> {c. \<exists>p. hasWildcard p \<and> keyMatches p key \<and> c \<in> set (gm_list (Conns g) p)}"
    unfolding clients_set [OF assms(2)] using p by blast
  also have "\<dots> = {c. \<exists>p. (p = key \<or> keyMatches p key) \<and> c \<in> set (gm_list (Conns g) p)}"
    by (auto simp: keyMatches_def split: if_splits)
  also have "\<dots> = {c. registered g c \<and> (\<exists>p \<in> set (ckeys (heap g c)). p = key \<or> keyMatches p key)}"
    using d(6,7) unfolding registered_def by blast
  finally show ?thesis .
qed

end
