(* ===== verification/Reliable.thy ===== *)
theory Reliable
  imports System
begin

text \<open>
  Exact effects on the mailbox when the backend does not fail, as the in-process one: publishing,
  acknowledging, sweeping and deleting.
\<close>

text \<open>Between two instants \<open>t\<close> and \<open>t'\<close> that bound the clock readings: what had expired by \<open>t\<close> is gone,
  what has not expired by \<open>t'\<close> is still there, and nothing else appears.\<close>

definition swept :: "time \<Rightarrow> time \<Rightarrow> (uuid \<rightharpoonup> Message) \<Rightarrow> (uuid \<rightharpoonup> Message) \<Rightarrow> bool" where
  "swept t t' q q' \<longleftrightarrow> (\<forall>i. q' i \<in> {None, q i} \<and>
     (\<forall>m. q i = Some m \<longrightarrow> (isExpired t m \<longrightarrow> q' i = None) \<and> (\<not> isExpired t' m \<longrightarrow> q' i = Some m)))"

lemma swept_trans: "swept t t' q1 q2 \<Longrightarrow> swept t t' q2 q3 \<Longrightarrow> swept t t' q1 q3"
  unfolding swept_def by (metis insertE insert_iff singletonD)

context storage_contract
begin

text \<open>DELETE over any backend: a failed deletion of a queue is only logged, any other failure is answered with 400.\<close>

lemma wipe_queue:
  assumes "inv (store g)"
  shows "inv (store (deleteMsgQueue S k g)) \<and> box (store (deleteMsgQueue S k g)) \<in> {box (store g), (box (store g))(k := Map.empty)} \<and>
    (fst (st_DeleteQueue S k (store g)) = None \<longrightarrow> box (store (deleteMsgQueue S k g)) = (box (store g))(k := Map.empty))"
  using delete_queue [OF assms, of k] by (cases "st_DeleteQueue S k (store g)") (auto simp: deleteMsgQueue_def box_clear_def)

lemma wipe_queues:
  "inv (store g) \<Longrightarrow> inv (store (fold (deleteMsgQueue S) ks g)) \<and>
     box (store (fold (deleteMsgQueue S) ks g)) k \<in> {box (store g) k, Map.empty} \<and>
     (k \<in> set ks \<and> (\<forall>s. inv s \<longrightarrow> fst (st_DeleteQueue S k s) = None) \<longrightarrow>
        box (store (fold (deleteMsgQueue S) ks g)) k = Map.empty)"
proof (induction ks arbitrary: g)
  case (Cons a ks)
  note w = wipe_queue [OF Cons.prems, of a]
  from w have "inv (store (deleteMsgQueue S a g))" by blast
  note ih = Cons.IH [OF this]
  have "box (store (deleteMsgQueue S a g)) a = Map.empty" if "\<forall>s. inv s \<longrightarrow> fst (st_DeleteQueue S a s) = None"
    using w that Cons.prems by simp
  moreover have "box (store (deleteMsgQueue S a g)) k \<in> {box (store g) k, Map.empty}" using w by auto
  ultimately show ?case using ih by auto
qed simp

lemma handleDelete_branches:
  assumes "inv (store g)" and "handleDelete S X r g = (rep, g')"
  defines "key \<equiv> Get (r_Query r) ''key''" and "i \<equiv> Get (r_Query r) ''id''"
  shows "if i \<noteq> [] \<and> (key = [] \<or> uuid_Parse X i = None) then rep = reply_json 400 [] \<and> g' = g
    else if key = [] then
      (case fst (st_GetKeys S (store g)) of
         Inl e \<Rightarrow> rep = reply_json 400 [] \<and> box (store g') = box (store g)
       | Inr ks \<Rightarrow> rep = reply_json 200 [] \<and> (\<forall>k. box (store g') k \<in> {box (store g) k, Map.empty} \<and>
           ((\<forall>s. inv s \<longrightarrow> fst (st_DeleteQueue S k s) = None) \<longrightarrow> box (store g') k = Map.empty)))
    else if i = [] then
      rep = reply_json 200 [] \<and> box (store g') \<in> {box (store g), (box (store g))(key := Map.empty)} \<and>
      (fst (st_DeleteQueue S key (store g)) = None \<longrightarrow> box (store g') = (box (store g))(key := Map.empty))
    else let u = the (uuid_Parse X i); gone = (box (store g))(key := (box (store g) key)(u := None)) in
      if fst (st_DeleteMessage S key u (store g)) = None then rep = reply_json 200 [] \<and> box (store g') = gone
      else rep = reply_json 400 [] \<and> box (store g') \<in> {box (store g), gone}"
proof -
  consider (bad) "i \<noteq> [] \<and> (key = [] \<or> uuid_Parse X i = None)" | (all) "i = []" "key = []" | (queue) "i = []" "key \<noteq> []"
    | (one) u where "i \<noteq> []" "key \<noteq> []" "uuid_Parse X i = Some u" by auto
  then show ?thesis
  proof cases
    case bad
    then have "handleDelete S X r g = (reply_json 400 [], g)" by (auto simp: handleDelete_def key_def i_def Let_def)
    then show ?thesis using bad assms(2) by simp
  next
    case all
    obtain rk s where q: "st_GetKeys S (store g) = (rk, s)" by fastforce
    have b: "inv s" "box s = box (store g)" "rk = Inr ks \<Longrightarrow> box (store g) k \<noteq> Map.empty \<Longrightarrow> k \<in> set ks" for ks k
      using get_keys [OF assms(1) q] by auto
    have "rep = (case rk of Inl e \<Rightarrow> reply_json 400 [] | Inr ks \<Rightarrow> reply_json 200 [])"
      "g' = (case rk of Inl e \<Rightarrow> g\<lparr>store := s\<rparr> | Inr ks \<Rightarrow> fold (deleteMsgQueue S) ks (g\<lparr>store := s\<rparr>))"
      using assms(2) all by (auto simp: handleDelete_def key_def i_def get_keys_def q split: sum.splits)
    then show ?thesis using all b(1,2) b(3) wipe_queues [of "g\<lparr>store := s\<rparr>"]
      by (cases rk) (simp_all add: q, metis)
  next
    case queue
    then have "rep = reply_json 200 []" "g' = deleteMsgQueue S key g"
      using assms(2) by (auto simp: handleDelete_def key_def i_def)
    then show ?thesis using queue wipe_queue [OF assms(1), of key] by simp
  next
    case one
    obtain e s where q: "st_DeleteMessage S key u (store g) = (e, s)" by fastforce
    have "rep = (if e = None then reply_json 200 [] else reply_json 400 [])" "store g' = s"
      using assms(2) one q by (auto simp: handleDelete_def key_def i_def deleteMsgById_def split: if_splits)
    then show ?thesis using one delete_message [OF assms(1) q] by (auto simp: q Let_def box_del_def)
  qed
qed

end

context reliable_storage
begin

lemma queueMessage_exact:
  assumes "inv (store g)"
  shows "inv (store (queueMessage S m g)) \<and> box (store (queueMessage S m g)) = box_put (Key m) (msg_id m) (keep m) (box (store g))"
  using add_message [OF assms, of "Key m" m] add_message_ok [OF assms, of "Key m" m]
  by (cases "st_AddMessage S (Key m) m (store g)") (auto simp: queueMessage_def)

lemma post_key_exact:
  assumes "inv (store g)"
  shows "inv (store (post_key S X now E m k g)) \<and>
         box (store (post_key S X now E m k g)) = box_put k (msg_id m) (keep (m\<lparr>Key := k\<rparr>)) (box (store g))"
proof -
  define g1 where "g1 = queueMessage S (m\<lparr>Key := k\<rparr>) g"
  define g2 where "g2 = g1\<lparr>history := history_add now k (m\<lparr>Key := k\<rparr>) (history g1)\<rparr>"
  have 1: "inv (store g2)" "box (store g2) = box_put k (msg_id m) (keep (m\<lparr>Key := k\<rparr>)) (box (store g))"
    using queueMessage_exact [OF assms, of "m\<lparr>Key := k\<rparr>"] by (simp_all add: g2_def g1_def)
  have e: "post_key S X now E m k g = sendMessages S X E k (notify S k g2)"
    by (simp add: post_key_def g2_def g1_def Let_def)
  have 2: "inv (store (notify S k g2))" "box (store (notify S k g2)) = box (store g2)"
    using notify_box [OF 1(1)] by simp_all
  show ?thesis unfolding e using sendMessages_box [OF 2(1), of X E k] 1(2) 2(2) by simp
qed

lemma post_keys_exact:
  "inv (store g) \<Longrightarrow> inv (store (post_keys S X T n m ks g)) \<and>
     box (store (post_keys S X T n m ks g)) =
       (\<lambda>k. if k \<in> set ks then (box (store g) k)(msg_id m := keep (m\<lparr>Key := k\<rparr>)) else box (store g) k)"
proof (induction ks arbitrary: n g)
  case (Cons a ks)
  let ?g = "post_key S X (te_hist T n) (te_send T n 0) m a g"
  have p: "inv (store ?g)" "box (store ?g) = box_put a (msg_id m) (keep (m\<lparr>Key := a\<rparr>)) (box (store g))"
    using post_key_exact [OF Cons.prems, of X "te_hist T n" "te_send T n 0" m a] by simp_all
  show ?case using Cons.IH [OF p(1), of "n + 1"] p(2) by (auto simp: box_put_def fun_eq_iff)
qed simp

lemma deleteMsgById_exact:
  assumes "inv (store g)" and "deleteMsgById S k i g = (e, g')"
  shows "e = None \<and> inv (store g') \<and> box (store g') = box_del k i (box (store g))"
  using deleteMsgById_box [OF assms] delete_message_ok [OF assms(1), of k i] assms(2)
  by (auto simp: deleteMsgById_def split: prod.splits)

lemma delete_all_exact:
  assumes "inv (store g)" and "get_keys S g = (r, g1)"
  shows "\<exists>ks. r = Inr ks \<and> {k. box (store g) k \<noteq> Map.empty} \<subseteq> set ks \<and> inv (store g1) \<and> box (store g1) = box (store g)"
  using get_keys [OF assms(1), of r "store g1"] get_keys_ok [OF assms(1)] assms(2)
  by (auto simp: get_keys_def split: prod.splits)

lemma handleAck_exact:
  assumes "inv (store g)" and "ack_id X payload = Some i" and "inflight (heap g c) i = Some k"
  shows "inv (store (handleAck S X c payload g)) \<and>
         box (store (handleAck S X c payload g)) = box_del k i (box (store g)) \<and>
         inflight (heap (handleAck S X c payload g) c) = (inflight (heap g c))(i := None) \<and>
         delivered (handleAck S X c payload g) = delivered g + 1"
proof -
  define g1 where "g1 = set_client c (snd (takeInflight i (heap g c))) g"
  obtain e g2 where d: "deleteMsgById S k i g1 = (e, g2)" by fastforce
  have "handleAck S X c payload g = g2\<lparr>delivered := delivered g2 + 1\<rparr>"
    using assms d by (simp add: handleAck_def takeInflight_def g1_def)
  moreover obtain s where "g2 = g1\<lparr>store := s\<rparr>" using d by (auto simp: deleteMsgById_def split: prod.splits)
  ultimately show ?thesis
    using deleteMsgById_exact [OF _ d] assms by (auto simp: g1_def set_client_def takeInflight_def)
qed

text \<open>Sweeping one key: what was found expired is gone, everything else is as before.\<close>

lemma sweep_loop_exact:
  "inv (store g) \<Longrightarrow> sweep_loop S now n key ms r g = (r', g') \<Longrightarrow> inv (store g') \<and>
     box (store g') = (box (store g))(key := (\<lambda>i. if \<exists>j < length ms. msg_id (ms ! j) = i \<and> isExpired (now (n + j)) (ms ! j)
        then None else box (store g) key i)) \<and>
     r' = r + length (filter (\<lambda>j. isExpired (now (n + j)) (ms ! j)) [0..<length ms])"
proof (induction ms arbitrary: n r g)
  case Nil
  then show ?case by (auto simp: fun_eq_iff)
next
  case (Cons m ms)
  obtain e g1 where d: "deleteMsgById S key (msg_id m) g = (e, g1)" by fastforce
  note b = deleteMsgById_exact [OF Cons.prems(1) d]
  have ex: "(\<exists>j < length (m # ms). msg_id ((m # ms) ! j) = i \<and> isExpired (now (n + j)) ((m # ms) ! j)) \<longleftrightarrow>
      msg_id m = i \<and> isExpired (now n) m \<or>
      (\<exists>j < length ms. msg_id (ms ! j) = i \<and> isExpired (now (n + 1 + j)) (ms ! j))" for i
    by (auto simp: less_Suc_eq_0_disj)
  have ln: "length (filter (\<lambda>j. isExpired (now (n + j)) ((m # ms) ! j)) [0..<length (m # ms)]) =
      (if isExpired (now n) m then 1 else 0) +
      length (filter (\<lambda>j. isExpired (now (n + 1 + j)) (ms ! j)) [0..<length ms])"
    by (simp add: upt_conv_Cons map_Suc_upt [symmetric] filter_map comp_def del: upt_Suc)
  show ?case
  proof (cases "isExpired (now n) m")
    case True
    then have "sweep_loop S now (n + 1) key ms (r + 1) g1 = (r', g')" using Cons.prems(2) d by simp
    from Cons.IH [OF _ this] b True show ?thesis unfolding ex ln by (auto simp: box_del_def fun_eq_iff)
  next
    case False
    then have "sweep_loop S now (n + 1) key ms r g = (r', g')" using Cons.prems(2) by simp
    from Cons.IH [OF Cons.prems(1) this] False show ?thesis unfolding ex ln by (auto simp: fun_eq_iff)
  qed
qed

lemma sweepKey_exact:
  assumes "inv (store g)" and "\<And>j. t \<le> now j \<and> now j \<le> t'"
  shows "inv (store (sweepKey S now key g)) \<and>
         (\<exists>q. box (store (sweepKey S now key g)) = (box (store g))(key := q) \<and> swept t t' (box (store g) key) q)"
proof -
  obtain r g1 where q: "getMsgQueue S key g = (r, g1)" by fastforce
  note b = getMsgQueue_box [OF assms(1) q]
  obtain ms where r: "r = Inr ms"
    using get_queue_ok [OF assms(1), of key] q by (auto simp: getMsgQueue_def split: prod.splits)
  obtain n g2 where l: "sweep_loop S now 0 key ms 0 g1 = (n, g2)" by fastforce
  have st: "store (sweepKey S now key g) = store g2" by (simp add: sweepKey_def q r l)
  have dist: "distinct (map msg_id ms)" and qm: "queue_map ms = box (store g) key"
    using getMsgQueue_queue [OF assms(1)] q r by auto
  have mem: "box (store g) key i = Some m \<longleftrightarrow> m \<in> set ms \<and> msg_id m = i" for i m
    using queue_map_iff [OF dist] qm by metis
  let ?q = "\<lambda>i. if \<exists>j < length ms. msg_id (ms ! j) = i \<and> isExpired (now (0 + j)) (ms ! j)
        then None else box (store g1) key i"
  have "swept t t' (box (store g) key) ?q"
    unfolding swept_def
  proof (intro allI conjI impI)
    fix i m
    assume m: "box (store g) key i = Some m"
    then obtain j where j: "j < length ms" "ms ! j = m" "msg_id m = i" unfolding mem by (auto simp: in_set_conv_nth)
    show "?q i = None" if "isExpired t m" using j isExpired_mono [OF that] assms(2) by auto
    have uniq: "ms ! l = m" if "l < length ms" "msg_id (ms ! l) = i" for l
      using that m unfolding qm [symmetric] queue_map_iff [OF dist] mem
      by (metis mem m nth_mem option.inject)
    show "?q i = Some m" if "\<not> isExpired t' m"
      using uniq that isExpired_mono assms(2) m b by fastforce
  qed (simp add: b)
  then show ?thesis using sweep_loop_exact [OF _ l] b st by auto
qed

lemma sweep_keys_exact:
  assumes "\<forall>i j. t \<le> now i j \<and> now i j \<le> t'"
  shows "inv (store g) \<Longrightarrow> inv (store (sweep_keys S now n ks g)) \<and>
     (k \<in> set ks \<longrightarrow> swept t t' (box (store g) k) (box (store (sweep_keys S now n ks g)) k)) \<and>
     (k \<notin> set ks \<longrightarrow> box (store (sweep_keys S now n ks g)) k = box (store g) k)"
proof (induction ks arbitrary: n g)
  case (Cons a ks)
  let ?g = "sweepKey S (now n) a g"
  obtain q where 1: "inv (store ?g)" "box (store ?g) = (box (store g))(a := q)" "swept t t' (box (store g) a) q"
    using sweepKey_exact [OF Cons.prems(1), of t "now n" t' a] assms by auto
  show ?case
    using Cons.IH [OF 1(1), of "n + 1"] 1(2,3) swept_trans [OF 1(3)]
    by (cases "k = a"; cases "k \<in> set ks") simp_all
qed simp

lemma sweepExpired_exact:
  assumes "\<forall>i j. t \<le> now i j \<and> now i j \<le> t'" and "inv (store g)"
  shows "swept t t' (box (store g) k) (box (store (sweepExpired S now pnow g)) k)"
proof -
  obtain r g1 where q: "get_keys S g = (r, g1)" by fastforce
  obtain ks where ks: "r = Inr ks" "{k. box (store g) k \<noteq> Map.empty} \<subseteq> set ks" "inv (store g1)"
    "box (store g1) = box (store g)" using delete_all_exact [OF assms(2) q] by blast
  have "store (sweepExpired S now pnow g) = store (sweep_keys S now 0 ks g1)"
    by (simp add: sweepExpired_def q ks(1) Let_def)
  moreover have "k \<notin> set ks \<Longrightarrow> box (store g) k = Map.empty" using ks(2) by blast
  then have "k \<notin> set ks \<Longrightarrow> swept t t' (box (store g) k) (box (store g) k)" by (simp add: swept_def)
  ultimately show ?thesis
    using sweep_keys_exact [OF assms(1) ks(3), where k = k and n = 0 and ks = ks] ks(4) by auto
qed

end

end
