(* ===== verification/Lifecycle.thy ===== *)
theory Lifecycle
  imports Reliable
begin

text \<open>
  Connections along an execution: a connection is only ever served further, and what is in flight on
  it stays in flight until it is acknowledged. From this, delivery: a publish reaches every open
  connection that listens, and one tick of reconciliation leaves nothing behind.
\<close>

subsection \<open>One step, seen by a connection\<close>

lemma removeClient_le: "client_le A (heap g c) (heap (removeClient x g) c)"
  by (simp add: removeClient_heap client_le_close)

lemma accept_conn_le: "c < next_cid g \<Longrightarrow> heap (accept_conn ks b g) c = heap g c"
  by (simp add: accept_conn_def schedule_def set_client_def Let_def)

lemma readLoop_step_le:
  assumes "readLoop_step S X flate now ok inb x g = (b, g')"
  shows "client_le (if c = x then {i. acks X flate inb x g i} else {}) (heap g c) (heap g' c)"
proof -
  obtain b1 g1 where body: "readLoop_body S X flate now ok inb x g = (b1, g1)" by fastforce
  have "client_le (if c = x then {i. acks X flate inb x g i} else {}) (heap g c) (heap g1 c)"
    using same_registry_heap [OF readLoop_body_registry [OF body], of c] by (auto split: if_splits)
  then show ?thesis using assms body client_le_trans [OF _ removeClient_le]
    by (auto simp: readLoop_step_def split: if_splits)
qed

lemma ServeHTTP_le:
  assumes "ServeHTTP S A X render ver H r g = (rep, g')" and "c < next_cid g"
  shows "client_le B (heap g c) (heap g' c) \<and> next_cid g \<le> next_cid g'"
  using assms(1)
proof (cases rule: ServeHTTP_cases)
  case api
  then have "same_registry g g'" by (intro handleHTTP_registry)
  from same_registry_mono [OF this, of "\<lambda>_. B"] show ?thesis unfolding same_registry_upto_def by simp
next
  case probe
  then show ?thesis by (subst (1 2) probe(2) [unfolded probe_only_def, THEN conjunct1]) simp
next
  case ws
  from ws(2) show ?thesis using assms(2) by (cases rule: handleWs_cases) (auto simp: accept_conn_le)
qed

text \<open>The ids a step acknowledges on a connection.\<close>

definition acked :: "('s, 'a) deployment \<Rightarrow> ('s, 'a) goctopus \<Rightarrow> event \<Rightarrow> cid \<Rightarrow> uuid set" where
  "acked D g ev c = {i. \<exists>now ok inb. ev = EvFrame now ok inb c \<and> acks (dX D) (dflate D) inb c g i}"

lemma step_client_le:
  assumes "step D y ev y'" and "c < next_cid (eng y)"
  shows "client_le (acked D (eng y) ev c) (heap (eng y) c) (heap (eng y') c) \<and> next_cid (eng y) \<le> next_cid (eng y')"
proof -
  have same: ?thesis if "same_registry (eng y) (eng y')"
    using same_registry_mono [OF that, of "\<lambda>_. acked D (eng y) ev c"] unfolding same_registry_upto_def by simp
  from assms(1) show ?thesis
  proof cases
    case (http H r rep g')
    then show ?thesis using ServeHTTP_le [OF http(3) assms(2)] by simp
  next
    case (frame x now ok inb goes_on g')
    have "(if c = x then {i. acks (dX D) (dflate D) inb x (eng y) i} else {}) = acked D (eng y) ev c"
      by (auto simp: acked_def frame)
    moreover have "next_cid g' = next_cid (eng y)"
      using frame(4) readLoop_body_registry
      by (fastforce simp: readLoop_step_def removeClient_heap same_registry_upto_def split: prod.splits if_splits)
    ultimately show ?thesis using readLoop_step_le [OF frame(4), of c] by (simp add: frame)
  next
    case (ping x e goes_on g')
    then show ?thesis using same pingLoop_registry [OF ping(6)] by simp
  next
    case (notified e goes_on g')
    then show ?thesis using same notified_registry [OF notified(6)] by simp
  qed (use same in \<open>simp_all add: worker_registry run_spawned_registry reconcile_registry
    sweepExpired_registry Stop_registry\<close>)
qed

subsection \<open>Executions with their events\<close>

inductive run :: "('s, 'a) deployment \<Rightarrow> ('s, 'a) sys \<Rightarrow> event list \<Rightarrow> ('s, 'a) sys \<Rightarrow> bool"
  for D :: "('s, 'a) deployment" and y :: "('s, 'a) sys" where
  run_init: "run D y [] y"
| run_step: "run D y evs z \<Longrightarrow> step D z ev z' \<Longrightarrow> run D y (evs @ [ev]) z'"

lemma reach_run: "reach D g0 y \<longleftrightarrow> (\<exists>evs. run D \<lparr>eng = g0, readers = {}, pingers = {}, loops = all_loops\<rparr> evs y)"
proof
  show "reach D g0 y \<Longrightarrow> \<exists>evs. run D \<lparr>eng = g0, readers = {}, pingers = {}, loops = all_loops\<rparr> evs y"
    by (induction rule: reach.induct) (blast intro: run.intros)+
  show "\<exists>evs. run D \<lparr>eng = g0, readers = {}, pingers = {}, loops = all_loops\<rparr> evs y \<Longrightarrow> reach D g0 y"
  proof (elim exE)
    fix evs assume "run D \<lparr>eng = g0, readers = {}, pingers = {}, loops = all_loops\<rparr> evs y"
    then show "reach D g0 y" by induction (blast intro: reach.intros)+
  qed
qed

text \<open>Which id a frame acknowledges does not depend on when it arrives.\<close>

lemma acked_cong:
  assumes "config g' = config g" and "compress (heap g' c) = compress (heap g c)"
  shows "acked D g' ev c = acked D g ev c"
  using assms by (simp add: acked_def acks_def)

lemma run_client_le:
  assumes "deployment_ok D sinv box keep ainv" and "sys_inv sinv ainv y" and "c < next_cid (eng y)"
    and "run D y evs z"
  shows "sys_inv sinv ainv z \<and> config (eng z) = config (eng y) \<and> next_cid (eng y) \<le> next_cid (eng z) \<and>
    client_le (\<Union>ev \<in> set evs. acked D (eng y) ev c) (heap (eng y) c) (heap (eng z) c)"
  using assms(4)
proof induction
  case run_init
  then show ?case using assms(2) by simp
next
  case (run_step evs z ev z')
  have z: "sys_inv sinv ainv z" "config (eng z) = config (eng y)" "next_cid (eng y) \<le> next_cid (eng z)"
    and le: "client_le (\<Union>ev \<in> set evs. acked D (eng y) ev c) (heap (eng y) c) (heap (eng z) c)"
    using run_step.IH by simp_all
  have "compress (heap (eng z) c) = compress (heap (eng y) c)" using le by (simp add: client_le_def)
  note a = acked_cong [OF z(2) this, of D ev]
  have s: "client_le (acked D (eng y) ev c) (heap (eng z) c) (heap (eng z') c)" "next_cid (eng z) \<le> next_cid (eng z')"
    using step_client_le [OF run_step.hyps(2), of c] z(3) assms(3) unfolding a by simp_all
  have "client_le (\<Union>ev \<in> set (evs @ [ev]). acked D (eng y) ev c) (heap (eng y) c) (heap (eng z') c)"
    by (rule client_le_trans [OF client_le_mono [OF le] client_le_mono [OF s(1)]]) auto
  then show ?case using step_sys_inv [OF assms(1) z(1) run_step.hyps(2)] z(2,3) s(2) by auto
qed

lemma sent_skips: "inflight cl i \<noteq> None \<Longrightarrow> i \<notin> sent_ids (sent X E c cl q)"
proof -
  assume n: "inflight cl i \<noteq> None"
  have "(j, m, d) \<in> set (pending X E cl k q) \<Longrightarrow> msg_id m \<noteq> i" for j m d k
    using n by (induction q arbitrary: k) (auto split: if_splits option.splits)
  then show ?thesis unfolding sent_ids_def sent_def by (auto dest!: set_takeWhileD)
qed

subsection \<open>What a flush delivers\<close>

text \<open>The keys whose messages a connection receives.\<close>

definition concerns :: "('s, 'a) goctopus \<Rightarrow> cid \<Rightarrow> string \<Rightarrow> bool" where
  "concerns g c k \<longleftrightarrow> registered g c \<and> (\<exists>p \<in> set (ckeys (heap g c)). p = k \<or> keyMatches p k)"

lemma same_registry_concerns: "same_registry_upto A g g' \<Longrightarrow> concerns g' c k = concerns g c k"
  unfolding concerns_def
  by (simp add: same_registry_registered) (simp add: same_registry_upto_def client_le_def)

lemma sendMessages_client:
  assumes "reg_ok g" and "range_order_ok (se_ord E)" and "st_GetQueue S key (store g) = (Inr q, s')"
  shows "heap (sendMessages S X E key g) c =
    (if concerns g c key then deliver X E 0 key c q (heap g c) else heap g c)"
  unfolding sendMessages_heap [OF assms(3)] clients_set_exact [OF assms(1,2)] by (auto simp: concerns_def)

text \<open>No write to a connection fails.\<close>

definition writes_ok :: "send_env \<Rightarrow> cid \<Rightarrow> bool" where
  "writes_ok E c \<longleftrightarrow> range_order_ok (se_ord E) \<and> (\<forall>n. se_ok E n c)"

lemma deliver_open: "\<forall>n. se_ok E n c \<Longrightarrow> is_closed (deliver X E i key c ms cl) = is_closed cl"
proof (induction ms arbitrary: i cl)
  case (Cons m ms)
  have "is_closed (deliver_one E i m data key c cl) = is_closed cl" for data
    using Cons.prems deliver_one_sent(3) [of cl m E i c data key]
    by (cases "is_closed cl \<or> inflight cl (msg_id m) \<noteq> None") (auto simp: deliver_one_def markInflight_def)
  with Cons show ?case by (auto split: option.splits)
qed simp

text \<open>A message that is neither expired nor impossible to represent leaves a flush in flight; if it was
  not before, with its frame written.\<close>

lemma deliver_sends:
  assumes "m \<in> set ms" and "\<forall>n. \<not> isExpired (se_now E n) m" and "marshal X m False = Some data"
    and "\<not> is_closed cl" and "\<forall>n. se_ok E n c"
  shows "\<exists>k. inflight (deliver X E i key c ms cl) (msg_id m) = Some k"
  using assms
proof (induction ms arbitrary: i cl)
  case (Cons a ms)
  define cl' where "cl' = (if isExpired (se_now E i) a then cl
        else case marshal X a False of None \<Rightarrow> cl | Some d \<Rightarrow> deliver_one E i a d key c cl)"
  have o: "\<not> is_closed cl'" using deliver_open [of E c X i key "[a]" cl] Cons.prems(4,5) by (simp add: cl'_def)
  show ?case
  proof (cases "m = a")
    case True
    have "inflight cl' (msg_id m) \<noteq> None" using Cons.prems(2-5) True
      by (cases "inflight cl (msg_id m)") (simp_all add: cl'_def deliver_one_sent deliver_one_skip)
    then show ?thesis using client_le_deliver [of "{}" cl' X E "i + 1" key c ms]
      by (fastforce simp: client_le_def cl'_def)
  next
    case False
    then show ?thesis using Cons.IH [OF _ Cons.prems(2,3) o Cons.prems(5), of "i + 1"] Cons.prems(1)
      by (simp add: cl'_def)
  qed
qed simp

lemma pending_member:
  assumes "m \<in> set ms" and "\<forall>n. \<not> isExpired (se_now E n) m" and "marshal X m False = Some data"
    and "inflight cl (msg_id m) = None"
  shows "\<exists>n. (n, m, data) \<in> set (pending X E cl i ms)"
  using assms by (induction ms arbitrary: i) (auto split: option.splits)

lemma deliver_writes:
  assumes "distinct (map msg_id ms)" and "m \<in> set ms" and "\<forall>n. \<not> isExpired (se_now E n) m"
    and "marshal X m False = Some data" and "\<not> is_closed cl" and "inflight cl (msg_id m) = None"
    and "\<forall>n. se_ok E n c"
  shows "\<exists>fs. wire (deliver X E i key c ms cl) = wire cl @ fs \<and> TextFrame (compress cl) data \<in> set fs"
    and "inflight (deliver X E i key c ms cl) (msg_id m) = Some key"
proof -
  let ?p = "pending X E cl i ms"
  have t: "takeWhile (\<lambda>(i, m, data). se_ok E i c) ?p = ?p"
    using assms(7) by (intro takeWhile_eq_all_conv [THEN iffD2]) auto
  obtain n where n: "(n, m, data) \<in> set ?p" using pending_member [OF assms(2-4,6)] by blast
  note d = deliver_exact [OF assms(1,5) refl t [symmetric], of key]
  show "\<exists>fs. wire (deliver X E i key c ms cl) = wire cl @ fs \<and> TextFrame (compress cl) data \<in> set fs"
    using d n by (intro exI [of _ "frames (compress cl) ?p"]) (force simp: frames_def image_iff)
  have "msg_id m \<in> sent_ids ?p" using n by (force simp: sent_ids_def image_iff)
  then show "inflight (deliver X E i key c ms cl) (msg_id m) = Some key" using d by simp
qed

lemma storageKeysMatching_heap: "storageKeysMatching S p g = (ks, g1) \<Longrightarrow> heap g1 = heap g"
  by (auto simp: storageKeysMatching_def get_keys_def split: prod.splits sum.splits)

lemma match_patterns_heap: "match_patterns S ps g = (ks, g1) \<Longrightarrow> heap g1 = heap g"
  by (induction ps arbitrary: g ks g1) (auto split: prod.splits dest!: storageKeysMatching_heap)

text \<open>A message as the storage gives it back, due and representable.\<close>

definition due :: "externs \<Rightarrow> (nat \<Rightarrow> send_env) \<Rightarrow> Message \<Rightarrow> string \<Rightarrow> bool" where
  "due X E m data \<longleftrightarrow> (\<forall>i n. \<not> isExpired (se_now (E i) n) m) \<and> marshal X m False = Some data"

context reliable_storage
begin

lemma queue_of:
  assumes "inv (store g)"
  obtains q s' where "st_GetQueue S k (store g) = (Inr q, s')" "distinct (map msg_id q)"
    "\<And>m. box (store g) k (msg_id m) = Some m \<Longrightarrow> m \<in> set q"
proof -
  obtain q where q: "fst (st_GetQueue S k (store g)) = Inr q" using get_queue_ok [OF assms] by blast
  then have e: "st_GetQueue S k (store g) = (Inr q, snd (st_GetQueue S k (store g)))" by (metis prod.collapse)
  have d: "distinct (map msg_id q)" "queue_map q = box (store g) k" using get_queue [OF assms e] by auto
  show ?thesis by (rule that [OF e d(1)]) (metis d(2) queue_map_in)
qed

lemma flush_sends:
  assumes "inv (store g)" and "reg_ok g" and "concerns g c k" and "\<not> is_closed (heap g c)"
    and "box (store g) k (msg_id m) = Some m" and "due X (\<lambda>_. E) m data" and "writes_ok E c"
  shows "inflight (heap (sendMessages S X E k g) c) (msg_id m) \<noteq> None"
proof -
  have e: "\<forall>n. \<not> isExpired (se_now E n) m" "marshal X m False = Some data" "range_order_ok (se_ord E)"
    "\<forall>n. se_ok E n c" using assms(6,7) by (simp_all add: due_def writes_ok_def)
  obtain q s' where q: "st_GetQueue S k (store g) = (Inr q, s')" "m \<in> set q"
    using queue_of [OF assms(1), of k] assms(5) by metis
  show ?thesis using deliver_sends [OF q(2) e(1,2) assms(4) e(4), of 0 k] assms(3)
    unfolding sendMessages_client [OF assms(2) e(3) q(1)] by auto
qed

lemma flush_open:
  assumes "inv (store g)" and "reg_ok g" and "writes_ok E c"
  shows "is_closed (heap (sendMessages S X E k g) c) = is_closed (heap g c)"
proof -
  obtain q s' where q: "st_GetQueue S k (store g) = (Inr q, s')" using queue_of [OF assms(1), of k] by metis
  show ?thesis using assms(3) deliver_open [of E c X 0 k q]
    unfolding writes_ok_def by (simp add: sendMessages_client [OF assms(2) _ q])
qed

text \<open>Flushing a list of keys leaves nothing of them behind.\<close>

lemma flush_keys_sends:
  assumes "inv (store g)" and "reg_ok g" and "concerns g c k" and "\<not> is_closed (heap g c)"
    and "box (store g) k (msg_id m) = Some m" and "due X E m data" and "\<forall>i. writes_ok (E i) c" and "k \<in> set ks"
  shows "inflight (heap (flush_keys S X E ks g) c) (msg_id m) \<noteq> None"
  using assms
proof (induction ks arbitrary: E g)
  case (Cons a ks)
  let ?g = "sendMessages S X (E 0) a g"
  note r = sendMessages_registry [of g S X "E 0" a]
  have b: "inv (store ?g)" "box (store ?g) = box (store g)" using sendMessages_box [OF Cons.prems(1)] by auto
  have ok: "reg_ok ?g" "concerns ?g c k" "\<not> is_closed (heap ?g c)"
    using same_registry_ok [OF r] same_registry_concerns [OF r] flush_open [OF Cons.prems(1,2), of "E 0" c]
      Cons.prems by simp_all
  show ?case
  proof (cases "a = k")
    case True
    have "inflight (heap ?g c) (msg_id m) \<noteq> None"
      unfolding True using Cons.prems(6,7) by (intro flush_sends [OF Cons.prems(1-5)]) (auto simp: due_def)
    then show ?thesis
      using same_registry_heap [OF flush_keys_registry [of ?g S X "\<lambda>n. E (n + 1)" ks], of c]
      by (fastforce simp: client_le_def)
  next
    case False
    have "due X (\<lambda>n. E (n + 1)) m data" using Cons.prems(6) by (simp add: due_def)
    from Cons.IH [OF b(1) ok _ this] show ?thesis using Cons.prems b(2) False by simp
  qed
qed simp

text \<open>Publishing writes the message to every open connection that listens to one of its targets.\<close>

lemma post_key_split:
  assumes "inv (store g)"
  obtains g1 where "post_key S X now E m k g = sendMessages S X E k g1" "heap g1 = heap g" "same_registry g g1"
    "inv (store g1)" "box (store g1) = box_put k (msg_id m) (keep (m\<lparr>Key := k\<rparr>)) (box (store g))"
proof (rule that)
  let ?q = "queueMessage S (m\<lparr>Key := k\<rparr>) g"
  let ?g0 = "?q\<lparr>history := history_add now k (m\<lparr>Key := k\<rparr>) (history ?q)\<rparr>"
  show "post_key S X now E m k g = sendMessages S X E k (notify S k ?g0)" by (simp add: post_key_def Let_def)
  show "heap (notify S k ?g0) = heap g"
    by (simp add: notify_def queueMessage_def split: option.splits prod.splits)
  show "same_registry g (notify S k ?g0)"
    by (rule same_registry_trans [OF queueMessage_registry same_registry_trans [OF same_registry_update(1) notify_registry]])
  have b: "inv (store ?g0)" "box (store ?g0) = box_put k (msg_id m) (keep (m\<lparr>Key := k\<rparr>)) (box (store g))"
    using queueMessage_exact [OF assms, of "m\<lparr>Key := k\<rparr>"] by simp_all
  show "inv (store (notify S k ?g0))"
    "box (store (notify S k ?g0)) = box_put k (msg_id m) (keep (m\<lparr>Key := k\<rparr>)) (box (store g))"
    using notify_box [OF b(1), of k] b(2) by simp_all
qed

lemma post_key_other:
  assumes "inv (store g)" and "reg_ok g" and "\<not> concerns g c k" and "range_order_ok (se_ord E)"
  shows "heap (post_key S X now E m k g) c = heap g c"
proof -
  obtain g1 where g1: "post_key S X now E m k g = sendMessages S X E k g1" "heap g1 = heap g" "same_registry g g1"
    "inv (store g1)" using post_key_split [OF assms(1)] by metis
  obtain q s' where q: "st_GetQueue S k (store g1) = (Inr q, s')" using queue_of [OF g1(4), of k] by metis
  show ?thesis using sendMessages_client [OF same_registry_ok [OF g1(3) assms(2)] assms(4) q] assms(3)
    by (simp add: g1(1,2) same_registry_concerns [OF g1(3)])
qed

lemma post_key_sends:
  assumes "inv (store g)" and "reg_ok g" and "concerns g c k" and "\<not> is_closed (heap g c)"
    and "inflight (heap g c) (msg_id m) = None" and "keep (m\<lparr>Key := k\<rparr>) = Some m'" and "due X (\<lambda>_. E) m' data"
    and "writes_ok E c"
  shows "inflight (heap (post_key S X now E m k g) c) (msg_id m) = Some k \<and>
    (\<exists>fs. wire (heap (post_key S X now E m k g) c) = wire (heap g c) @ fs \<and>
       TextFrame (compress (heap g c)) data \<in> set fs)"
proof -
  obtain g1 where g1: "post_key S X now E m k g = sendMessages S X E k g1" "heap g1 = heap g" "same_registry g g1"
    "inv (store g1)" "box (store g1) k (msg_id m) = Some m'"
    using post_key_split [OF assms(1), of X now E m k] assms(6) by (metis box_put_def fun_upd_same)
  have id: "msg_id m' = msg_id m" by (rule box_id [OF g1(4,5)])
  obtain q s' where q: "st_GetQueue S k (store g1) = (Inr q, s')" "distinct (map msg_id q)" "m' \<in> set q"
    using queue_of [OF g1(4), of k] g1(5) id by metis
  have d: "\<forall>n. \<not> isExpired (se_now E n) m'" "marshal X m' False = Some data" "range_order_ok (se_ord E)"
    "\<forall>n. se_ok E n c" using assms(7,8) by (simp_all add: due_def writes_ok_def)
  show ?thesis
    using deliver_writes [OF q(2,3) d(1,2) assms(4) _ d(4), of 0 k] assms(3,5)
      sendMessages_client [OF same_registry_ok [OF g1(3) assms(2)] d(3) q(1), of X c]
    by (simp add: g1(1,2) same_registry_concerns [OF g1(3)] id)
qed

lemma post_keys_sends:
  assumes "inv (store g)" and "reg_ok g" and "\<exists>k \<in> set ks. concerns g c k" and "\<not> is_closed (heap g c)"
    and "inflight (heap g c) (msg_id m) = None"
    and "\<forall>k \<in> set ks. \<exists>m'. keep (m\<lparr>Key := k\<rparr>) = Some m' \<and> (\<forall>j. due X (te_send T j) m' (text k))"
    and "\<forall>j i. writes_ok (te_send T j i) c"
  shows "\<exists>k \<in> set ks. concerns g c k \<and> inflight (heap (post_keys S X T n m ks g) c) (msg_id m) = Some k \<and>
    (\<exists>fs. wire (heap (post_keys S X T n m ks g) c) = wire (heap g c) @ fs \<and>
       TextFrame (compress (heap g c)) (text k) \<in> set fs)"
  using assms
proof (induction ks arbitrary: n g)
  case (Cons a ks)
  let ?g = "post_key S X (te_hist T n) (te_send T n 0) m a g"
  let ?g' = "post_keys S X T (n + 1) m ks ?g"
  note r = post_key_registry [of g S X "te_hist T n" "te_send T n 0" m a]
  have w: "writes_ok (te_send T n 0) c" using Cons.prems(7) by simp
  show ?case
  proof (cases "concerns g c a")
    case True
    obtain m' where m': "keep (m\<lparr>Key := a\<rparr>) = Some m'" "due X (\<lambda>_. te_send T n 0) m' (text a)"
      using Cons.prems(6) by (auto simp: due_def)
    obtain fs where p: "inflight (heap ?g c) (msg_id m) = Some a" "wire (heap ?g c) = wire (heap g c) @ fs"
      "TextFrame (compress (heap g c)) (text a) \<in> set fs"
      using post_key_sends [OF Cons.prems(1,2) True Cons.prems(4,5) m' w, of "te_hist T n"] by blast
    have le: "client_le {} (heap ?g c) (heap ?g' c)" by (rule same_registry_heap [OF post_keys_registry])
    obtain fs' where "wire (heap ?g' c) = wire (heap g c) @ (fs @ fs')"
      using le p(2) by (auto simp: client_le_def prefix_def)
    moreover have "inflight (heap ?g' c) (msg_id m) = Some a" using le p(1) by (simp add: client_le_def)
    ultimately show ?thesis using True p(3) by auto
  next
    case False
    have h: "heap ?g c = heap g c" using w by (intro post_key_other [OF Cons.prems(1,2) False]) (simp add: writes_ok_def)
    have i: "inv (store ?g)" using post_key_exact [OF Cons.prems(1)] by blast
    have cc: "concerns ?g c k = concerns g c k" for k by (rule same_registry_concerns [OF r])
    have "\<exists>k \<in> set ks. concerns ?g c k" using Cons.prems(3) False unfolding cc by auto
    from Cons.IH [OF i same_registry_ok [OF r Cons.prems(2)] this, of "n + 1"] Cons.prems(4-7)
    show ?thesis unfolding cc h by auto
  qed
qed simp

text \<open>Reconciliation, and the task of a new connection: a connection that listens to a pattern or key \<open>p\<close>
  gets what is queued under the keys \<open>p\<close> matches.\<close>

lemma keyMatches_concerns:
  "registered g c \<Longrightarrow> p \<in> set (ckeys (heap g c)) \<Longrightarrow> keyMatches p k \<Longrightarrow> concerns g c k"
  unfolding concerns_def by blast

lemma flush_keys_open:
  "inv (store g) \<Longrightarrow> reg_ok g \<Longrightarrow> \<forall>i. writes_ok (E i) c \<Longrightarrow>
     is_closed (heap (flush_keys S X E ks g) c) = is_closed (heap g c)"
proof (induction ks arbitrary: E g)
  case (Cons a ks)
  let ?g = "sendMessages S X (E 0) a g"
  have "inv (store ?g)" using sendMessages_box [OF Cons.prems(1)] by blast
  moreover have "reg_ok ?g" using same_registry_ok [OF sendMessages_registry Cons.prems(2)] .
  ultimately show ?case using Cons.IH [of ?g "\<lambda>n. E (n + 1)"] flush_open [OF Cons.prems(1,2), of "E 0" c] Cons.prems(3)
    by simp
qed simp

lemma storageKeysMatching_set:
  assumes "inv (store g)" and "storageKeysMatching S p g = (ks, g1)" and "box (store g) k \<noteq> Map.empty"
    and "keyMatches p k"
  shows "k \<in> set ks"
proof -
  obtain r g' where q: "get_keys S g = (r, g')" by fastforce
  obtain ks' where ks': "r = Inr ks'" "{k. box (store g) k \<noteq> Map.empty} \<subseteq> set ks'"
    using delete_all_exact [OF assms(1) q] by blast
  have "k \<in> set ks'" using ks'(2) assms(3) by blast
  moreover have "ks = filter (keyMatches p) ks'" using assms(2) by (simp add: storageKeysMatching_def q ks'(1))
  ultimately show ?thesis using assms(4) by simp
qed

lemma match_patterns_set:
  "inv (store g) \<Longrightarrow> match_patterns S ps g = (ks, g1) \<Longrightarrow> box (store g) k \<noteq> Map.empty \<Longrightarrow> p \<in> set ps \<Longrightarrow>
     keyMatches p k \<Longrightarrow> k \<in> set ks"
proof (induction ps arbitrary: g ks g1)
  case (Cons a ps)
  obtain k1 g2 where m: "storageKeysMatching S a g = (k1, g2)" by fastforce
  obtain k2 g3 where m2: "match_patterns S ps g2 = (k2, g3)" by fastforce
  have "inv (store g2)" "box (store g2) = box (store g)" using storageKeysMatching_box [OF Cons.prems(1) m] by auto
  then show ?case using Cons.IH [OF _ m2] storageKeysMatching_set [OF Cons.prems(1) m] Cons.prems(2-5)
    by (auto simp: m m2)
qed simp

lemma reconcile_sends:
  assumes "inv (store g)" and "reg_ok g" and "range_order_ok o1" and "range_order_ok o2"
    and "0 < ReconcileInterval (config g)"
    and "registered g c" and "p \<in> set (ckeys (heap g c))" and "keyMatches p k" and "\<not> is_closed (heap g c)"
    and "box (store g) k (msg_id m) = Some m" and "due X E m data" and "\<forall>i. writes_ok (E i) c"
  shows "inflight (heap (reconcile S X o1 o2 E g) c) (msg_id m) \<noteq> None"
proof -
  let ?ks = "o1 (gm_keys (Conns g))"
  obtain sks g1 where m: "match_patterns S (filter hasWildcard ?ks) g = (sks, g1)" by fastforce
  note b = match_patterns_box [OF assms(1) m] and r = match_patterns_registry [OF m]
  have "gm_list (Conns g) p \<noteq> []"
    using assms(6,7) reg_okD(7) [OF assms(2)] unfolding registered_def by fastforce
  then have p: "p \<in> set ?ks"
    using gm_list_nonempty_key range_order_set [OF assms(3)] by metis
  have "box (store g) k \<noteq> Map.empty" using assms(10) by auto
  then have "hasWildcard p \<Longrightarrow> k \<in> set sks"
    using match_patterns_set [OF assms(1) m _ _ assms(8)] p by auto
  moreover have "\<not> hasWildcard p \<Longrightarrow> p = k" using assms(8) by (simp add: keyMatches_def)
  ultimately have "k \<in> set (o2 (add_new [] (filter (\<lambda>k. \<not> hasWildcard k) ?ks @ sks)))"
    using p by (auto simp: range_order_set [OF assms(4)])
  moreover have "concerns g1 c k"
    using keyMatches_concerns [OF assms(6-8)] same_registry_concerns [OF r] by blast
  ultimately show ?thesis
    using flush_keys_sends [of g1 c k m X E data] b same_registry_ok [OF r assms(2)] assms(5,9-12) match_patterns_heap [OF m]
    by (simp add: reconcile_def Let_def m)
qed

lemma connect_keys_sends:
  assumes "inv (store g)" and "reg_ok g" and "registered g c" and "set ks \<subseteq> set (ckeys (heap g c))"
    and "p \<in> set ks" and "keyMatches p k" and "\<not> is_closed (heap g c)"
    and "box (store g) k (msg_id m) = Some m" and "\<forall>j. due X (te_send T j) m data"
    and "\<forall>j i. writes_ok (te_send T j i) c"
  shows "inflight (heap (connect_keys S X T n ks g) c) (msg_id m) \<noteq> None"
  using assms
proof (induction ks arbitrary: n g)
  case (Cons a ks)
  obtain sks g1 where sk: "storageKeysMatching S a g = (sks, g1)" by fastforce
  note r1 = storageKeysMatching_registry [OF sk] and b1 = storageKeysMatching_box [OF Cons.prems(1) sk]
    and h1 = storageKeysMatching_heap [OF sk]
  have ok1: "inv (store g1)" "reg_ok g1" using b1 same_registry_ok [OF r1 Cons.prems(2)] by auto
  define g2 where "g2 = (if hasWildcard a then flush_keys S X (te_send T n) sks g1 else sendMessages S X (te_send T n 0) a g)"
  have eq: "connect_keys S X T n (a # ks) g = connect_keys S X T (n + 1) ks g2" by (simp add: g2_def sk)
  have r: "same_registry g g2" unfolding g2_def
    using same_registry_trans [OF r1 flush_keys_registry] sendMessages_registry by auto
  have w: "\<forall>i. writes_ok (te_send T n i) c" using Cons.prems(10) by blast
  have box2: "inv (store g2)" "box (store g2) = box (store g)"
    using sendMessages_box [OF Cons.prems(1), of X "te_send T n 0" a] flush_keys_box [OF ok1(1), of X "te_send T n" sks] b1
    by (auto simp: g2_def)
  have open2: "is_closed (heap g2 c) = is_closed (heap g c)"
    using flush_keys_open [OF ok1 w] flush_open [OF Cons.prems(1,2), of "te_send T n 0" c] w h1 by (simp add: g2_def)
  have le: "client_le {} (heap g2 c) (heap (connect_keys S X T (n + 1) ks g2) c)"
    by (rule same_registry_heap [OF connect_keys_registry])
  show ?case
  proof (cases "a = p")
    case True
    have cc: "concerns g c k" using keyMatches_concerns [OF Cons.prems(3) _ Cons.prems(6)] Cons.prems(4,5) by blast
    have "inflight (heap g2 c) (msg_id m) \<noteq> None"
    proof (cases "hasWildcard a")
      case w: True
      have "box (store g) k \<noteq> Map.empty" using Cons.prems(8) by auto
      then have "k \<in> set sks"
        using storageKeysMatching_set [OF Cons.prems(1) sk] Cons.prems(6) True by blast
      moreover have "concerns g1 c k" using cc same_registry_concerns [OF r1] by blast
      ultimately show ?thesis
        using flush_keys_sends [OF ok1, of c k m X "te_send T n" data sks] Cons.prems(7-10) b1 h1 w by (simp add: g2_def)
    next
      case w: False
      then have "a = k" using Cons.prems(6) True by (simp add: keyMatches_def)
      moreover have "due X (\<lambda>_. te_send T n 0) m data" using Cons.prems(9) by (simp add: due_def)
      ultimately show ?thesis
        using flush_sends [OF Cons.prems(1,2) cc Cons.prems(7,8)] Cons.prems(10) w by (simp add: g2_def)
    qed
    then obtain k' where "inflight (heap g2 c) (msg_id m) = Some k'" by blast
    then show ?thesis unfolding eq using le by (simp add: client_le_def)
  next
    case False
    have c2: "ckeys (heap g2 c) = ckeys (heap g c)" using same_registry_heap [OF r, of c] by (simp add: client_le_def)
    show ?thesis unfolding eq
      by (rule Cons.IH [OF box2(1) same_registry_ok [OF r Cons.prems(2)]])
        (use Cons.prems False box2(2) open2 c2 same_registry_registered [OF r] in auto)
  qed
qed simp

end

end
