(* ===== verification/Authenticity.thy ===== *)
theory Authenticity
  imports Lifecycle
begin

text \<open>
  Where queued messages come from: every message in a queue of the storage was posted by an
  authenticated request whose body \<^verbatim>\<open>unmarshal\<close> accepted. Together with the
  conservation of messages this fixes the content of the mailbox along an execution.
\<close>

subsection \<open>What only removes\<close>

definition shrinks :: "mailbox \<Rightarrow> mailbox \<Rightarrow> bool" where
  "shrinks b b' \<longleftrightarrow> (\<forall>k. b' k \<subseteq>\<^sub>m b k)"

lemma shrinks_refl [simp]: "shrinks b b"
  by (simp add: shrinks_def)

lemma shrinks_trans: "shrinks b1 b2 \<Longrightarrow> shrinks b2 b3 \<Longrightarrow> shrinks b1 b3"
  unfolding shrinks_def by (metis map_le_trans)

lemma shrinksD: "shrinks b b' \<Longrightarrow> b' k i = Some m \<Longrightarrow> b k i = Some m"
  by (auto simp: shrinks_def map_le_def dom_def)

lemma shrinks_del [simp]: "shrinks b (box_del k i b)" "shrinks b (box_clear k b)"
  by (auto simp: shrinks_def box_del_def box_clear_def map_le_def)

context storage_contract
begin

lemma sweep_loop_shrinks:
  "inv (store g) \<Longrightarrow> sweep_loop S now n key ms r g = (r', g') \<Longrightarrow>
     inv (store g') \<and> shrinks (box (store g)) (box (store g'))"
proof (induction ms arbitrary: n r g)
  case (Cons m ms)
  obtain e g1 where d: "deleteMsgById S key (msg_id m) g = (e, g1)" by fastforce
  have b: "inv (store g1)" "shrinks (box (store g)) (box (store g1))"
    using deleteMsgById_box [OF Cons.prems(1) d] by auto
  show ?case
  proof (cases "isExpired (now n) m")
    case True
    then have "sweep_loop S now (n + 1) key ms (r + 1) g1 = (r', g')" using Cons.prems(2) d by simp
    then show ?thesis using Cons.IH [OF b(1)] shrinks_trans [OF b(2)] by blast
  next
    case False
    then show ?thesis using Cons.IH [OF Cons.prems(1), of "n + 1" r] Cons.prems(2) by simp
  qed
qed simp

lemma sweepKey_shrinks:
  assumes "inv (store g)"
  shows "inv (store (sweepKey S now key g)) \<and> shrinks (box (store g)) (box (store (sweepKey S now key g)))"
proof -
  obtain r g1 where q: "getMsgQueue S key g = (r, g1)" by fastforce
  note b = getMsgQueue_box [OF assms q]
  obtain n g2 where l: "sweep_loop S now 0 key (projr r) 0 g1 = (n, g2)" by fastforce
  show ?thesis using sweep_loop_shrinks [OF _ l] b l by (cases r) (auto simp: sweepKey_def q)
qed

lemma sweepExpired_shrinks:
  assumes "inv (store g)"
  shows "shrinks (box (store g)) (box (store (sweepExpired S now pnow g)))"
proof -
  have keys: "inv (store g) \<Longrightarrow> inv (store (sweep_keys S now n ks g)) \<and>
      shrinks (box (store g)) (box (store (sweep_keys S now n ks g)))" for n ks and g :: "('s, 'z) goctopus"
  proof (induction ks arbitrary: n g)
    case (Cons a ks)
    from sweepKey_shrinks [OF Cons.prems, of "now n" a] show ?case
      using Cons.IH [of "sweepKey S (now n) a g" "n + 1"] shrinks_trans by auto
  qed simp
  obtain r g1 where q: "get_keys S g = (r, g1)" by fastforce
  note b = get_keys_box [OF assms q]
  show ?thesis using keys [of g1 0 "projr r"] b
    by (cases r) (simp_all add: sweepExpired_def q Let_def)
qed

lemma handleAck_shrinks:
  assumes "inv (store g)"
  shows "shrinks (box (store g)) (box (store (handleAck S X c payload g)))"
proof (cases "ack_id X payload")
  case (Some j)
  obtain k cl where t: "takeInflight j (heap g c) = (k, cl)" by fastforce
  obtain e g2 where d: "deleteMsgById S (the k) j (set_client c cl g) = (e, g2)" by fastforce
  have "shrinks (box (store g)) (box (store g2))" using deleteMsgById_box [OF _ d] assms by auto
  then show ?thesis using Some t d by (cases k) (auto simp: handleAck_def Let_def)
qed (simp add: handleAck_def)

lemma readLoop_step_shrinks:
  assumes "inv (store g)" and "readLoop_step S X flate now ok inb c g = (b, g')"
  shows "shrinks (box (store g)) (box (store g'))"
proof -
  obtain b1 g1 where body: "readLoop_body S X flate now ok inb c g = (b1, g1)" by fastforce
  have "store g' = store g1"
    using assms(2) body by (auto simp: readLoop_step_def removeClient_heap split: if_splits)
  moreover have "shrinks (box (store g)) (box (store g1))"
    using body handleAck_shrinks [OF assms(1)]
    by (auto simp: readLoop_body_def case_prod_beta Let_def split: option.splits opcode.splits)
  ultimately show ?thesis by simp
qed

lemma handleDelete_shrinks:
  assumes "inv (store g)" and "handleDelete S X r g = (rep, g')"
  shows "shrinks (box (store g)) (box (store g'))"
proof -
  have one: "inv (store g) \<Longrightarrow> inv (store (deleteMsgQueue S k g)) \<and> shrinks (box (store g)) (box (store (deleteMsgQueue S k g)))"
    for k and g :: "('s, 'z) goctopus"
    using deleteMsgQueue_box [of g k] by auto
  have all_queues: "inv (store g) \<Longrightarrow> shrinks (box (store g)) (box (store (fold (deleteMsgQueue S) ks g)))"
    for ks and g :: "('s, 'z) goctopus"
  proof (induction ks arbitrary: g)
    case (Cons k ks)
    then show ?case using one [OF Cons.prems, of k] shrinks_trans by auto
  qed simp
  from assms(2) show ?thesis
  proof (cases rule: handleDelete_cases)
    case (all rk g1)
    then show ?thesis using get_keys_box [OF assms(1) all(3)] all_queues [of g1] by (auto split: sum.splits)
  next
    case queue
    then show ?thesis using one [OF assms(1)] by simp
  next
    case (one j e)
    then show ?thesis using deleteMsgById_box [OF assms(1) one(2)] by auto
  qed simp
qed

text \<open>The only task that adds, and what it adds.\<close>

lemma post_keys_adds:
  "inv (store g) \<Longrightarrow> box (store (post_keys S X T n m ks g)) k i = Some m' \<Longrightarrow>
     box (store g) k i = Some m' \<or> k \<in> set ks \<and> keep (m\<lparr>Key := k\<rparr>) = Some m'"
proof (induction ks arbitrary: n g)
  case (Cons a ks)
  let ?g = "post_key S X (te_hist T n) (te_send T n 0) m a g"
  have p: "inv (store ?g)" "box (store ?g) \<in> {box (store g), box_put a (msg_id m) (keep (m\<lparr>Key := a\<rparr>)) (box (store g))}"
    using post_key_box [OF Cons.prems(1), of X "te_hist T n" "te_send T n 0" m a] by simp_all
  from Cons.IH [OF p(1), of "n + 1"] Cons.prems(2)
  have "box (store ?g) k i = Some m' \<or> k \<in> set ks \<and> keep (m\<lparr>Key := k\<rparr>) = Some m'" by simp
  then show ?case using p(2) by (auto simp: box_put_def split: if_splits)
qed simp

lemma run_task_adds:
  assumes "inv (store g)" and "box (store (run_task S X T t g)) k i = Some m'"
  shows "box (store g) k i = Some m' \<or> (\<exists>m ks. t = PostTask m ks \<and> k \<in> set ks \<and> keep (m\<lparr>Key := k\<rparr>) = Some m')"
  using assms post_keys_adds [OF assms(1)] sendMessages_box [OF assms(1)] connect_keys_box [OF assms(1)]
  by (cases t) auto

end

subsection \<open>Where tasks come from\<close>

definition tasks :: "('s, 'a) goctopus \<Rightarrow> task set" where
  "tasks g = set (work g) \<union> set (spawned g)"

definition quiet :: "('s, 'a) goctopus \<Rightarrow> ('s, 'a) goctopus \<Rightarrow> bool" where
  "quiet g g' \<longleftrightarrow> work g' = work g \<and> spawned g' = spawned g"

lemma quiet_refl [simp]: "quiet g g"
  by (simp add: quiet_def)

lemma quiet_trans: "quiet g1 g2 \<Longrightarrow> quiet g2 g3 \<Longrightarrow> quiet g1 g3"
  by (simp add: quiet_def)

lemma quiet_tasks: "quiet g g' \<Longrightarrow> tasks g' = tasks g"
  by (simp add: quiet_def tasks_def)

lemma flush_quiet: "flush_frame g g' \<Longrightarrow> quiet g g'"
  using flush_frameD(8,10) [of g g'] by (simp add: quiet_def)

lemma tasks_schedule: "tasks (schedule t g) = insert t (tasks g)"
  by (auto simp: tasks_def schedule_def)

lemma quiet_storage:
  "getMsgQueue S k g = (r, g') \<Longrightarrow> quiet g g'" "get_keys S g = (rk, g') \<Longrightarrow> quiet g g'"
  "storageKeysMatching S p g = (ks, g') \<Longrightarrow> quiet g g'" "deleteMsgById S k i g = (e, g') \<Longrightarrow> quiet g g'"
  "quiet g (deleteMsgQueue S k g)" "quiet g (queueMessage S m g)" "quiet g (notify S k g)"
  by (auto simp: quiet_def getMsgQueue_def get_keys_def storageKeysMatching_def deleteMsgById_def deleteMsgQueue_def
      queueMessage_def notify_def split: prod.splits sum.splits option.splits)

lemma handlePost_tasks:
  assumes "handlePost X now newid r g = (rep, g')"
  shows "tasks g' = tasks g \<or> (\<exists>m. tasks g' = insert (PostTask m (targets m)) (tasks g) \<and>
    unmarshal X (MaxBytesReader (MaxMessageBytes (config g)) (r_Body r)) (DefaultExpire (config g)) now newid zero_Message = UOk m)"
  using assms by (auto simp: handlePost_def tasks_schedule Let_def split: unmarshal_result.splits) (simp_all add: tasks_def)

lemma handleGet_quiet: "handleGet S X now r g = (rep, g') \<Longrightarrow> quiet g g'"
proof -
  have "quiet g (g\<lparr>history := h\<rparr>)" for h by (simp add: quiet_def)
  then show "handleGet S X now r g = (rep, g') \<Longrightarrow> quiet g g'"
    by (auto simp: handleGet_def handleHistory_def getMarshalledKeys_def getMarshalledMessages_def Let_def
        split: if_splits prod.splits sum.splits intro: quiet_storage(1,2))
qed

lemma handleDelete_quiet: "handleDelete S X r g = (rep, g') \<Longrightarrow> quiet g g'"
proof -
  have all: "quiet g (fold (deleteMsgQueue S) ks g)" for ks and g :: "('a, 'b) goctopus"
    by (induction ks arbitrary: g) (auto intro: quiet_trans [OF quiet_storage(5)])
  show "quiet g g'" if "handleDelete S X r g = (rep, g')"
    using that by (cases rule: handleDelete_cases)
      (auto split: sum.splits intro: all quiet_storage quiet_trans [OF quiet_storage(2) all])
qed

lemma handleWs_tasks:
  assumes "handleWs A H r g = (rep, g')"
  shows "tasks g' \<subseteq> tasks g \<union> range ConnectTask"
  using assms
proof (cases rule: handleWs_cases)
  case (accepted l a keys cmpr)
  have w: "quiet g0 (fold (register_key c) ks g0)" for c ks and g0 :: "('a, 'b) goctopus"
    by (induction ks arbitrary: g0) (auto simp: register_key_def quiet_def)
  have "tasks (accept_conn keys cmpr g0) \<subseteq> insert (ConnectTask keys) (tasks g0)" for g0 :: "('a, 'b) goctopus"
    unfolding accept_conn_def Let_def tasks_schedule quiet_tasks [OF w]
    by (auto simp: tasks_def set_client_def)
  from this [of "g\<lparr>limiter := l, authz := a\<rparr>"] show ?thesis
    using accepted by (auto simp: tasks_def)
qed (auto simp: tasks_def)

lemma probe_quiet: "probe_only S g g' \<Longrightarrow> quiet g g'"
proof -
  assume "probe_only S g g'"
  then obtain s v t where "g' = g\<lparr>store := s, keysVal := v, keysAt := t\<rparr>" unfolding probe_only_def by blast
  then show "quiet g g'" by (simp add: quiet_def)
qed

lemma post_keys_quiet: "quiet g (post_keys S X T n m ks g)"
proof (induction ks arbitrary: n g)
  case (Cons k ks)
  have "quiet g (post_key S X (te_hist T n) (te_send T n 0) m k g)"
    unfolding post_key_def Let_def
    by (rule quiet_trans [OF quiet_storage(6)],
        rule quiet_trans [OF _ quiet_trans [OF quiet_storage(7) flush_quiet [OF sendMessages_frame]]])
      (simp add: quiet_def)
  then show ?case using quiet_trans [OF _ Cons.IH] by simp
qed simp

lemma connect_keys_quiet: "quiet g (connect_keys S X T n ks g)"
proof (induction ks arbitrary: n g)
  case (Cons k ks)
  obtain sks g1 where m: "storageKeysMatching S k g = (sks, g1)" by fastforce
  have "quiet g (if hasWildcard k then flush_keys S X (te_send T n) sks g1 else sendMessages S X (te_send T n 0) k g)"
    using quiet_trans [OF quiet_storage(3) [OF m] flush_quiet [OF flush_keys_frame]] flush_quiet [OF sendMessages_frame]
    by auto
  from quiet_trans [OF this Cons.IH [of _ "n + 1"]] show ?case by (simp add: m split: if_splits)
qed simp

lemma run_task_quiet: "quiet g (run_task S X T t g)"
  by (cases t) (simp_all add: post_keys_quiet connect_keys_quiet flush_quiet [OF sendMessages_frame])

lemma worker_tasks: "tasks (worker S X T g) \<subseteq> tasks g"
proof (cases "work g")
  case (Cons t ts)
  have "tasks (run_task S X T t (g\<lparr>work := ts\<rparr>)) = tasks (g\<lparr>work := ts\<rparr>)"
    by (rule quiet_tasks [OF run_task_quiet])
  then show ?thesis by (auto simp: worker_def Cons tasks_def)
qed (simp add: worker_def)

lemma run_spawned_tasks: "tasks (run_spawned S X T n g) \<subseteq> tasks g"
proof -
  let ?g = "g\<lparr>spawned := take n (spawned g) @ drop (n + 1) (spawned g)\<rparr>"
  have "tasks (run_task S X T (spawned g ! n) ?g) = tasks ?g" by (rule quiet_tasks [OF run_task_quiet])
  moreover have "tasks ?g \<subseteq> tasks g" by (auto simp: tasks_def dest: in_set_takeD in_set_dropD)
  ultimately show ?thesis by (simp add: run_spawned_def)
qed

lemma reconcile_quiet: "quiet g (reconcile S X o1 o2 E g)"
proof -
  have m: "match_patterns S ps g = (ks, g1) \<Longrightarrow> quiet g g1" for ps ks and g g1 :: "('a, 'b) goctopus"
    by (induction ps arbitrary: g ks g1) (auto split: prod.splits intro: quiet_trans dest!: quiet_storage(3))
  obtain sks g1 where e: "match_patterns S (filter hasWildcard (o1 (gm_keys (Conns g)))) g = (sks, g1)" by fastforce
  show ?thesis using quiet_trans [OF m [OF e] flush_quiet [OF flush_keys_frame]]
    by (simp add: reconcile_def Let_def e)
qed

lemma sweepExpired_quiet: "quiet g (sweepExpired S now pnow g)"
proof -
  have l: "sweep_loop S now n key ms r g = (r', g') \<Longrightarrow> quiet g g'" for now n key ms r r' and g g' :: "('a, 'b) goctopus"
  proof (induction ms arbitrary: n r g)
    case (Cons m ms)
    have "quiet g (snd (deleteMsgById S key (msg_id m) g))" by (rule quiet_storage(4) [OF surjective_pairing])
    then show ?case using Cons.prems Cons.IH quiet_trans by (fastforce split: if_splits)
  qed simp
  have k: "quiet g (sweepKey S now key g)" for now key and g :: "('a, 'b) goctopus"
    using quiet_storage(1) [of S key g] quiet_trans [OF quiet_storage(1) l]
    by (auto simp: sweepKey_def quiet_def split: prod.splits sum.splits)
  have "quiet g (sweep_keys S now n ks g)" for n ks and g :: "('a, 'b) goctopus"
    by (induction ks arbitrary: n g) (auto intro: quiet_trans [OF k])
  then show ?thesis using quiet_storage(2) [of S g]
    by (auto simp: sweepExpired_def quiet_def Let_def split: prod.splits sum.splits)
qed

lemma readLoop_step_quiet: "readLoop_step S X flate now ok inb c g = (b, g') \<Longrightarrow> quiet g g'"
proof -
  have r: "quiet g (removeClient c g)" for g :: "('a, 'b) goctopus"
  proof -
    have "quiet g0 (fold (unregister_key c) ks g0)" for ks and g0 :: "('a, 'b) goctopus"
      by (induction ks arbitrary: g0) (auto simp: unregister_key_def quiet_def Let_def)
    from this [of "set_client c (close_client (heap g c)) g"] show ?thesis
      by (simp add: removeClient_def quiet_def set_client_def Let_def)
  qed
  have a: "quiet g (handleAck S X c p g)" for p
    using quiet_storage(4) by (auto simp: handleAck_def quiet_def set_client_def deleteMsgById_def Let_def split: option.splits prod.splits)
  have "quiet g g1" if "readLoop_body S X flate now ok inb c g = (b1, g1)" for b1 g1
    using that a by (auto simp: readLoop_body_def quiet_def set_client_def case_prod_beta Let_def split: option.splits opcode.splits)
  then show "readLoop_step S X flate now ok inb c g = (b, g') \<Longrightarrow> quiet g g'"
    using quiet_trans [OF _ r] by (auto simp: readLoop_step_def split: prod.splits if_splits)
qed

lemma pingLoop_quiet: "pingLoop_step ev c g = (b, g') \<Longrightarrow> quiet g g'"
  by (auto simp: pingLoop_step_def quiet_def set_client_def case_prod_beta Let_def split: ping_event.splits if_splits)

lemma Stop_quiet: "quiet g (Stop g)"
proof -
  have "quiet g0 (fold (\<lambda>c g. set_client c (close_client (heap g c)) g) cs g0)" for cs and g0 :: "('a, 'b) goctopus"
    by (induction cs arbitrary: g0) (auto simp: set_client_def quiet_def)
  then show ?thesis by (simp add: Stop_def quiet_def Let_def)
qed

subsection \<open>Along an execution\<close>

text \<open>A message that an authenticated request posted.\<close>

definition posted :: "('s, 'a) deployment \<Rightarrow> Config \<Rightarrow> event list \<Rightarrow> Message \<Rightarrow> bool" where
  "posted D cfg evs m \<longleftrightarrow> (\<exists>H r. EvHTTP H r \<in> set evs \<and> r_Path r = ''/'' \<and> r_Method r = ''POST'' \<and> backend_ok cfg r \<and>
     unmarshal (dX D) (MaxBytesReader (MaxMessageBytes cfg) (r_Body r)) (DefaultExpire cfg) (he_now H 0) (he_newid H)
       zero_Message = UOk m)"

lemma posted_mono: "posted D cfg evs m \<Longrightarrow> set evs \<subseteq> set evs' \<Longrightarrow> posted D cfg evs' m"
  unfolding posted_def by blast

lemma ServeHTTP_tasks:
  assumes "ServeHTTP (dS D) A (dX D) render ver H r g = (rep, g')" and "PostTask m ks \<in> tasks g'"
  shows "PostTask m ks \<in> tasks g \<or> ks = targets m \<and> posted D (config g) [EvHTTP H r] m"
  using assms(1)
proof (cases rule: ServeHTTP_cases)
  case api
  have same: "tasks (g\<lparr>limiter := l, authFail := n\<rparr>) = tasks g" for l n by (simp add: tasks_def)
  from api(2) show ?thesis
  proof (cases rule: handleHTTP_cases)
    case (refused l n st)
    then show ?thesis using assms(2) same by simp
  next
    case (post l n)
    from handlePost_tasks [OF post(3)] show ?thesis
      using assms(2) same [of n l] post(1,2) api(1) by (auto simp: posted_def)
  next
    case (get l n)
    then show ?thesis using assms(2) same quiet_tasks [OF handleGet_quiet [OF get(3)]] by simp
  next
    case (delete l n)
    then show ?thesis using assms(2) same quiet_tasks [OF handleDelete_quiet [OF delete(3)]] by simp
  qed
next
  case ws
  then show ?thesis using handleWs_tasks [OF ws(2)] assms(2) by auto
next
  case probe
  then show ?thesis using quiet_tasks [OF probe_quiet [OF probe(2)]] assms(2) by simp
qed

lemma step_tasks:
  assumes "step D y ev y'" and "PostTask m ks \<in> tasks (eng y')"
  shows "PostTask m ks \<in> tasks (eng y) \<or> ks = targets m \<and> posted D (config (eng y)) [ev] m"
  using assms(1)
proof cases
  case (http H r rep g')
  show ?thesis using ServeHTTP_tasks [OF http(3)] assms(2) by (simp add: http)
next
  case (frame c now ok inb goes_on g')
  then show ?thesis using quiet_tasks [OF readLoop_step_quiet [OF frame(4)]] assms(2) by simp
next
  case (ping c e goes_on g')
  then show ?thesis using quiet_tasks [OF pingLoop_quiet [OF ping(6)]] assms(2) by simp
next
  case (worker T)
  then show ?thesis using worker_tasks [of "dS D" "dX D" T "eng y"] assms(2) by auto
next
  case (spawned n T)
  then show ?thesis using run_spawned_tasks [of "dS D" "dX D" T n "eng y"] assms(2) by auto
next
  case (reconcile o1 o2 E)
  then show ?thesis using quiet_tasks [OF reconcile_quiet, of "dS D" "dX D" o1 o2 E "eng y"] assms(2) by simp
next
  case (sweep now pnow)
  then show ?thesis using quiet_tasks [OF sweepExpired_quiet, of "dS D" now pnow "eng y"] assms(2) by simp
next
  case (loop_done l)
  then show ?thesis using assms(2) by simp
next
  case (notified e goes_on g')
  then show ?thesis using assms(2) by (auto simp: Subscribe_step_def tasks_schedule split: sub_event.splits)
next
  case stop
  then show ?thesis using quiet_tasks [OF Stop_quiet, of "eng y"] assms(2) by simp
next
  case (backend s)
  then show ?thesis using assms(2) by (simp add: tasks_def)
qed

context storage_contract
begin

lemma ServeHTTP_shrinks:
  assumes "inv (store g)" and "ServeHTTP S A X render ver H r g = (rep, g')"
  shows "shrinks (box (store g)) (box (store g'))"
  using assms(2)
proof (cases rule: ServeHTTP_cases)
  case api
  from api(2) show ?thesis
  proof (cases rule: handleHTTP_cases)
    case (post l n)
    then have "store g' = store g" by (auto simp: handlePost_def Let_def split: unmarshal_result.splits)
    then show ?thesis by simp
  next
    case (get l n)
    then show ?thesis using handleGet_box [OF _ get(3)] assms(1) by simp
  next
    case (delete l n)
    then show ?thesis using handleDelete_shrinks [OF _ delete(3)] assms(1) by simp
  qed simp
next
  case ws
  then show ?thesis using handleWs_store [OF ws(2)] by simp
next
  case probe
  then consider "store g' = store g" | "store g' = snd (st_GetKeys S (store g))"
    | p where "st_PingContext S = Some p" "store g' = snd (p (store g))"
    unfolding probe_only_def by blast
  then have "box (store g') = box (store g)"
  proof cases
    case 2
    then show ?thesis using get_keys [OF assms(1)] by (cases "st_GetKeys S (store g)") simp
  next
    case (3 p)
    then show ?thesis using ping [OF 3(1) assms(1)] by (cases "p (store g)") simp
  qed simp
  then show ?thesis by simp
qed

end

lemma step_adds:
  assumes c: "storage_contract (dS D) sinv box keep" and i: "sinv (store (eng y))" and "step D y ev y'" and "ev \<noteq> EvBackend"
    and new: "box (store (eng y')) k i = Some m'" "box (store (eng y)) k i \<noteq> Some m'"
  shows "\<exists>m ks. PostTask m ks \<in> tasks (eng y) \<and> k \<in> set ks \<and> keep (m\<lparr>Key := k\<rparr>) = Some m'"
proof -
  have none: False if "shrinks (box (store (eng y))) (box (store (eng y')))" using new shrinksD [OF that] by blast
  from assms(3) show ?thesis
  proof cases
    case (http H r rep g')
    then show ?thesis using none storage_contract.ServeHTTP_shrinks [OF c i http(3)] by simp
  next
    case (frame c' now ok inb goes_on g')
    then show ?thesis using none storage_contract.readLoop_step_shrinks [OF c i frame(4)] by simp
  next
    case (ping c' e goes_on g')
    then show ?thesis using none pingLoop_store [OF ping(6)] by simp
  next
    case (worker T)
    obtain t ts where w: "work (eng y) = t # ts" using worker(3) by (cases "work (eng y)") auto
    then have "PostTask m ks = t \<Longrightarrow> PostTask m ks \<in> tasks (eng y)" for m ks by (simp add: tasks_def)
    then show ?thesis using storage_contract.run_task_adds [OF c, of "eng y\<lparr>work := ts\<rparr>" "dX D" T t k i m'] i new worker(2) w
      by (auto simp: worker_def)
  next
    case (spawned n T)
    let ?g = "eng y\<lparr>spawned := take n (spawned (eng y)) @ drop (n + 1) (spawned (eng y))\<rparr>"
    have "spawned (eng y) ! n \<in> tasks (eng y)" using spawned(3) by (simp add: tasks_def)
    moreover obtain m ks where "spawned (eng y) ! n = PostTask m ks" "k \<in> set ks" "keep (m\<lparr>Key := k\<rparr>) = Some m'"
      using storage_contract.run_task_adds [OF c, of ?g "dX D" T "spawned (eng y) ! n" k i m'] i new spawned(2,3)
      by (auto simp: run_spawned_def simp del: run_task.simps)
    ultimately show ?thesis by metis
  next
    case (reconcile o1 o2 E)
    then show ?thesis using none storage_contract.reconcile_box [OF c i, of "dX D" o1 o2 E] by simp
  next
    case (sweep now pnow)
    then show ?thesis using none storage_contract.sweepExpired_shrinks [OF c i] by simp
  next
    case (notified e goes_on g')
    then show ?thesis using none notified_store [OF notified(6)] by simp
  qed (use assms(4) none in simp_all)
qed

text \<open>Every message in a queue was there at the start or was posted, and so were the tasks still to run.\<close>

lemma run_posted:
  assumes "deployment_ok D sinv box keep ainv" and "sys_inv sinv ainv y" and "tasks (eng y) = {}"
    and "run D y evs z" and "EvBackend \<notin> set evs"
  shows "sys_inv sinv ainv z \<and> config (eng z) = config (eng y) \<and>
    (\<forall>m ks. PostTask m ks \<in> tasks (eng z) \<longrightarrow> ks = targets m \<and> posted D (config (eng y)) evs m) \<and>
    (\<forall>k i m'. box (store (eng z)) k i = Some m' \<longrightarrow> box (store (eng y)) k i = Some m' \<or>
       (\<exists>m. posted D (config (eng y)) evs m \<and> k \<in> set (targets m) \<and> keep (m\<lparr>Key := k\<rparr>) = Some m'))"
  using assms(4,5)
proof induction
  case run_init
  then show ?case using assms(2,3) by simp
next
  case (run_step evs z ev z')
  let ?cfg = "config (eng y)"
  have ev: "ev \<noteq> EvBackend" "EvBackend \<notin> set evs" using run_step.prems by auto
  have z: "sys_inv sinv ainv z" "config (eng z) = ?cfg"
    and t: "\<And>m ks. PostTask m ks \<in> tasks (eng z) \<Longrightarrow> ks = targets m \<and> posted D ?cfg evs m"
    and b: "\<And>k i m'. box (store (eng z)) k i = Some m' \<Longrightarrow> box (store (eng y)) k i = Some m' \<or>
       (\<exists>m. posted D ?cfg evs m \<and> k \<in> set (targets m) \<and> keep (m\<lparr>Key := k\<rparr>) = Some m')"
    using run_step.IH [OF ev(2)] by blast+
  have up: "posted D ?cfg evs m \<Longrightarrow> posted D ?cfg (evs @ [ev]) m" "posted D ?cfg [ev] m \<Longrightarrow> posted D ?cfg (evs @ [ev]) m" for m
    by (auto intro: posted_mono)
  have t': "ks = targets m \<and> posted D ?cfg (evs @ [ev]) m" if "PostTask m ks \<in> tasks (eng z')" for m ks
    using step_tasks [OF run_step.hyps(2) that] t up unfolding z(2) by blast
  have c: "storage_contract (dS D) sinv box keep" and i: "sinv (store (eng z))"
    using assms(1) z(1) by (simp_all add: deployment_ok_def sys_inv_def)
  have b': "box (store (eng y)) k i = Some m' \<or>
       (\<exists>m. posted D ?cfg (evs @ [ev]) m \<and> k \<in> set (targets m) \<and> keep (m\<lparr>Key := k\<rparr>) = Some m')"
    if m': "box (store (eng z')) k i' = Some m'" "i = i'" for k i i' m'
  proof (cases "box (store (eng z)) k i = Some m'")
    case True
    then show ?thesis using b up(1) by blast
  next
    case False
    then obtain m ks where "PostTask m ks \<in> tasks (eng z)" "k \<in> set ks" "keep (m\<lparr>Key := k\<rparr>) = Some m'"
      using step_adds [OF c i run_step.hyps(2) ev(1) m'(1)] m'(2) by blast
    then show ?thesis using t up(1) by blast
  qed
  show ?case using step_sys_inv [OF assms(1) z(1) run_step.hyps(2)] z(2) t' b' by auto
qed

end
