(* ===== verification/Interleaving.thy ===== *)
theory Interleaving
  imports Authenticity
begin

text \<open>
  Delivery, acknowledgement and sweeping at the granularity of the code: goroutines that take
  \<^verbatim>\<open>sendMessages\<close>, \<^verbatim>\<open>sweepExpired\<close>
  (\<^verbatim>\<open>src/engine.go\<close>), \<^verbatim>\<open>handleAck\<close>
  (\<^verbatim>\<open>src/client.go\<close>) and the deletion of all queues in
  \<^verbatim>\<open>handleDelete\<close> (\<^verbatim>\<open>src/server.go\<close>) apart into the accesses
  that are atomic there. Each instruction is one critical section, one storage call or one write:
  \<^verbatim>\<open>sendLock\<close>, the snapshot of the clients under \<^verbatim>\<open>g.mu\<close>, the
  read of the queue, \<^verbatim>\<open>markInflight\<close>, the write, and after a failed one
  \<^verbatim>\<open>clearInflight\<close> and \<^verbatim>\<open>close\<close>; the deletion of one
  message. Between two instructions of
  a goroutine anything else can happen. The loops are the instructions that unfold themselves.
\<close>

subsection \<open>Instructions\<close>

datatype instr =
    Queue Message
  | Remember Message
  | Announce string
  | Lock string
  | Snapshot string
  | Fetch string "cid list"
  | Each string "cid list" "Message list"
  | Mark string "cid list" string Message
  | Write string cid string Message
  | Observe string Message
  | Clear string cid uuid
  | Shut string cid
  | Unlock string
  | Match string
  | Tick
  | Gather "string list" "string list"
  | Sweep
  | SweepKey string
  | Expiry string "Message list" nat
  | Drop string uuid
  | Trim
  | Count
  | Purge
  | Wipe string

text \<open>What the outside decides in one instruction: the clock, the outcome of a write, the order of a range.\<close>

record micro =
  mi_now :: time
  mi_ok :: bool
  mi_ord :: range_order

definition flush_code :: "string \<Rightarrow> instr list" where
  "flush_code k = [Lock k, Snapshot k, Unlock k]"

fun code :: "task \<Rightarrow> instr list" where
  "code (FlushTask k) = flush_code k"
| "code (PostTask m ks) =
     concat (map (\<lambda>k. let mk = m\<lparr>Key := k\<rparr> in [Queue mk, Remember mk, Announce k] @ flush_code k) ks)"
| "code (ConnectTask ks) = concat (map (\<lambda>k. if hasWildcard k then [Match k] else flush_code k) ks)"

text \<open>What \<^verbatim>\<open>handleAck\<close> has still to do when it has taken the entry out of the
  in-flight table.\<close>

definition ack_code :: "string option \<Rightarrow> uuid \<Rightarrow> instr list" where
  "ack_code k i = (case k of None \<Rightarrow> [] | Some key \<Rightarrow> [Drop key i]) @ [Count]"

text \<open>The effect of an instruction, and the instructions to run before the goroutine goes on.\<close>

fun exec :: "'s Storage \<Rightarrow> externs \<Rightarrow> micro \<Rightarrow> instr \<Rightarrow> ('s, 'a) goctopus \<Rightarrow>
    instr list \<times> ('s, 'a) goctopus" where
  "exec S X M (Queue m) g = ([], queueMessage S m g)"
| "exec S X M (Remember m) g = ([], g\<lparr>history := history_add (mi_now M) (Key m) m (history g)\<rparr>)"
| "exec S X M (Announce k) g = ([], notify S k g)"
| "exec S X M (Lock k) g = ([], g)"
| "exec S X M (Snapshot k) g =
     (let cs = clientsForKey (mi_ord M) k g in (if cs = [] then [] else [Fetch k cs], g))"
| "exec S X M (Fetch k cs) g =
     (let (r, g1) = getMsgQueue S k g in (case r of Inl e \<Rightarrow> [] | Inr q \<Rightarrow> [Each k cs q], g1))"
| "exec S X M (Each k cs []) g = ([], g)"
| "exec S X M (Each k cs (m # q)) g =
     ((if isExpired (mi_now M) m then []
       else case marshal X m False of None \<Rightarrow> [] | Some data \<Rightarrow> [Mark k cs data m]) @ [Each k cs q], g)"
| "exec S X M (Mark k [] data m) g = ([], g)"
| "exec S X M (Mark k (c # cs) data m) g =
     (let (go, cl) = markInflight (msg_id m) k (heap g c) in
      if \<not> go then ([Mark k cs data m], g) else ([Write k c data m, Mark k cs data m], set_client c cl g))"
| "exec S X M (Write k c data m) g =
     (let (ok, cl) = writeMessage (mi_now M) (mi_ok M) data (heap g c) in
      (if ok then [Observe k m] else [Clear k c (msg_id m), Shut k c], set_client c cl g))"
| "exec S X M (Observe k m) g =
     ([], g\<lparr>delivery := delivery g @ [Duration_Seconds (time_Sub (mi_now M) (date m))]\<rparr>)"
| "exec S X M (Clear k c i) g = ([], set_client c (clearInflight i (heap g c)) g)"
| "exec S X M (Shut k c) g = ([], set_client c (close_client (heap g c)) g)"
| "exec S X M (Unlock k) g = ([], g)"
| "exec S X M (Match p) g =
     (let (ks, g1) = storageKeysMatching S p g in (concat (map flush_code ks), g1))"
| "exec S X M Tick g =
     (let ks = mi_ord M (gm_keys (Conns g))
      in ([Gather (filter hasWildcard ks) (filter (\<lambda>k. \<not> hasWildcard k) ks)], g))"
| "exec S X M (Gather (p # ps) ks) g =
     (let (mk, g1) = storageKeysMatching S p g in ([Gather ps (ks @ mk)], g1))"
| "exec S X M (Gather [] ks) g = (concat (map flush_code (mi_ord M (add_new [] ks))), g)"
| "exec S X M Sweep g =
     (let (r, g1) = get_keys S g in (case r of Inl e \<Rightarrow> [] | Inr ks \<Rightarrow> map SweepKey ks @ [Trim], g1))"
| "exec S X M (SweepKey k) g =
     (let (r, g1) = getMsgQueue S k g in (case r of Inl e \<Rightarrow> [] | Inr q \<Rightarrow> [Expiry k q 0], g1))"
| "exec S X M (Expiry k (m # q) n) g =
     (if isExpired (mi_now M) m then [Drop k (msg_id m), Expiry k q (n + 1)] else [Expiry k q n], g)"
| "exec S X M (Expiry k [] n) g = ([], if n = 0 then g else g\<lparr>expired := expired g + n\<rparr>)"
| "exec S X M (Drop k i) g = ([], snd (deleteMsgById S k i g))"
| "exec S X M Trim g = ([], g\<lparr>history := history_purge (mi_now M) (history g)\<rparr>)"
| "exec S X M Count g = ([], g\<lparr>delivered := delivered g + 1\<rparr>)"
| "exec S X M Purge g =
     (let (r, g1) = get_keys S g in (case r of Inl e \<Rightarrow> [] | Inr ks \<Rightarrow> map Wipe ks, g1))"
| "exec S X M (Wipe k) g = ([], deleteMsgQueue S k g)"

subsection \<open>A goroutine alone\<close>

text \<open>A goroutine that nothing interrupts.\<close>

inductive alone :: "'s Storage \<Rightarrow> externs \<Rightarrow> instr list \<Rightarrow> ('s, 'a) goctopus \<Rightarrow> instr list \<Rightarrow>
    ('s, 'a) goctopus \<Rightarrow> bool" for S X where
  here: "alone S X cs g cs g"
| on: "exec S X M i g = (cs', g1) \<Longrightarrow> alone S X (cs' @ cs) g1 cs2 g2 \<Longrightarrow> alone S X (i # cs) g cs2 g2"

lemma alone_trans: "alone S X cs g cs1 g1 \<Longrightarrow> alone S X cs1 g1 cs2 g2 \<Longrightarrow> alone S X cs g cs2 g2"
  by (induction rule: alone.induct) (auto intro: alone.on)

lemma alone_one: "exec S X M i g = ([], g1) \<Longrightarrow> alone S X (i # cs) g cs g1"
  by (rule alone.on [where cs' = "[]"]) (auto intro: alone.here)

lemma alone_mark: "alone S X (Mark k cl data m # cs) g cs (fold (send_one E i m data k) cl g)"
proof (induction cl arbitrary: g)
  case Nil
  show ?case by (rule alone_one [of _ _ undefined]) simp
next
  case (Cons c cl)
  obtain go c1 where m: "markInflight (msg_id m) k (heap g c) = (go, c1)" by fastforce
  show ?case
  proof (cases go)
    case False
    have "exec S X M (Mark k (c # cl) data m) g = ([Mark k cl data m], g)" for M by (simp add: m False)
    then show ?thesis using alone.on [of S X undefined "Mark k (c # cl) data m" g "[Mark k cl data m]" g cs] Cons [of g]
      by (simp add: send_one_def m False)
  next
    case True
    obtain ok c2 where w: "writeMessage (se_wnow E i c) (se_ok E i c) data c1 = (ok, c2)" by fastforce
    let ?M = "\<lparr>mi_now = se_wnow E i c, mi_ok = se_ok E i c, mi_ord = id\<rparr>"
    let ?N = "\<lparr>mi_now = se_since E i c, mi_ok = True, mi_ord = id\<rparr>"
    have s: "set_client c b (set_client c a g) = set_client c b g" for a b by (simp add: set_client_def)
    have h: "heap (set_client c a g) c = a" for a by (simp add: set_client_def)
    have "alone S X (Write k c data m # Mark k cl data m # cs) (set_client c c1 g) (Mark k cl data m # cs) (send_one E i m data k c g)"
    proof (cases ok)
      case True
      have 1: "exec S X ?M (Write k c data m) (set_client c c1 g) = ([Observe k m], set_client c c2 g)" by (simp add: h w True s)
      have 2: "exec S X ?N (Observe k m) (set_client c c2 g) = ([], send_one E i m data k c g)"
        by (simp add: send_one_def m w True \<open>go\<close>) (simp add: set_client_def)
      show ?thesis by (rule alone.on [OF 1]) (simp add: alone_one [OF 2])
    next
      case False
      have 1: "exec S X ?M (Write k c data m) (set_client c c1 g) = ([Clear k c (msg_id m), Shut k c], set_client c c2 g)"
        by (simp add: h w False s)
      have 2: "exec S X ?M (Clear k c (msg_id m)) (set_client c c2 g) = ([], set_client c (clearInflight (msg_id m) c2) g)"
        by (simp add: h s)
      have 3: "exec S X ?M (Shut k c) (set_client c (clearInflight (msg_id m) c2) g) = ([], send_one E i m data k c g)"
        by (simp add: h s send_one_def m w False \<open>go\<close>)
      show ?thesis by (rule alone.on [OF 1], simp, rule alone_trans [OF alone_one [OF 2] alone_one [OF 3]])
    qed
    from alone_trans [OF this Cons]
    have a: "alone S X (Write k c data m # Mark k cl data m # cs) (set_client c c1 g) cs (fold (send_one E i m data k) (c # cl) g)"
      by simp
    have "exec S X ?M (Mark k (c # cl) data m) g = ([Write k c data m, Mark k cl data m], set_client c c1 g)"
      by (simp add: m True)
    from alone.on [OF this] a show ?thesis by simp
  qed
qed

lemma alone_each: "alone S X (Each k cl ms # cs) g cs (send_loop X E i k cl ms g)"
proof (induction ms arbitrary: i g)
  case Nil
  show ?case by (rule alone_one [of _ _ undefined]) simp
next
  case (Cons m ms)
  let ?M = "\<lparr>mi_now = se_now E i, mi_ok = True, mi_ord = id\<rparr>"
  show ?case
  proof (cases "isExpired (se_now E i) m \<or> marshal X m False = None")
    case True
    then have "exec S X ?M (Each k cl (m # ms)) g = ([Each k cl ms], g)" by auto
    from alone.on [OF this, of cs] show ?thesis using Cons [of g "i + 1"] True by auto
  next
    case False
    then obtain data where d: "marshal X m False = Some data" by auto
    then have "exec S X ?M (Each k cl (m # ms)) g = ([Mark k cl data m, Each k cl ms], g)" using False by simp
    from alone.on [OF this, of cs] show ?thesis using alone_trans [OF alone_mark Cons] False d by simp
  qed
qed

text \<open>\<^verbatim>\<open>sendMessages\<close> as one step is the goroutine that nothing interrupts.\<close>

lemma alone_flush: "alone S X (flush_code k @ cs) g cs (sendMessages S X E k g)"
proof -
  let ?M = "\<lparr>mi_now = 0, mi_ok = True, mi_ord = se_ord E\<rparr>"
  let ?cl = "clientsForKey (se_ord E) k g"
  obtain r g1 where q: "getMsgQueue S k g = (r, g1)" by fastforce
  have "alone S X (Snapshot k # Unlock k # cs) g (Unlock k # cs) (sendMessages S X E k g)"
  proof (cases "?cl = []")
    case True
    then show ?thesis by (intro alone_one [of _ _ ?M]) (simp add: sendMessages_def)
  next
    case False
    have 1: "exec S X ?M (Snapshot k) g = ([Fetch k ?cl], g)" using False by simp
    have "alone S X (Fetch k ?cl # Unlock k # cs) g (Unlock k # cs) (sendMessages S X E k g)"
    proof (cases r)
      case (Inl e)
      then show ?thesis using False q by (intro alone_one [of _ _ ?M]) (simp add: sendMessages_def)
    next
      case (Inr ms)
      have 2: "exec S X ?M (Fetch k ?cl) g = ([Each k ?cl ms], g1)" by (simp add: q Inr)
      have "sendMessages S X E k g = send_loop X E 0 k ?cl ms g1" using False q Inr by (simp add: sendMessages_def)
      then show ?thesis using alone.on [OF 2] alone_each [of S X k ?cl ms "Unlock k # cs" g1 E 0] by simp
    qed
    then show ?thesis using alone.on [OF 1] by simp
  qed
  note body = this
  have l: "exec S X ?M (Lock k) g = ([], g)" and u: "exec S X ?M (Unlock k) g' = ([], g')" for g' by simp_all
  show ?thesis using alone_trans [OF alone_one [OF l] alone_trans [OF body alone_one [OF u]]] by (simp add: flush_code_def)
qed

lemma alone_flushes: "alone S X (concat (map flush_code ks) @ cs) g cs (flush_keys S X E ks g)"
proof (induction ks arbitrary: E g)
  case Nil
  show ?case by (simp add: alone.here)
next
  case (Cons k ks)
  show ?case using alone_trans [OF alone_flush Cons.IH] by simp
qed

lemma alone_posts: "alone S X (code (PostTask m ks) @ cs) g cs (post_keys S X T n m ks g)"
proof (induction ks arbitrary: n g)
  case Nil
  show ?case by (simp add: alone.here)
next
  case (Cons k ks)
  let ?m = "m\<lparr>Key := k\<rparr>" and ?M = "\<lparr>mi_now = te_hist T n, mi_ok = True, mi_ord = id\<rparr>"
  have e: "exec S X ?M (Queue ?m) g1 = ([], queueMessage S ?m g1)"
    "exec S X ?M (Remember ?m) g1 = ([], g1\<lparr>history := history_add (te_hist T n) k ?m (history g1)\<rparr>)"
    "exec S X ?M (Announce k) g1 = ([], notify S k g1)" for g1 by simp_all
  have "alone S X (flush_code k @ code (PostTask m ks) @ cs) g1 (code (PostTask m ks) @ cs) (sendMessages S X (te_send T n 0) k g1)" for g1
    by (rule alone_flush)
  from alone_trans [OF alone_one [OF e(1)] alone_trans [OF alone_one [OF e(2)] alone_trans [OF alone_one [OF e(3)] this]]]
  have "alone S X (Queue ?m # Remember ?m # Announce k # flush_code k @ code (PostTask m ks) @ cs) g
      (code (PostTask m ks) @ cs) (post_key S X (te_hist T n) (te_send T n 0) m k g)"
    by (simp add: post_key_def Let_def)
  from alone_trans [OF this Cons.IH [of _ "n + 1"]] show ?case by (simp add: Let_def)
qed

lemma alone_connects: "alone S X (code (ConnectTask ks) @ cs) g cs (connect_keys S X T n ks g)"
proof (induction ks arbitrary: n g)
  case Nil
  show ?case by (simp add: alone.here)
next
  case (Cons k ks)
  obtain sks g1 where m: "storageKeysMatching S k g = (sks, g1)" by fastforce
  let ?cs = "code (ConnectTask ks) @ cs"
  have "alone S X ((if hasWildcard k then [Match k] else flush_code k) @ ?cs) g ?cs
     (if hasWildcard k then flush_keys S X (te_send T n) sks g1 else sendMessages S X (te_send T n 0) k g)"
  proof (cases "hasWildcard k")
    case True
    have "exec S X undefined (Match k) g = (concat (map flush_code sks), g1)" by (simp add: m)
    from alone.on [OF this alone_flushes] show ?thesis using True by simp
  next
    case False
    then show ?thesis using alone_flush [of S X k ?cs g] by simp
  qed
  from alone_trans [OF this Cons.IH [of _ "n + 1"]] show ?case by (simp add: m split: if_splits)
qed

lemma alone_task: "alone S X (code t @ cs) g cs (run_task S X T t g)"
  using alone_flush [of S X] alone_posts [of S X] alone_connects [of S X] by (cases t) simp_all

lemma alone_gather:
  "match_patterns S ps g = (sks, g1) \<Longrightarrow>
     alone S X (Gather ps ks # cs) g cs (flush_keys S X E (o2 (add_new [] (ks @ sks))) g1)"
proof (induction ps arbitrary: g ks sks)
  case Nil
  let ?M = "\<lparr>mi_now = 0, mi_ok = True, mi_ord = o2\<rparr>"
  have "exec S X ?M (Gather [] ks) g = (concat (map flush_code (o2 (add_new [] ks))), g)" by simp
  from alone.on [OF this alone_flushes] show ?case using Nil by simp
next
  case (Cons p ps)
  obtain mk g2 where m: "storageKeysMatching S p g = (mk, g2)" by fastforce
  obtain mk' where m2: "match_patterns S ps g2 = (mk', g1)" "sks = mk @ mk'" using Cons.prems m by (auto split: prod.splits)
  have "exec S X undefined (Gather (p # ps) ks) g = ([Gather ps (ks @ mk)], g2)" by (simp add: m)
  from alone.on [OF this] show ?case using Cons.IH [OF m2(1), of "ks @ mk"] m2(2) by simp
qed

lemma alone_tick:
  assumes "0 < ReconcileInterval (config g)"
  shows "alone S X (Tick # cs) g cs (reconcile S X o1 o2 E g)"
proof -
  let ?M = "\<lparr>mi_now = 0, mi_ok = True, mi_ord = o1\<rparr>" and ?ks = "o1 (gm_keys (Conns g))"
  obtain sks g1 where m: "match_patterns S (filter hasWildcard ?ks) g = (sks, g1)" by fastforce
  have "exec S X ?M Tick g = ([Gather (filter hasWildcard ?ks) (filter (\<lambda>k. \<not> hasWildcard k) ?ks)], g)" by (simp add: Let_def)
  from alone.on [OF this] show ?thesis
    using alone_gather [OF m] assms by (simp add: reconcile_def Let_def m)
qed

text \<open>A sweep.\<close>

lemma alone_expiry:
  "sweep_loop S now n k q r g = (r', g') \<Longrightarrow>
     alone S X (Expiry k q r # cs) g cs (if r' = 0 then g' else g'\<lparr>expired := expired g' + r'\<rparr>)"
proof (induction q arbitrary: n r g)
  case Nil
  then show ?case by (intro alone_one [of _ _ undefined]) simp
next
  case (Cons m q)
  let ?M = "\<lparr>mi_now = now n, mi_ok = True, mi_ord = id\<rparr>"
  show ?case
  proof (cases "isExpired (now n) m")
    case True
    have 1: "exec S X ?M (Expiry k (m # q) r) g = ([Drop k (msg_id m), Expiry k q (r + 1)], g)" using True by simp
    have 2: "exec S X ?M (Drop k (msg_id m)) g = ([], snd (deleteMsgById S k (msg_id m) g))" by simp
    have "sweep_loop S now (n + 1) k q (r + 1) (snd (deleteMsgById S k (msg_id m) g)) = (r', g')" using Cons.prems True by simp
    from alone_trans [OF alone_one [OF 2] Cons.IH [OF this]] show ?thesis using alone.on [OF 1] by simp
  next
    case False
    have 1: "exec S X ?M (Expiry k (m # q) r) g = ([Expiry k q r], g)" using False by simp
    have "sweep_loop S now (n + 1) k q r g = (r', g')" using Cons.prems False by simp
    from Cons.IH [OF this] show ?thesis using alone.on [OF 1] by simp
  qed
qed

lemma alone_sweepKey: "alone S X (SweepKey k # cs) g cs (sweepKey S now k g)"
proof -
  obtain r g1 where q: "getMsgQueue S k g = (r, g1)" by fastforce
  show ?thesis
  proof (cases r)
    case (Inl e)
    then show ?thesis using q by (intro alone_one [of _ _ undefined]) (simp add: sweepKey_def)
  next
    case (Inr ms)
    obtain n g2 where l: "sweep_loop S now 0 k ms 0 g1 = (n, g2)" by fastforce
    have "exec S X undefined (SweepKey k) g = ([Expiry k ms 0], g1)" by (simp add: q Inr)
    from alone.on [OF this] show ?thesis using alone_expiry [OF l] by (simp add: sweepKey_def q Inr l)
  qed
qed

lemma alone_sweep_keys: "alone S X (map SweepKey ks @ cs) g cs (sweep_keys S now n ks g)"
proof (induction ks arbitrary: n g)
  case Nil
  show ?case by (simp add: alone.here)
next
  case (Cons k ks)
  show ?case using alone_trans [OF alone_sweepKey Cons.IH] by simp
qed

lemma alone_sweep: "alone S X (Sweep # cs) g cs (sweepExpired S now pnow g)"
proof -
  let ?M = "\<lparr>mi_now = pnow, mi_ok = True, mi_ord = id\<rparr>"
  obtain r g1 where q: "get_keys S g = (r, g1)" by fastforce
  show ?thesis
  proof (cases r)
    case (Inl e)
    then show ?thesis using q by (intro alone_one [of _ _ undefined]) (simp add: sweepExpired_def)
  next
    case (Inr ks)
    have 1: "exec S X ?M Sweep g = (map SweepKey ks @ [Trim], g1)" by (simp add: q Inr)
    have 2: "exec S X ?M Trim g2 = ([], g2\<lparr>history := history_purge pnow (history g2)\<rparr>)" for g2 by simp
    have "alone S X (map SweepKey ks @ Trim # cs) g1 cs (sweepExpired S now pnow g)"
      using alone_trans [OF alone_sweep_keys alone_one [OF 2]] by (simp add: sweepExpired_def q Inr Let_def)
    then show ?thesis using alone.on [OF 1] by simp
  qed
qed

text \<open>An acknowledgement.\<close>

lemma alone_ack:
  assumes "ack_id X payload = Some i" and "takeInflight i (heap g c) = (k, cl)"
  shows "alone S X (ack_code k i @ cs) (set_client c cl g) cs (handleAck S X c payload g)"
proof -
  have d: "exec S X undefined (Drop key i) g1 = ([], snd (deleteMsgById S key i g1))"
    and n: "exec S X undefined Count g1 = ([], g1\<lparr>delivered := delivered g1 + 1\<rparr>)" for key g1 by simp_all
  show ?thesis
    using alone_one [OF n] alone_trans [OF alone_one [OF d] alone_one [OF n]] assms
    by (cases k) (simp_all add: ack_code_def handleAck_def Let_def)
qed

text \<open>A DELETE of everything: the state in which an authorized one starts to delete, and its goroutine.\<close>

definition purges :: "http_env \<Rightarrow> request \<Rightarrow> ('s, 'a) goctopus \<Rightarrow> ('s, 'a) goctopus option" where
  "purges H r g =
     (let (ok, g1) = allow (he_limit H) r g; (refused, g2) = authorizeBackend r g1 in
      if r_Path r = ''/'' \<and> r_Method r = ''DELETE'' \<and> Get (r_Query r) ''key'' = [] \<and> Get (r_Query r) ''id'' = [] \<and>
        ok \<and> refused = None
      then Some g2 else None)"

lemma alone_purge:
  assumes "purges H r g = Some g1" and "handleHTTP S X H r g = (rep, g')"
  shows "alone S X (Purge # cs) g1 cs g'"
proof -
  obtain a where a: "allow (he_limit H) r g = (True, a)" "authorizeBackend r a = (None, g1)"
    using assms(1) by (auto simp: purges_def split: prod.splits if_splits)
  obtain res g2 where q: "get_keys S g1 = (res, g2)" by fastforce
  have wipe: "alone S X (map Wipe ks @ cs) g0 cs (fold (deleteMsgQueue S) ks g0)" for ks g0
  proof (induction ks arbitrary: g0)
    case Nil
    show ?case by (simp add: alone.here)
  next
    case (Cons k ks)
    have "exec S X undefined (Wipe k) g0 = ([], deleteMsgQueue S k g0)" by simp
    from alone_trans [OF alone_one [OF this] Cons.IH] show ?case by simp
  qed
  have p: "r_Method r = ''DELETE''" "Get (r_Query r) ''key'' = []" "Get (r_Query r) ''id'' = []"
    using assms(1) by (auto simp: purges_def split: prod.splits if_splits)
  have "g' = (case res of Inl e \<Rightarrow> g2 | Inr ks \<Rightarrow> fold (deleteMsgQueue S) ks g2)"
    using assms(2) by (auto simp: handleHTTP_def a p handleDelete_def q split: sum.splits)
  moreover have "exec S X undefined Purge g1 = (case res of Inl e \<Rightarrow> [] | Inr ks \<Rightarrow> map Wipe ks, g2)" by (simp add: q)
  ultimately show ?thesis using alone.on [of S X undefined Purge g1 _ g2 cs] wipe [of _ g2]
    by (cases res) (simp_all add: alone.here)
qed

lemma purges_frame:
  assumes "purges H r g = Some g'"
  shows "(\<exists>l n. g' = g\<lparr>limiter := l, authFail := n\<rparr>) \<and> backend_ok (config g) r \<and>
    r_Path r = ''/'' \<and> r_Method r = ''DELETE'' \<and> Get (r_Query r) ''key'' = [] \<and> Get (r_Query r) ''id'' = []"
proof -
  obtain a where a: "allow (he_limit H) r g = (True, a)" "authorizeBackend r a = (None, g')"
    using assms by (auto simp: purges_def split: prod.splits if_splits)
  define l where "l = limiter a"
  have e: "a = g\<lparr>limiter := l\<rparr>" unfolding l_def using a(1) by (rule allow_frame)
  have "\<exists>n. g' = a\<lparr>authFail := n\<rparr>" "backend_ok (config a) r" using authorizeBackend_spec [OF a(2)] by auto
  moreover have "r_Path r = ''/'' \<and> r_Method r = ''DELETE'' \<and> Get (r_Query r) ''key'' = [] \<and> Get (r_Query r) ''id'' = []"
    using assms by (auto simp: purges_def split: prod.splits if_splits)
  ultimately show ?thesis unfolding e by auto
qed

subsection \<open>All goroutines together\<close>

text \<open>The system with the goroutines that are under way; \<open>held\<close> are the send locks that are taken.\<close>

record ('s, 'a) fine =
  base :: "('s, 'a) sys"
  threads :: "instr list list"
  held :: "nat set"

fun may_run :: "nat set \<Rightarrow> instr \<Rightarrow> bool" where
  "may_run h (Lock k) \<longleftrightarrow> sendLock k \<notin> h"
| "may_run h i \<longleftrightarrow> True"

fun locks_after :: "instr \<Rightarrow> nat set \<Rightarrow> nat set" where
  "locks_after (Lock k) h = insert (sendLock k) h"
| "locks_after (Unlock k) h = h - {sendLock k}"
| "locks_after i h = h"

text \<open>The steps of the system that are taken apart here.\<close>

definition apart :: "('s, 'a) deployment \<Rightarrow> ('s, 'a) goctopus \<Rightarrow> event \<Rightarrow> bool" where
  "apart D g ev \<longleftrightarrow>
     (case ev of EvHTTP H r \<Rightarrow> purges H r g \<noteq> None | EvWorker T \<Rightarrow> True | EvSpawned T n \<Rightarrow> True | EvReconcile o1 o2 E \<Rightarrow> True | EvSweep now pnow \<Rightarrow> True
      | EvFrame now ok inb c \<Rightarrow> (\<exists>i. acks (dX D) (dflate D) inb c g i) | _ \<Rightarrow> False)"

text \<open>The other steps happen as before; a worker, an overflow task, a tick of reconciliation and a sweep
  start a goroutine; so does a frame that acknowledges, once it has taken the entry out of the in-flight
  table, and an authorized DELETE of everything; and any goroutine may run its next instruction. (The code has one sweep, one reconciliation and
  one frame of a connection at a time; here there may be several, so that every execution of the code is
  one of these.)\<close>

datatype fine_event = FStep event | FWorker | FSpawned nat | FTick | FSweep | FAck inbound cid | FPurge http_env request | FRun nat micro

inductive fine_step :: "('s, 'a) deployment \<Rightarrow> ('s, 'a) fine \<Rightarrow> fine_event \<Rightarrow> ('s, 'a) fine \<Rightarrow> bool"
  for D :: "('s, 'a) deployment" where
  other: "step D (base f) ev y \<Longrightarrow> \<not> apart D (eng (base f)) ev \<Longrightarrow> fine_step D f (FStep ev) (f\<lparr>base := y\<rparr>)"
| work_start: "work (eng (base f)) = t # ts \<Longrightarrow>
     fine_step D f FWorker (f\<lparr>base := (base f)\<lparr>eng := (eng (base f))\<lparr>work := ts\<rparr>\<rparr>, threads := threads f @ [code t]\<rparr>)"
| spawned_start: "spawned (eng (base f)) = a @ t # b \<Longrightarrow>
     fine_step D f (FSpawned (length a))
       (f\<lparr>base := (base f)\<lparr>eng := (eng (base f))\<lparr>spawned := a @ b\<rparr>\<rparr>, threads := threads f @ [code t]\<rparr>)"
| tick: "ReconcileLoop \<in> loops (base f) \<Longrightarrow> 0 < ReconcileInterval (config (eng (base f))) \<Longrightarrow>
     fine_step D f FTick (f\<lparr>threads := threads f @ [[Tick]]\<rparr>)"
| sweep_start: "SweepLoop \<in> loops (base f) \<Longrightarrow> fine_step D f FSweep (f\<lparr>threads := threads f @ [[Sweep]]\<rparr>)"
| ack_start: "c \<in> readers (base f) \<Longrightarrow> acks (dX D) (dflate D) inb c (eng (base f)) i \<Longrightarrow>
     takeInflight i (heap (eng (base f)) c) = (k, cl) \<Longrightarrow>
     fine_step D f (FAck inb c)
       (f\<lparr>base := (base f)\<lparr>eng := set_client c cl (eng (base f))\<rparr>, threads := threads f @ [ack_code k i]\<rparr>)"
| purge_start: "purges H r (eng (base f)) = Some g \<Longrightarrow>
     fine_step D f (FPurge H r) (f\<lparr>base := (base f)\<lparr>eng := g\<rparr>, threads := threads f @ [[Purge]]\<rparr>)"
| instr: "threads f = a @ (i # cs) # b \<Longrightarrow> may_run (held f) i \<Longrightarrow>
     exec (dS D) (dX D) M i (eng (base f)) = (cs', g) \<Longrightarrow>
     fine_step D f (FRun (length a) M)
       (f\<lparr>base := (base f)\<lparr>eng := g\<rparr>, threads := a @ (cs' @ cs) # b, held := locks_after i (held f)\<rparr>)"

inductive fine_run :: "('s, 'a) deployment \<Rightarrow> ('s, 'a) fine \<Rightarrow> fine_event list \<Rightarrow> ('s, 'a) fine \<Rightarrow> bool"
  for D :: "('s, 'a) deployment" and f :: "('s, 'a) fine" where
  fine_init: "fine_run D f [] f"
| fine_next: "fine_run D f evs z \<Longrightarrow> fine_step D z ev z' \<Longrightarrow> fine_run D f (evs @ [ev]) z'"

subsection \<open>Locks\<close>

text \<open>The lock a goroutine holds, from what it has still to do; the key an instruction delivers, which all of
  \<^verbatim>\<open>sendMessages\<close> from the snapshot of the clients to the last write and the
  close after a failed one does; and where the instructions may stand.\<close>

fun holds :: "instr list \<Rightarrow> nat list" where
  "holds [] = []"
| "holds (Lock k # cs) = []"
| "holds (Unlock k # cs) = [sendLock k]"
| "holds (i # cs) = holds cs"

fun delivering :: "instr \<Rightarrow> string option" where
  "delivering (Snapshot k) = Some k"
| "delivering (Fetch k cl) = Some k"
| "delivering (Each k cl q) = Some k"
| "delivering (Mark k cl data m) = Some k"
| "delivering (Write k c data m) = Some k"
| "delivering (Observe k m) = Some k"
| "delivering (Clear k c i) = Some k"
| "delivering (Shut k c) = Some k"
| "delivering i = None"

fun guarded :: "instr list \<Rightarrow> bool" where
  "guarded [] \<longleftrightarrow> True"
| "guarded (Lock k # cs) \<longleftrightarrow> holds cs = [sendLock k] \<and> guarded cs"
| "guarded (Unlock k # cs) \<longleftrightarrow> holds cs = [] \<and> guarded cs"
| "guarded (Match p # cs) \<longleftrightarrow> holds cs = [] \<and> guarded cs"
| "guarded (Tick # cs) \<longleftrightarrow> holds cs = [] \<and> guarded cs"
| "guarded (Gather ps ks # cs) \<longleftrightarrow> holds cs = [] \<and> guarded cs"
| "guarded (i # cs) \<longleftrightarrow> (\<forall>k. delivering i = Some k \<longrightarrow> holds cs = [sendLock k]) \<and> guarded cs"

lemma holds_flushes: "holds cs = [] \<Longrightarrow> holds (concat (map flush_code ks) @ cs) = []"
  by (cases ks) (simp_all add: flush_code_def)

lemma guarded_flushes: "guarded cs \<Longrightarrow> holds cs = [] \<Longrightarrow> guarded (concat (map flush_code ks) @ cs)"
proof (induction ks)
  case (Cons k ks)
  then have "holds (concat (map flush_code ks) @ cs) = []" "guarded (concat (map flush_code ks) @ cs)"
    using holds_flushes by simp_all
  then show ?case by (simp add: flush_code_def [of k])
qed simp

lemma code_guarded: "guarded (code t) \<and> holds (code t) = []"
proof (cases t)
  case (FlushTask k)
  then show ?thesis by (simp add: flush_code_def)
next
  case (PostTask m ks)
  have "guarded (code (PostTask m ks)) \<and> holds (code (PostTask m ks)) = []"
    by (induction ks) (simp_all add: flush_code_def Let_def)
  then show ?thesis by (simp add: PostTask)
next
  case (ConnectTask ks)
  have "guarded (code (ConnectTask ks)) \<and> holds (code (ConnectTask ks)) = []"
    by (induction ks) (simp_all add: flush_code_def)
  then show ?thesis by (simp add: ConnectTask)
qed

lemma ack_code_guarded: "guarded (ack_code k i) \<and> holds (ack_code k i) = []"
  by (cases k) (simp_all add: ack_code_def)

lemma sweep_guarded: "guarded (map SweepKey ks @ cs) = guarded cs" "holds (map SweepKey ks @ cs) = holds cs"
  "guarded (map Wipe ks @ cs) = guarded cs" "holds (map Wipe ks @ cs) = holds cs"
  by (induction ks) simp_all

lemma exec_guarded:
  assumes "exec S X M i g = (cs', g')" and "guarded (i # cs)"
  shows "guarded (cs' @ cs) \<and> holds (cs' @ cs) =
    (case i of Lock k \<Rightarrow> [sendLock k] | Unlock k \<Rightarrow> [] | _ \<Rightarrow> holds (i # cs))"
proof (cases i)
  case (Each k cl q)
  then show ?thesis using assms by (cases q) (auto split: if_splits option.splits)
next
  case (Mark k cl data m)
  then show ?thesis using assms by (cases cl) (auto simp: case_prod_beta Let_def split: if_splits)
next
  case (Gather ps ks)
  then show ?thesis using assms holds_flushes guarded_flushes
    by (cases ps) (auto simp: case_prod_beta Let_def simp del: add_new.simps)
next
  case (Match p)
  then show ?thesis using assms holds_flushes guarded_flushes by (auto simp: case_prod_beta Let_def)
next
  case (Expiry k q n)
  then show ?thesis using assms by (cases q) (auto split: if_splits)
next
  case Sweep
  then show ?thesis using assms by (auto simp: case_prod_beta Let_def sweep_guarded split: sum.splits)
next
  case Purge
  then show ?thesis using assms by (auto simp: case_prod_beta Let_def sweep_guarded split: sum.splits)
qed (use assms in \<open>auto simp: case_prod_beta Let_def split: if_splits sum.splits\<close>)

definition locks_ok :: "('s, 'a) fine \<Rightarrow> bool" where
  "locks_ok f \<longleftrightarrow> (\<forall>cs \<in> set (threads f). guarded cs) \<and> distinct (concat (map holds (threads f))) \<and>
     set (concat (map holds (threads f))) = held f"

lemma fine_step_locks:
  assumes "fine_step D f ev f'" and "locks_ok f"
  shows "locks_ok f'"
  using assms(1)
proof cases
  case (instr a i cs b M cs' g)
  have g: "guarded (i # cs)" using assms(2) instr(3) by (simp add: locks_ok_def)
  note e = exec_guarded [OF instr(5) g]
  show ?thesis
  proof (cases "\<exists>k. i = Lock k \<or> i = Unlock k")
    case False
    have "holds (cs' @ cs) = holds (i # cs)" using e False by (cases i) simp_all
    moreover have "locks_after i (held f) = held f" using False by (cases i) simp_all
    ultimately show ?thesis using assms(2) e instr(3) by (simp add: locks_ok_def instr(2))
  next
    case True
    define ha hb where "ha = concat (map holds a)" and "hb = concat (map holds b)"
    have l: "distinct (ha @ holds (i # cs) @ hb)" "set (ha @ holds (i # cs) @ hb) = held f"
      using assms(2) by (simp_all add: locks_ok_def instr(3) ha_def hb_def)
    have gd: "\<forall>c \<in> set (a @ (cs' @ cs) # b). guarded c" using assms(2) e by (auto simp: locks_ok_def instr(3))
    have "distinct (ha @ holds (cs' @ cs) @ hb) \<and> set (ha @ holds (cs' @ cs) @ hb) = locks_after i (held f)"
      using True l e instr(4) by auto
    then show ?thesis using gd by (simp add: locks_ok_def instr(2) ha_def hb_def)
  qed
qed (use assms(2) code_guarded ack_code_guarded in \<open>auto simp: locks_ok_def\<close>)

lemma fine_run_locks: "fine_run D f evs z \<Longrightarrow> locks_ok f \<Longrightarrow> locks_ok z"
  by (induction rule: fine_run.induct) (blast dest: fine_step_locks)+

lemma fine_run1:
  assumes "fine_run D f evs z" and "threads z = [i # cs]" and "may_run (held z) i"
    and "exec (dS D) (dX D) M i (eng (base z)) = (cs', g)"
  shows "fine_run D f (evs @ [FRun 0 M])
    (z\<lparr>base := (base z)\<lparr>eng := g\<rparr>, threads := [cs' @ cs], held := locks_after i (held z)\<rparr>)"
  using fine_next [OF assms(1) instr [of z "[]" i cs "[]", OF _ assms(3,4)]] assms(2) by simp

text \<open>A goroutine that holds a lock never waits for one.\<close>

lemma holder_runs: "holds (i # cs) \<noteq> [] \<Longrightarrow> may_run h i"
  by (cases i) simp_all

lemma some_goroutine_runs:
  assumes "locks_ok f" and "cs \<in> set (threads f)" and "cs \<noteq> []"
  shows "\<exists>n M f'. fine_step D f (FRun n M) f'"
proof -
  have "\<exists>j js. j # js \<in> set (threads f) \<and> may_run (held f) j"
  proof (cases "\<exists>c \<in> set (threads f). holds c \<noteq> []")
    case True
    then obtain c where c: "c \<in> set (threads f)" "holds c \<noteq> []" by blast
    from c(2) obtain j js where j: "c = j # js" by (metis holds.simps(1) list.exhaust)
    show ?thesis using c holder_runs [of j js] unfolding j by blast
  next
    case False
    then have "held f = {}" using assms(1) by (auto simp: locks_ok_def)
    then have "may_run (held f) j" for j by (cases j) simp_all
    then show ?thesis using assms(2,3) by (metis list.exhaust)
  qed
  then obtain j js where j: "j # js \<in> set (threads f)" "may_run (held f) j" by blast
  obtain a b where "threads f = a @ (j # js) # b" using j(1) by (meson split_list)
  from instr [OF this j(2) surjective_pairing] show ?thesis by blast
qed

lemma delivering_exclusive:
  assumes "locks_ok f" and "threads f = a @ (i # cs) # b @ (j # js) # d"
    and "delivering i = Some k" and "delivering j = Some l"
  shows "sendLock k \<noteq> sendLock l"
proof -
  have g: "guarded (i # cs)" "guarded (j # js)" using assms(1,2) by (simp_all add: locks_ok_def)
  have "sendLock k \<in> set (holds (i # cs))" "sendLock l \<in> set (holds (j # js))"
    using g assms(3,4) by (cases i; cases j; simp)+
  moreover have "set (holds (i # cs)) \<inter> set (holds (j # js)) = {}"
    using assms(1,2) by (auto simp: locks_ok_def)
  ultimately show ?thesis by auto
qed

text \<open>C21: The one-step operations of the system are executions of the code, each in every state and for every
  outcome of its calls. The goroutine of a task or of a sweep, run without interruption, does exactly what
  \<^verbatim>\<open>runTask\<close> and \<^verbatim>\<open>sweepExpired\<close> do as one step,
  lock by lock, call by call and write by write; so does a tick of \<^verbatim>\<open>reconcileLoop\<close>
  when reconciliation is on (when it is off, the step does nothing), the goroutine of a frame when
  the frame acknowledges (otherwise \<^verbatim>\<open>handleAck\<close> does nothing), and the
  goroutine of an authorized DELETE of everything.\<close>

theorem task_refines:
  "alone S X (code t) g [] (run_task S X T t g) \<and>
   alone S X [Sweep] g [] (sweepExpired S now pnow g) \<and>
   (if 0 < ReconcileInterval (config g) then alone S X [Tick] g [] (reconcile S X o1 o2 E g)
    else reconcile S X o1 o2 E g = g) \<and>
   (case ack_id X payload of
      None \<Rightarrow> handleAck S X c payload g = g
    | Some i \<Rightarrow> (let (k, cl) = takeInflight i (heap g c) in
        alone S X (ack_code k i) (set_client c cl g) [] (handleAck S X c payload g))) \<and>
   (purges H r g = Some g1 \<longrightarrow> alone S X [Purge] g1 [] (snd (handleHTTP S X H r g)))"
proof (intro conjI impI)
  show "alone S X (code t) g [] (run_task S X T t g)" using alone_task [of S X t "[]"] by simp
  show "if 0 < ReconcileInterval (config g) then alone S X [Tick] g [] (reconcile S X o1 o2 E g)
      else reconcile S X o1 o2 E g = g"
    using alone_tick [of g S X "[]"] by (simp add: reconcile_def)
  show "case ack_id X payload of None \<Rightarrow> handleAck S X c payload g = g
    | Some i \<Rightarrow> (let (k, cl) = takeInflight i (heap g c) in
        alone S X (ack_code k i) (set_client c cl g) [] (handleAck S X c payload g))"
    using alone_ack [of X payload _ g c _ _ S "[]"]
    by (cases "ack_id X payload") (simp_all add: handleAck_def case_prod_beta Let_def)
  show "alone S X [Purge] g1 [] (snd (handleHTTP S X H r g))" if "purges H r g = Some g1"
    using alone_purge [OF that prod.collapse [symmetric]] .
qed (rule alone_sweep)

text \<open>C23: The locks work. However the goroutines interleave, two of them never are in the delivery of keys that
  share a send lock, from the snapshot of the clients to the last write, and the close after a failed one, and the gateway does not deadlock: as long as a goroutine has something left to do,
  one of them can run.\<close>

theorem delivery_locks:
  assumes "fine_run D \<lparr>base = y, threads = [], held = {}\<rparr> evs z"
  shows "(threads z = a @ (i # cs) # b @ (j # js) # d \<longrightarrow> delivering i = Some k \<longrightarrow> delivering j = Some l \<longrightarrow>
           sendLock k \<noteq> sendLock l) \<and>
         (th \<in> set (threads z) \<longrightarrow> th \<noteq> [] \<longrightarrow> (\<exists>n M z'. fine_step D z (FRun n M) z'))"
proof -
  have "locks_ok z" using fine_run_locks [OF assms] by (simp add: locks_ok_def)
  then show ?thesis using delivering_exclusive some_goroutine_runs by metis
qed

end
