(* ===== verification/Progress.thy ===== *)
theory Progress
  imports Interleaving
begin

text \<open>
  No message gets stuck, at the granularity of \<open>Interleaving\<close>: the invariant that a message that waits
  for an open connection is attended to by a scheduled task, by an instruction that a goroutine has
  ahead, or by the in-flight table, and what keeps it: a publish flushes after it has queued, a new
  connection schedules the flush of its keys, a failed write is followed by a close.
\<close>

subsection \<open>Who waits for what\<close>

text \<open>A message that can be represented and has not expired at the latest clock reading \<open>now\<close>.\<close>

definition live :: "externs \<Rightarrow> time \<Rightarrow> Message \<Rightarrow> bool" where
  "live X now m \<longleftrightarrow> \<not> isExpired now m \<and> marshal X m False \<noteq> None"

text \<open>The keys a task flushes.\<close>

fun flushes :: "task \<Rightarrow> string \<Rightarrow> bool" where
  "flushes (PostTask m ks) k \<longleftrightarrow> k \<in> set ks"
| "flushes (ConnectTask ks) k \<longleftrightarrow> (\<exists>p \<in> set ks. keyMatches p k)"
| "flushes (FlushTask k') k \<longleftrightarrow> k' = k"

definition listens :: "('s, 'a) goctopus \<Rightarrow> cid \<Rightarrow> string \<Rightarrow> bool" where
  "listens g c k \<longleftrightarrow> registered g c \<and> (\<exists>p \<in> set (ckeys (heap g c)). keyMatches p k)"

lemma listens_concerns: "listens g c k \<Longrightarrow> concerns g c k"
  by (auto simp: listens_def concerns_def)

lemma ServeHTTP_tasks_kept:
  assumes "ServeHTTP S A X render ver H r g = (rep, g')"
  shows "tasks g \<subseteq> tasks g'"
  using assms
proof (cases rule: ServeHTTP_cases)
  case api
  have same: "tasks (g\<lparr>limiter := l, authFail := n\<rparr>) = tasks g" for l n by (simp add: tasks_def)
  from api(2) show ?thesis
  proof (cases rule: handleHTTP_cases)
    case (post l n)
    from handlePost_tasks [OF post(3)] show ?thesis using same [of n l] by auto
  next
    case (get l n)
    then show ?thesis using same quiet_tasks [OF handleGet_quiet [OF get(3)]] by simp
  next
    case (delete l n)
    then show ?thesis using same quiet_tasks [OF handleDelete_quiet [OF delete(3)]] by simp
  qed (simp add: same)
next
  case ws
  have w: "quiet g0 (fold (register_key c) ks g0)" for c ks and g0 :: "('a, 'b) goctopus"
    by (induction ks arbitrary: g0) (auto simp: register_key_def quiet_def)
  have a: "tasks g0 \<subseteq> tasks (accept_conn keys cmpr g0)" for keys cmpr and g0 :: "('a, 'b) goctopus"
    unfolding accept_conn_def Let_def tasks_schedule quiet_tasks [OF w]
    by (auto simp: tasks_def set_client_def)
  from ws(2) show ?thesis
  proof (cases rule: handleWs_cases)
    case (accepted l au keys cmpr)
    then show ?thesis using a [of "g\<lparr>limiter := l, authz := au\<rparr>" keys cmpr] by (simp add: tasks_def)
  qed (auto simp: tasks_def)
next
  case probe
  then show ?thesis using quiet_tasks [OF probe_quiet [OF probe(2)]] by simp
qed

text \<open>All steps but the execution of a task only take messages out and only add tasks.\<close>

definition runs_task :: "event \<Rightarrow> bool" where
  "runs_task ev \<longleftrightarrow> (\<exists>T. ev = EvWorker T) \<or> (\<exists>T n. ev = EvSpawned T n)"

lemma step_shrinks:
  assumes c: "storage_contract (dS D) sinv box keep" and i: "sinv (store (eng y))" and "step D y ev y'"
    and "\<not> runs_task ev" and x: "\<forall>s s'. dext D s s' \<longrightarrow> shrinks (box s) (box s')"
  shows "shrinks (box (store (eng y))) (box (store (eng y'))) \<and> tasks (eng y) \<subseteq> tasks (eng y')"
  using assms(3)
proof cases
  case (http H r rep g')
  then show ?thesis using storage_contract.ServeHTTP_shrinks [OF c i http(3)] ServeHTTP_tasks_kept [OF http(3)] by simp
next
  case (frame c' now ok inb goes_on g')
  then show ?thesis using storage_contract.readLoop_step_shrinks [OF c i frame(4)] quiet_tasks [OF readLoop_step_quiet [OF frame(4)]]
    by simp
next
  case (ping c' e goes_on g')
  then show ?thesis using pingLoop_store [OF ping(6)] quiet_tasks [OF pingLoop_quiet [OF ping(6)]] by simp
next
  case (reconcile o1 o2 E)
  then show ?thesis using storage_contract.reconcile_box [OF c i, of "dX D" o1 o2 E]
      quiet_tasks [OF reconcile_quiet, of "dS D" "dX D" o1 o2 E "eng y"] by simp
next
  case (sweep now pnow)
  then show ?thesis using storage_contract.sweepExpired_shrinks [OF c i] quiet_tasks [OF sweepExpired_quiet, of "dS D" now pnow "eng y"]
    by simp
next
  case (notified e goes_on g')
  have "tasks (eng y) \<subseteq> tasks g'"
    using notified(6) by (auto simp: Subscribe_step_def tasks_schedule split: sub_event.splits)
  then show ?thesis using notified_store [OF notified(6)] by (simp add: notified)
next
  case stop
  then show ?thesis using quiet_tasks [OF Stop_quiet, of "eng y"] by simp
next
  case (backend s)
  then show ?thesis using x by (simp add: tasks_def)
qed (use assms(4) in \<open>simp_all add: runs_task_def\<close>)

text \<open>Only an upgrade makes a new connection, and it schedules the flush of all its keys.\<close>

lemma new_connection_task:
  assumes "step D y ev y'" and "registered (eng y') c" and "sys_ok y" and "sys_ok y'" and "\<not> registered (eng y) c"
  shows "\<exists>t \<in> tasks (eng y'). \<forall>k. listens (eng y') c k \<longrightarrow> flushes t k"
proof -
  have c: "c \<in> readers y'" "c \<notin> readers y" using assms(2-5) by (simp_all add: sys_ok_def)
  from assms(1) show ?thesis
  proof cases
    case (http H r rep g')
    then have new: "next_cid (eng y) \<le> c" "c < next_cid g'" using c by auto
    from http(3) show ?thesis
    proof (cases rule: ServeHTTP_cases)
      case api
      then have "same_registry (eng y) g'" by (intro handleHTTP_registry)
      then show ?thesis using new by (simp add: same_registry_upto_def)
    next
      case probe
      then have "next_cid g' = next_cid (eng y)" by (subst probe(2) [unfolded probe_only_def, THEN conjunct1]) simp
      then show ?thesis using new by simp
    next
      case ws
      from ws(2) show ?thesis
      proof (cases rule: handleWs_cases)
        case (accepted l au keys cmpr)
        let ?g0 = "(eng y)\<lparr>limiter := l, authz := au\<rparr>"
        have acc: "next_cid g' = next_cid (eng y) + 1" "ckeys (heap g' (next_cid (eng y))) = keys"
          by (simp_all add: accepted(4) accept_conn_def schedule_def set_client_def newClient_def Let_def)
        then have n: "c = next_cid (eng y)" using new by simp
        have "ConnectTask keys \<in> tasks g'" by (simp add: accepted(4) accept_conn_def tasks_schedule Let_def)
        then show ?thesis using http n acc by (intro bexI [of _ "ConnectTask keys"]) (auto simp: listens_def)
      qed (use new in simp_all)
    qed
  next
    case (frame x now ok inb goes_on g')
    then show ?thesis using c by (auto split: if_splits)
  qed (use c in simp_all)
qed

subsection \<open>What a goroutine is about to do\<close>

text \<open>The instructions that will take care of a message \<open>m\<close> under \<open>k\<close> for the connection \<open>c\<close>, and the
  order that the code keeps: a publish flushes after it queued, a failed write is followed by a close.\<close>

fun aims :: "instr \<Rightarrow> cid \<Rightarrow> string \<Rightarrow> Message \<Rightarrow> bool" where
  "aims (Snapshot k') c k m \<longleftrightarrow> k' = k"
| "aims (Fetch k' cl) c k m \<longleftrightarrow> k' = k \<and> c \<in> set cl"
| "aims (Each k' cl q) c k m \<longleftrightarrow> k' = k \<and> c \<in> set cl \<and> m \<in> set q"
| "aims (Mark k' cl data m') c k m \<longleftrightarrow> c \<in> set cl \<and> msg_id m' = msg_id m"
| "aims (Match p) c k m \<longleftrightarrow> keyMatches p k"
| "aims (Gather ps ks) c k m \<longleftrightarrow> k \<in> set ks \<or> (\<exists>p \<in> set ps. keyMatches p k)"
| "aims (Shut k' c') c k m \<longleftrightarrow> c' = c"
| "aims i c k m \<longleftrightarrow> False"

fun tidy :: "instr list \<Rightarrow> bool" where
  "tidy [] \<longleftrightarrow> True"
| "tidy (Queue m # cs) \<longleftrightarrow> Snapshot (Key m) \<in> set cs \<and> tidy cs"
| "tidy (Clear k c i # cs) \<longleftrightarrow> Shut k c \<in> set cs \<and> tidy cs"
| "tidy (i # cs) \<longleftrightarrow> tidy cs"

lemma tidy_flushes: "tidy cs \<Longrightarrow> tidy (concat (map flush_code ks) @ cs)"
  by (induction ks) (simp_all add: flush_code_def)

lemma code_tidy: "tidy (code t)"
proof (cases t)
  case (PostTask m ks)
  have "tidy (code (PostTask m ks))" by (induction ks) (simp_all add: flush_code_def Let_def)
  then show ?thesis by (simp add: PostTask)
next
  case (ConnectTask ks)
  have "tidy (code (ConnectTask ks))" by (induction ks) (simp_all add: flush_code_def)
  then show ?thesis by (simp add: ConnectTask)
qed (simp add: flush_code_def)

lemma ack_code_tidy: "tidy (ack_code k i)"
  by (cases k) (simp_all add: ack_code_def)

lemma sweep_tidy: "tidy (map SweepKey ks @ cs) = tidy cs" "tidy (map Wipe ks @ cs) = tidy cs"
  by (induction ks) simp_all

lemma code_aims: "flushes t k \<Longrightarrow> \<exists>i \<in> set (code t). aims i c k m"
proof (cases t)
  case (ConnectTask ks)
  assume "flushes t k"
  then obtain p where p: "p \<in> set ks" "keyMatches p k" by (auto simp: ConnectTask)
  show ?thesis
  proof (cases "hasWildcard p")
    case True
    then have "Match p \<in> set (code t)" using p(1) by (auto simp: ConnectTask)
    then show ?thesis using p(2) by force
  next
    case False
    then have "p = k" using p(2) by (simp add: keyMatches_def)
    then have "Snapshot k \<in> set (code t)" using p(1) False by (auto simp: ConnectTask flush_code_def)
    then show ?thesis by force
  qed
next
  case (PostTask m' ks)
  assume "flushes t k"
  then have "Snapshot k \<in> set (code t)" by (auto simp: PostTask flush_code_def Let_def)
  then show ?thesis by force
qed (simp add: flush_code_def)

lemma exec_tidy:
  assumes "exec S X M i g = (cs', g')" and "tidy (i # cs)"
  shows "tidy (cs' @ cs)"
proof (cases i)
  case (Each k cl q)
  then show ?thesis using assms by (cases q) (auto split: if_splits option.splits)
next
  case (Mark k cl data m)
  then show ?thesis using assms by (cases cl) (auto simp: case_prod_beta Let_def split: if_splits)
next
  case (Gather ps ks)
  then show ?thesis using assms tidy_flushes by (cases ps) (auto simp: case_prod_beta Let_def simp del: add_new.simps)
next
  case (Match p)
  then show ?thesis using assms tidy_flushes by (auto simp: case_prod_beta Let_def)
next
  case (Expiry k q n)
  then show ?thesis using assms by (cases q) (auto split: if_splits)
next
  case Sweep
  then show ?thesis using assms by (auto simp: case_prod_beta Let_def sweep_tidy split: sum.splits)
next
  case Purge
  then show ?thesis using assms by (auto simp: case_prod_beta Let_def sweep_tidy split: sum.splits)
qed (use assms in \<open>auto simp: case_prod_beta Let_def split: if_splits sum.splits\<close>)

subsection \<open>The effect of an instruction\<close>

lemma exec_quiet: "exec S X M i g = (cs', g') \<Longrightarrow> quiet g g'"
proof (cases i)
  case (Each k cl q)
  then show "exec S X M i g = (cs', g') \<Longrightarrow> quiet g g'" by (cases q) auto
next
  case (Mark k cl data m)
  then show "exec S X M i g = (cs', g') \<Longrightarrow> quiet g g'"
    by (cases cl) (auto simp: case_prod_beta Let_def quiet_def set_client_def split: if_splits)
next
  case (Gather ps ks)
  then show "exec S X M i g = (cs', g') \<Longrightarrow> quiet g g'"
    by (cases ps) (auto simp: case_prod_beta Let_def simp del: add_new.simps intro: quiet_storage(3) [OF surjective_pairing])
next
  case (Match p)
  then show "exec S X M i g = (cs', g') \<Longrightarrow> quiet g g'"
    by (auto simp: case_prod_beta Let_def intro: quiet_storage(3) [OF surjective_pairing])
next
  case (Fetch k cl)
  then show "exec S X M i g = (cs', g') \<Longrightarrow> quiet g g'"
    by (auto simp: case_prod_beta Let_def intro: quiet_storage(1) [OF surjective_pairing])
next
  case (Queue m)
  then show "exec S X M i g = (cs', g') \<Longrightarrow> quiet g g'" by (auto simp: quiet_storage)
next
  case (Announce k)
  then show "exec S X M i g = (cs', g') \<Longrightarrow> quiet g g'" by (auto simp: quiet_storage)
next
  case (Drop k u)
  then show "exec S X M i g = (cs', g') \<Longrightarrow> quiet g g'" by (auto intro: quiet_storage(4) [OF surjective_pairing])
next
  case (Expiry k q n)
  then show "exec S X M i g = (cs', g') \<Longrightarrow> quiet g g'" by (cases q) (auto simp: quiet_def)
next
  case (SweepKey k)
  then show "exec S X M i g = (cs', g') \<Longrightarrow> quiet g g'"
    by (auto simp: case_prod_beta Let_def intro: quiet_storage(1) [OF surjective_pairing])
next
  case Sweep
  then show "exec S X M i g = (cs', g') \<Longrightarrow> quiet g g'"
    by (auto simp: case_prod_beta Let_def intro: quiet_storage(2) [OF surjective_pairing])
next
  case Purge
  then show "exec S X M i g = (cs', g') \<Longrightarrow> quiet g g'"
    by (auto simp: case_prod_beta Let_def intro: quiet_storage(2) [OF surjective_pairing])
next
  case (Wipe k)
  then show "exec S X M i g = (cs', g') \<Longrightarrow> quiet g g'" by (auto simp: quiet_storage)
qed (auto simp: case_prod_beta Let_def quiet_def set_client_def)

text \<open>An instruction serves the clients; only \<open>Clear\<close> takes an id out of a table.\<close>

definition cleared :: "instr \<Rightarrow> cid \<Rightarrow> uuid set" where
  "cleared i c = {u. \<exists>k. i = Clear k c u}"

lemma exec_registry:
  assumes "exec S X M i g = (cs', g')"
  shows "same_registry_upto (cleared i) g g'"
proof (cases i)
  case (Each k cl q)
  then show ?thesis using assms by (cases q) auto
next
  case (Mark k cl data m)
  have "client_le A (heap g c) (snd (markInflight u k (heap g c)))" for A c u
    by (auto simp: markInflight_def client_le_def)
  then show ?thesis using assms Mark
    by (cases cl) (auto simp: case_prod_beta Let_def split: if_splits intro!: same_registry_client)
next
  case (Gather ps ks)
  then show ?thesis using assms
    by (cases ps) (auto simp: case_prod_beta Let_def simp del: add_new.simps
        intro: same_registry_mono [OF storageKeysMatching_registry [OF surjective_pairing]])
next
  case (Match p)
  then show ?thesis using assms
    by (auto simp: case_prod_beta Let_def intro: same_registry_mono [OF storageKeysMatching_registry [OF surjective_pairing]])
next
  case (Fetch k cl)
  then show ?thesis using assms
    by (auto simp: case_prod_beta Let_def intro: same_registry_mono [OF getMsgQueue_registry [OF surjective_pairing]])
next
  case (Clear k c u)
  then show ?thesis using assms
    by (auto simp: cleared_def clearInflight_def client_le_def intro!: same_registry_client)
next
  case (Write k c data m)
  then show ?thesis using assms
    by (auto simp: case_prod_beta Let_def intro!: same_registry_client client_le_writers)
next
  case (Shut k c)
  then show ?thesis using assms by (auto intro!: same_registry_client client_le_close)
next
  case (Queue m)
  then show ?thesis using assms same_registry_mono [OF queueMessage_registry] by auto
next
  case (Announce k)
  then show ?thesis using assms same_registry_mono [OF notify_registry] by auto
next
  case (Drop k u)
  then show ?thesis using assms by (auto intro: same_registry_mono [OF deleteMsgById_registry [OF surjective_pairing]])
next
  case (Expiry k q n)
  then show ?thesis using assms by (cases q) (auto simp: same_registry_mono split: if_splits)
next
  case (SweepKey k)
  then show ?thesis using assms
    by (auto simp: case_prod_beta Let_def intro: same_registry_mono [OF getMsgQueue_registry [OF surjective_pairing]])
next
  case Sweep
  then show ?thesis using assms
    by (auto simp: case_prod_beta Let_def intro: same_registry_mono [OF get_keys_registry [OF surjective_pairing]])
next
  case Purge
  then show ?thesis using assms
    by (auto simp: case_prod_beta Let_def intro: same_registry_mono [OF get_keys_registry [OF surjective_pairing]])
next
  case (Wipe k)
  then show ?thesis using assms same_registry_mono [OF deleteMsgQueue_registry] by auto
qed (use assms in \<open>auto simp: Let_def same_registry_upto_def\<close>)

lemma exec_box:
  assumes "storage_contract S sinv box keep" and "sinv (store g)" and "exec S X M i g = (cs', g')"
  shows "sinv (store g') \<and> (\<forall>k u. box (store g') k u = box (store g) k u \<or>
    (\<exists>m. i = Queue m \<and> k = Key m \<and> u = msg_id m) \<or> i \<in> {Drop k u, Wipe k} \<and> box (store g') k u = None)"
proof (cases i)
  case (Queue m)
  then have "g' = queueMessage S m g" using assms(3) by simp
  then show ?thesis using storage_contract.queueMessage_box [OF assms(1,2), of m] Queue
    by (auto simp: box_put_def split: if_splits)
next
  case (Each k cl q)
  then show ?thesis using assms by (cases q) auto
next
  case (Mark k cl data m)
  then show ?thesis using assms
    by (cases cl) (auto simp: case_prod_beta Let_def set_client_def split: if_splits)
next
  case (Gather ps ks)
  then show ?thesis using assms storage_contract.storageKeysMatching_box [OF assms(1,2) surjective_pairing]
    by (cases ps) (auto simp: case_prod_beta Let_def simp del: add_new.simps)
next
  case (Match p)
  then show ?thesis using assms storage_contract.storageKeysMatching_box [OF assms(1,2) surjective_pairing]
    by (auto simp: case_prod_beta Let_def)
next
  case (Fetch k cl)
  then show ?thesis using assms storage_contract.getMsgQueue_box [OF assms(1,2) surjective_pairing]
    by (auto simp: case_prod_beta Let_def)
next
  case (Announce k)
  then show ?thesis using assms storage_contract.notify_box [OF assms(1,2)] by auto
next
  case (Drop k u)
  then show ?thesis using assms(3) storage_contract.deleteMsgById_box [OF assms(1,2) surjective_pairing, of k u]
    by (auto simp: box_del_def split: if_splits)
next
  case (Expiry k q n)
  then show ?thesis using assms by (cases q) (auto split: if_splits)
next
  case (SweepKey k)
  then show ?thesis using assms storage_contract.getMsgQueue_box [OF assms(1,2) surjective_pairing]
    by (auto simp: case_prod_beta Let_def)
next
  case Sweep
  then show ?thesis using assms storage_contract.get_keys_box [OF assms(1,2) surjective_pairing]
    by (auto simp: case_prod_beta Let_def)
next
  case Purge
  then show ?thesis using assms storage_contract.get_keys_box [OF assms(1,2) surjective_pairing]
    by (auto simp: case_prod_beta Let_def)
next
  case (Wipe k)
  then show ?thesis using assms(3) storage_contract.deleteMsgQueue_box [OF assms(1,2), of k]
    by (auto simp: box_clear_def split: if_splits)
qed (use assms in \<open>auto simp: case_prod_beta Let_def set_client_def\<close>)

lemma exec_aims:
  assumes r: "reliable_storage S sinv box keep" and inv: "sinv (store g)" and "reg_ok g" and "concerns g c k"
    and m: "box (store g) k (msg_id m) = Some m" and "live X now m" and "mi_now M \<le> now" and o: "range_order_ok (mi_ord M)"
    and e: "exec S X M i g = (cs', g')" and "aims i c k m"
  shows "(\<exists>j \<in> set cs'. aims j c k m) \<or> is_closed (heap g' c) \<or> inflight (heap g' c) (msg_id m) \<noteq> None"
proof (cases i)
  case (Snapshot k')
  have "c \<in> set (clientsForKey (mi_ord M) k g)"
    using assms(4) unfolding clients_set_exact [OF assms(3) o] concerns_def by blast
  then show ?thesis using e assms(10) Snapshot by (auto simp: Let_def split: if_splits)
next
  case (Fetch k' cl)
  then have k: "k' = k" "c \<in> set cl" using assms(10) by simp_all
  obtain q s' where q: "st_GetQueue S k (store g) = (Inr q, s')" "m \<in> set q"
    using reliable_storage.queue_of [OF r inv, of k] m by metis
  then show ?thesis using e Fetch k by (auto simp: getMsgQueue_def)
next
  case (Each k' cl q)
  then obtain m' q' where q: "q = m' # q'" using assms(10) by (cases q) auto
  have "\<not> isExpired (mi_now M) m" using assms(6,7) isExpired_mono by (auto simp: live_def)
  moreover obtain data where "marshal X m False = Some data" using assms(6) by (auto simp: live_def)
  ultimately show ?thesis using e assms(10) Each q by (cases "m = m'") auto
next
  case (Mark k' cl data m')
  then obtain c' cl' where cl: "cl = c' # cl'" using assms(10) by (cases cl) auto
  have id: "msg_id m' = msg_id m" using assms(10) Mark by simp
  show ?thesis
  proof (cases "c = c'")
    case True
    then show ?thesis using e Mark cl id by (auto simp: markInflight_def set_client_def split: if_splits)
  next
    case False
    then show ?thesis using e assms(10) Mark cl by (auto simp: case_prod_beta Let_def split: if_splits)
  qed
next
  case (Match p)
  obtain ks g1 where sk: "storageKeysMatching S p g = (ks, g1)" by fastforce
  have "box (store g) k \<noteq> Map.empty" using m by auto
  then have "k \<in> set ks" using reliable_storage.storageKeysMatching_set [OF r inv sk] assms(10) Match by simp
  then have "Snapshot k \<in> set cs'" using e Match sk by (auto simp: flush_code_def)
  then show ?thesis by force
next
  case (Gather ps ks)
  show ?thesis
  proof (cases ps)
    case Nil
    then have "k \<in> set ks" using assms(10) Gather by simp
    then have "k \<in> set (mi_ord M (add_new [] ks))" by (simp add: range_order_set [OF o] set_add_new)
    then have "Snapshot k \<in> set cs'" using e Gather Nil by (auto simp: flush_code_def simp del: add_new.simps)
    then show ?thesis by force
  next
    case (Cons p ps')
    obtain mk g1 where sk: "storageKeysMatching S p g = (mk, g1)" by fastforce
    have "box (store g) k \<noteq> Map.empty" using m by auto
    then have "keyMatches p k \<Longrightarrow> k \<in> set mk" using reliable_storage.storageKeysMatching_set [OF r inv sk] by blast
    moreover have "cs' = [Gather ps' (ks @ mk)]" using e Gather Cons sk by simp
    ultimately show ?thesis using assms(10) Gather Cons by auto
  qed
next
  case (Shut k' c')
  then show ?thesis using e assms(10) by (auto simp: set_client_def)
qed (use assms(10) in simp_all)

subsection \<open>Nothing gets stuck, at any granularity\<close>

definition attended :: "cid \<Rightarrow> string \<Rightarrow> Message \<Rightarrow> uuid set \<Rightarrow> ('s, 'a) fine \<Rightarrow> bool" where
  "attended c k m A f \<longleftrightarrow> (\<exists>t \<in> tasks (eng (base f)). flushes t k) \<or> (\<exists>cs \<in> set (threads f). \<exists>i \<in> set cs. aims i c k m) \<or>
     is_closed (heap (eng (base f)) c) \<or> inflight (heap (eng (base f)) c) (msg_id m) \<noteq> None \<or> msg_id m \<in> A"

definition waits :: "('s \<Rightarrow> mailbox) \<Rightarrow> externs \<Rightarrow> time \<Rightarrow> cid \<Rightarrow> string \<Rightarrow> Message \<Rightarrow> ('s, 'a) fine \<Rightarrow> bool" where
  "waits box X now c k m f \<longleftrightarrow> listens (eng (base f)) c k \<and>
     box (store (eng (base f))) k (msg_id m) = Some m \<and> live X now m"

definition fits_fine :: "time \<Rightarrow> fine_event \<Rightarrow> bool" where
  "fits_fine now ev \<longleftrightarrow> (case ev of FRun n M \<Rightarrow> mi_now M \<le> now \<and> range_order_ok (mi_ord M) | _ \<Rightarrow> True)"

definition fine_ok :: "('s \<Rightarrow> bool) \<Rightarrow> ('a \<Rightarrow> bool) \<Rightarrow> ('s, 'a) fine \<Rightarrow> bool" where
  "fine_ok sinv ainv f \<longleftrightarrow> sys_inv sinv ainv (base f) \<and> (\<forall>cs \<in> set (threads f). tidy cs)"

lemma sys_inv_upto:
  assumes "sys_inv sinv ainv y" and "same_registry_upto A (eng y) g" and "sinv (store g)"
  shows "sys_inv sinv ainv (y\<lparr>eng := g\<rparr>)"
  using assms same_registry_ok [OF assms(2)] same_registry_registered [OF assms(2)]
  by (auto simp: sys_inv_def sys_ok_def same_registry_upto_def)

lemma takeInflight_registry:
  assumes "takeInflight i (heap g c) = (k, cl)"
  shows "same_registry_upto ((\<lambda>_. {})(c := {i})) g (set_client c cl g)"
  using assms by (intro same_registry_client) (auto simp: takeInflight_def client_le_def split: option.splits)

lemma fine_step_ok:
  assumes "deployment_ok D sinv box keep ainv" and "fine_step D f ev f'" and "fine_ok sinv ainv f"
  shows "fine_ok sinv ainv f'"
proof -
  have i: "sys_inv sinv ainv (base f)" "sinv (store (eng (base f)))" using assms(3) by (simp_all add: fine_ok_def sys_inv_def)
  have c: "storage_contract (dS D) sinv box keep" using assms(1) by (simp add: deployment_ok_def)
  from assms(2) show ?thesis
  proof cases
    case (other ev' y)
    then show ?thesis using step_sys_inv [OF assms(1) i(1) other(3)] assms(3) by (simp add: fine_ok_def)
  next
    case (work_start t ts)
    then show ?thesis using sys_inv_upto [OF i(1) same_registry_update(2)] i(2) assms(3) code_tidy
      by (auto simp: fine_ok_def)
  next
    case (spawned_start a t b)
    then show ?thesis using sys_inv_upto [OF i(1) same_registry_update(3)] i(2) assms(3) code_tidy
      by (auto simp: fine_ok_def)
  next
    case tick
    then show ?thesis using assms(3) by (auto simp: fine_ok_def)
  next
    case sweep_start
    then show ?thesis using assms(3) by (auto simp: fine_ok_def)
  next
    case (ack_start c inb u k cl)
    show ?thesis using sys_inv_upto [OF i(1) takeInflight_registry [OF ack_start(5)]] i(2) assms(3) ack_code_tidy
      by (auto simp: ack_start(2) fine_ok_def)
  next
    case (purge_start H r g)
    then obtain l n where "g = (eng (base f))\<lparr>limiter := l, authFail := n\<rparr>" using purges_frame by blast
    then show ?thesis using sys_inv_upto [OF i(1) same_registry_update(8)] i(2) assms(3)
      by (auto simp: purge_start(2) fine_ok_def)
  next
    case (instr a j cs b M cs' g)
    have "tidy (j # cs)" using assms(3) instr(3) by (simp add: fine_ok_def)
    then show ?thesis
      using sys_inv_upto [OF i(1) exec_registry [OF instr(5)]] exec_box [OF c i(2) instr(5)] exec_tidy [OF instr(5)] assms(3) instr(3)
      by (auto simp: fine_ok_def instr(2))
  qed
qed

text \<open>A step of the system that is not a delivery.\<close>

lemma other_attended:
  assumes "deployment_ok D sinv box keep ainv" and x: "\<forall>s s'. dext D s s' \<longrightarrow> shrinks (box s) (box s')"
    and inv: "sys_inv sinv ainv (base f)" and st: "step D (base f) ev y" and nd: "\<not> apart D (eng (base f)) ev"
    and IH: "waits box (dX D) now c k m f \<longrightarrow> attended c k m A f"
    and w: "waits box (dX D) now c k m (f\<lparr>base := y\<rparr>)"
  shows "attended c k m A (f\<lparr>base := y\<rparr>)"
proof (cases "registered (eng (base f)) c")
  case True
  let ?g = "eng (base f)"
  have i: "sinv (store ?g)" "reg_ok ?g" using inv by (auto simp: sys_inv_def sys_ok_def)
  have "c < next_cid ?g" using True reg_okD(5) [OF i(2)] by (auto simp: registered_def)
  moreover have "acked D ?g ev c = {}" using nd by (auto simp: acked_def apart_def)
  ultimately have le: "client_le {} (heap ?g c) (heap (eng y) c)" using step_client_le [OF st] by fastforce
  have sc: "storage_contract (dS D) sinv box keep" using assms(1) by (simp add: deployment_ok_def)
  have nt: "\<not> runs_task ev" using nd by (cases ev) (simp_all add: runs_task_def apart_def)
  have s: "shrinks (box (store ?g)) (box (store (eng y)))" "tasks ?g \<subseteq> tasks (eng y)"
    using step_shrinks [OF sc i(1) st nt x] by blast+
  have "waits box (dX D) now c k m f"
    using w le s(1) True by (auto simp: waits_def listens_def client_le_def dest: shrinksD)
  then have "attended c k m A f" using IH by blast
  then consider t where "t \<in> tasks ?g" "flushes t k" | cs j where "cs \<in> set (threads f)" "j \<in> set cs" "aims j c k m"
    | "is_closed (heap ?g c)" | k' where "inflight (heap ?g c) (msg_id m) = Some k'" | "msg_id m \<in> A"
    unfolding attended_def by blast
  then show ?thesis
  proof cases
    case 4
    then show ?thesis using le unfolding attended_def client_le_def by fastforce
  qed (use s(2) le in \<open>auto simp: attended_def client_le_def\<close>)
next
  case False
  have "sys_ok (base f)" "sys_ok y" using inv step_sys_inv [OF assms(1) inv st] by (auto simp: sys_inv_def)
  then show ?thesis
    using new_connection_task [OF st _ _ _ False] w unfolding attended_def waits_def listens_def by fastforce
qed

text \<open>An instruction.\<close>

lemma instr_attended:
  assumes r: "reliable_storage (dS D) sinv box keep" and ok: "fine_ok sinv ainv f"
    and th: "threads f = a @ (i # cs) # b" and e: "exec (dS D) (dX D) M i (eng (base f)) = (cs', g)"
    and fit: "mi_now M \<le> now" "range_order_ok (mi_ord M)"
    and f': "f' = f\<lparr>base := (base f)\<lparr>eng := g\<rparr>, threads := a @ (cs' @ cs) # b, held := h\<rparr>"
    and IH: "waits box (dX D) now c k m f \<longrightarrow> attended c k m A f"
    and w: "waits box (dX D) now c k m f'"
  shows "attended c k m A f'"
proof -
  let ?g = "eng (base f)"
  have inv: "sinv (store ?g)" "reg_ok ?g" using ok by (auto simp: fine_ok_def sys_inv_def sys_ok_def)
  have tidy: "tidy (i # cs)" using ok th by (simp add: fine_ok_def)
  note reg = exec_registry [OF e] and q = quiet_tasks [OF exec_quiet [OF e]]
  have le: "client_le (cleared i c) (heap ?g c) (heap g c)" by (rule same_registry_heap [OF reg])
  have l: "listens ?g c k" using w le same_registry_registered [OF reg]
    by (auto simp: waits_def listens_def f' client_le_def)
  have live: "live (dX D) now m" and new: "box (store g) k (msg_id m) = Some m" using w by (simp_all add: waits_def f')
  have kept: "\<And>C. C \<in> set (threads f) \<Longrightarrow> j \<in> set C \<Longrightarrow> j \<noteq> i \<Longrightarrow> \<exists>C \<in> set (threads f'). j \<in> set C" for j
    by (auto simp: th f')
  have mine: "\<And>j. j \<in> set cs \<Longrightarrow> aims j c k m \<Longrightarrow> attended c k m A f'" by (auto simp: attended_def f')
  show ?thesis
  proof (cases "box (store ?g) k (msg_id m) = Some m")
    case False
    then obtain m0 where m0: "i = Queue m0" "k = Key m0"
      using exec_box [OF reliable_storage.axioms(1) [OF r] inv(1) e] new by (metis option.distinct(1))
    then have "Snapshot k \<in> set cs" using tidy by simp
    then show ?thesis by (rule mine) simp
  next
    case True
    have "attended c k m A f" using IH l True live by (simp add: waits_def)
    then consider (task) t where "t \<in> tasks ?g" "flushes t k" | (thread) C j where "C \<in> set (threads f)" "j \<in> set C" "aims j c k m"
      | (closed) "is_closed (heap ?g c)" | (flight) k' where "inflight (heap ?g c) (msg_id m) = Some k'" | (ack) "msg_id m \<in> A"
      unfolding attended_def by blast
    then show ?thesis
    proof cases
      case task
      then show ?thesis using q by (auto simp: attended_def f')
    next
      case thread
      show ?thesis
      proof (cases "j = i")
        case False
        then show ?thesis using kept [OF thread(1,2)] thread(3) by (auto simp: attended_def)
      next
        case j: True
        have "(\<exists>j \<in> set cs'. aims j c k m) \<or> is_closed (heap g c) \<or> inflight (heap g c) (msg_id m) \<noteq> None"
          using exec_aims [OF r inv listens_concerns [OF l] True live fit e] thread(3) j by blast
        then show ?thesis by (auto simp: attended_def f')
      qed
    next
      case closed
      then show ?thesis using le by (simp add: attended_def f' client_le_def)
    next
      case flight
      show ?thesis
      proof (cases "\<exists>l. i = Clear l c (msg_id m)")
        case True
        then obtain l where "Shut l c \<in> set cs" using tidy by auto
        then show ?thesis by (rule mine) simp
      next
        case False
        then have "inflight (heap g c) (msg_id m) = Some k'" using le flight by (auto simp: client_le_def cleared_def)
        then show ?thesis by (simp add: attended_def f')
      qed
    next
      case ack
      then show ?thesis by (simp add: attended_def)
    qed
  qed
qed

text \<open>The ids a connection acknowledged in an execution.\<close>

definition fine_acked :: "('s, 'a) deployment \<Rightarrow> ('s, 'a) fine \<Rightarrow> fine_event list \<Rightarrow> cid \<Rightarrow> uuid set" where
  "fine_acked D f evs c = {i. \<exists>e1 inb e2 z. evs = e1 @ FAck inb c # e2 \<and> fine_run D f e1 z \<and>
     acks (dX D) (dflate D) inb c (eng (base z)) i}"

lemma fine_acked_next:
  assumes "fine_run D f evs z"
  shows "fine_acked D f evs c \<subseteq> fine_acked D f (evs @ [ev]) c"
    and "ev = FAck inb c \<Longrightarrow> acks (dX D) (dflate D) inb c (eng (base z)) i \<Longrightarrow> i \<in> fine_acked D f (evs @ [ev]) c"
proof -
  show "fine_acked D f evs c \<subseteq> fine_acked D f (evs @ [ev]) c"
  proof
    fix i assume "i \<in> fine_acked D f evs c"
    then obtain e1 inb e2 w where w: "evs = e1 @ FAck inb c # e2" "fine_run D f e1 w"
      "acks (dX D) (dflate D) inb c (eng (base w)) i"
      unfolding fine_acked_def by blast
    then have "evs @ [ev] = e1 @ FAck inb c # (e2 @ [ev])" by simp
    then show "i \<in> fine_acked D f (evs @ [ev]) c" using w(2,3) unfolding fine_acked_def by blast
  qed
  show "i \<in> fine_acked D f (evs @ [ev]) c" if "ev = FAck inb c" "acks (dX D) (dflate D) inb c (eng (base z)) i"
    using assms that unfolding fine_acked_def by blast
qed

text \<open>A frame that acknowledges.\<close>

lemma ack_attended:
  assumes t: "takeInflight i (heap (eng (base f)) c') = (k', cl)"
    and f': "f' = f\<lparr>base := (base f)\<lparr>eng := set_client c' cl (eng (base f))\<rparr>, threads := threads f @ [ack_code k' i]\<rparr>"
    and IH: "waits box X now c k m f \<longrightarrow> attended c k m A f" and w: "waits box X now c k m f'"
    and "A \<subseteq> B" and "c' = c \<longrightarrow> i \<in> B"
  shows "attended c k m B f'"
proof -
  let ?g = "eng (base f)" and ?g' = "eng (base f')"
  note reg = takeInflight_registry [OF t]
  have g': "?g' = set_client c' cl ?g" by (simp add: f')
  have le: "client_le (((\<lambda>_. {})(c' := {i})) c) (heap ?g c) (heap ?g' c)" unfolding g' by (rule same_registry_heap [OF reg])
  have "waits box X now c k m f"
    using w same_registry_registered [OF reg] le by (auto simp: waits_def listens_def g' client_le_def simp del: fun_upd_apply)
  then have "attended c k m A f" using IH by blast
  moreover have "tasks ?g' = tasks ?g" by (simp add: g' tasks_def set_client_def)
  moreover have "set (threads f) \<subseteq> set (threads f')" by (auto simp: f')
  moreover have "inflight (heap ?g c) (msg_id m) \<noteq> None \<Longrightarrow> inflight (heap ?g' c) (msg_id m) \<noteq> None \<or> msg_id m \<in> B"
    using le assms(6) by (fastforce simp: client_le_def split: if_splits)
  ultimately show ?thesis using le assms(5) unfolding attended_def client_le_def by blast
qed

lemma attended_mono: "attended c k m A f \<Longrightarrow> A \<subseteq> B \<Longrightarrow> attended c k m B f"
  unfolding attended_def by blast

lemma fine_step_attended:
  assumes "deployment_ok D sinv box keep ainv" and "reliable_storage (dS D) sinv box keep"
    and "\<forall>s s'. dext D s s' \<longrightarrow> shrinks (box s) (box s')" and "fine_ok sinv ainv f" and "fine_step D f ev f'"
    and "fits_fine now ev"
    and IH: "waits box (dX D) now c k m f \<longrightarrow> attended c k m A f"
    and "waits box (dX D) now c k m f'" and "A \<subseteq> B"
    and "\<forall>inb i. ev = FAck inb c \<longrightarrow> acks (dX D) (dflate D) inb c (eng (base f)) i \<longrightarrow> i \<in> B"
  shows "attended c k m B f'"
proof -
  have new: "attended c k m A f'"
    if "heap (eng (base f')) = heap (eng (base f))" "store (eng (base f')) = store (eng (base f))"
      "same_registry (eng (base f)) (eng (base f'))" "\<forall>t \<in> tasks (eng (base f)). t \<in> tasks (eng (base f')) \<or> code t \<in> set (threads f')"
      "set (threads f) \<subseteq> set (threads f')"
  proof -
    have "waits box (dX D) now c k m f"
      using assms(8) that(1,2) same_registry_registered [OF that(3)] by (simp add: waits_def listens_def)
    then have "attended c k m A f" using IH by blast
    then show ?thesis using that(1,4,5) code_aims unfolding attended_def by (metis subsetD)
  qed
  from assms(5) show "attended c k m B f'"
  proof cases
    case (other e y)
    have "sys_inv sinv ainv (base f)" using assms(4) by (simp add: fine_ok_def)
    from other_attended [OF assms(1,3) this other(3,4) IH] show ?thesis
      using assms(8,9) attended_mono by (simp add: other)
  next
    case (work_start t ts)
    show ?thesis by (rule attended_mono [OF new assms(9)]) (auto simp: work_start tasks_def)
  next
    case (spawned_start a t b)
    show ?thesis by (rule attended_mono [OF new assms(9)]) (auto simp: spawned_start tasks_def)
  next
    case tick
    show ?thesis by (rule attended_mono [OF new assms(9)]) (auto simp: tick)
  next
    case sweep_start
    show ?thesis by (rule attended_mono [OF new assms(9)]) (auto simp: sweep_start)
  next
    case (ack_start c' inb i k' cl)
    have "c' = c \<longrightarrow> i \<in> B" using assms(10) ack_start(1,4) by blast
    from ack_attended [OF ack_start(5,2) IH assms(8,9) this] show ?thesis .
  next
    case (purge_start H r g)
    then obtain l n where "g = (eng (base f))\<lparr>limiter := l, authFail := n\<rparr>" using purges_frame by blast
    then show ?thesis by (intro attended_mono [OF new assms(9)]) (auto simp: purge_start(2) tasks_def)
  next
    case (instr a i cs b M cs' g)
    have "mi_now M \<le> now" "range_order_ok (mi_ord M)" using assms(6) by (simp_all add: instr(1) fits_fine_def)
    from attended_mono [OF instr_attended [OF assms(2,4) instr(3,5) this instr(2) IH assms(8)] assms(9)] show ?thesis .
  qed
qed

lemma fine_run_attended:
  assumes "deployment_ok D sinv box keep ainv" and "reliable_storage (dS D) sinv box keep"
    and "\<forall>s s'. dext D s s' \<longrightarrow> shrinks (box s) (box s')" and "fine_ok sinv ainv f" and "readers (base f) = {}"
    and "fine_run D f evs z" and "\<forall>ev \<in> set evs. fits_fine now ev"
  shows "fine_ok sinv ainv z \<and> (waits box (dX D) now c k m z \<longrightarrow> attended c k m (fine_acked D f evs c) z)"
  using assms(6,7)
proof (induction rule: fine_run.induct)
  case fine_init
  have "\<not> registered (eng (base f)) c" using assms(4,5) by (simp add: fine_ok_def sys_inv_def sys_ok_def)
  then show ?case using assms(4) by (simp add: waits_def listens_def)
next
  case (fine_next evs z ev z')
  have f: "fits_fine now ev" "\<forall>ev \<in> set evs. fits_fine now ev" using fine_next.prems by auto
  have ok: "fine_ok sinv ainv z" and IH: "waits box (dX D) now c k m z \<longrightarrow> attended c k m (fine_acked D f evs c) z"
    using fine_next.IH [OF f(2)] by blast+
  note n1 = fine_acked_next(1) [OF fine_next.hyps(1), of c ev]
  have n2: "\<forall>inb i. ev = FAck inb c \<longrightarrow> acks (dX D) (dflate D) inb c (eng (base z)) i \<longrightarrow> i \<in> fine_acked D f (evs @ [ev]) c"
    using fine_acked_next(2) [OF fine_next.hyps(1)] by blast
  show ?case
    using fine_step_ok [OF assms(1) fine_next.hyps(2) ok] fine_step_attended [OF assms(1-3) ok fine_next.hyps(2) f(1) IH _ n1 n2]
    by blast
qed

end
