(* ===== verification/Provenance.thy ===== *)
theory Provenance
  imports Progress
begin

text \<open>
  Why a message leaves a queue, at the granularity of \<open>Interleaving\<close>: a goroutine that is about to delete
  a message has a reason for it, an acknowledgement of the id by a connection it was in flight on, a
  sweep that read a message with this id in this queue and found it expired, or an authorized DELETE of
  everything. The invariant holds for all
  instructions that any goroutine has ahead.
\<close>

subsection \<open>Reasons\<close>

text \<open>At some point before, \<open>m\<close> was in the queue of \<open>k\<close>; a frame acknowledged the id \<open>i\<close> on a connection where it
  was in flight for \<open>k\<close>; a sweep looked at a message with the id \<open>i\<close> that it had read in the queue of \<open>k\<close>
  and found it expired; an authorized request asked to delete everything.\<close>

definition was_queued :: "('s \<Rightarrow> mailbox) \<Rightarrow> ('s, 'a) deployment \<Rightarrow> ('s, 'a) fine \<Rightarrow> fine_event list \<Rightarrow>
    string \<Rightarrow> Message \<Rightarrow> bool" where
  "was_queued box D f evs k m \<longleftrightarrow>
     (\<exists>e1 e2 w. evs = e1 @ e2 \<and> fine_run D f e1 w \<and> box (store (eng (base w))) k (msg_id m) = Some m)"

definition was_acked :: "('s, 'a) deployment \<Rightarrow> ('s, 'a) fine \<Rightarrow> fine_event list \<Rightarrow> string \<Rightarrow> uuid \<Rightarrow> bool" where
  "was_acked D f evs k i \<longleftrightarrow>
     (\<exists>e1 inb c e2 w. evs = e1 @ FAck inb c # e2 \<and> fine_run D f e1 w \<and>
        acks (dX D) (dflate D) inb c (eng (base w)) i \<and> inflight (heap (eng (base w)) c) i = Some k)"

definition was_expired :: "('s \<Rightarrow> mailbox) \<Rightarrow> ('s, 'a) deployment \<Rightarrow> ('s, 'a) fine \<Rightarrow> fine_event list \<Rightarrow>
    string \<Rightarrow> uuid \<Rightarrow> bool" where
  "was_expired box D f evs k i \<longleftrightarrow>
     (\<exists>e1 M e2 w a m q r cs b. evs = e1 @ FRun (length a) M # e2 \<and> fine_run D f e1 w \<and>
        threads w = a @ (Expiry k (m # q) r # cs) # b \<and> msg_id m = i \<and> isExpired (mi_now M) m \<and>
        was_queued box D f e1 k m)"

definition was_purged :: "('s, 'a) deployment \<Rightarrow> ('s, 'a) fine \<Rightarrow> fine_event list \<Rightarrow> bool" where
  "was_purged D f evs \<longleftrightarrow>
     (\<exists>e1 H r e2 w. evs = e1 @ FPurge H r # e2 \<and> fine_run D f e1 w \<and> backend_ok (config (eng (base w))) r \<and>
        r_Path r = ''/'' \<and> r_Method r = ''DELETE'' \<and> Get (r_Query r) ''key'' = [] \<and> Get (r_Query r) ''id'' = [])"

fun justified :: "('s \<Rightarrow> mailbox) \<Rightarrow> ('s, 'a) deployment \<Rightarrow> ('s, 'a) fine \<Rightarrow> fine_event list \<Rightarrow> instr \<Rightarrow> bool" where
  "justified box D f evs (Drop k i) \<longleftrightarrow> was_acked D f evs k i \<or> was_expired box D f evs k i"
| "justified box D f evs (Expiry k q n) \<longleftrightarrow> (\<forall>m \<in> set q. was_queued box D f evs k m)"
| "justified box D f evs Purge \<longleftrightarrow> was_purged D f evs"
| "justified box D f evs (Wipe k) \<longleftrightarrow> was_purged D f evs"
| "justified box D f evs j \<longleftrightarrow> True"

lemma was_queued_next: "was_queued box D f evs k m \<Longrightarrow> was_queued box D f (evs @ evs') k m"
  unfolding was_queued_def by (metis append.assoc)

lemma was_acked_next: "was_acked D f evs k i \<Longrightarrow> was_acked D f (evs @ evs') k i"
  unfolding was_acked_def by (metis append.assoc append_Cons)

lemma was_expired_next: "was_expired box D f evs k i \<Longrightarrow> was_expired box D f (evs @ evs') k i"
  unfolding was_expired_def by (metis append.assoc append_Cons)

lemma was_purged_next: "was_purged D f evs \<Longrightarrow> was_purged D f (evs @ evs')"
  unfolding was_purged_def by (metis append.assoc append_Cons)

lemma justified_next: "justified box D f evs j \<Longrightarrow> justified box D f (evs @ evs') j"
  by (cases j) (auto intro: was_queued_next was_acked_next was_expired_next was_purged_next)

subsection \<open>Where the instructions come from\<close>

text \<open>An instruction that needs no reason.\<close>

definition harmless :: "instr \<Rightarrow> bool" where
  "harmless j \<longleftrightarrow> (\<forall>k i. j \<noteq> Drop k i) \<and> (\<forall>k q n. j \<noteq> Expiry k q n) \<and> j \<noteq> Purge \<and> (\<forall>k. j \<noteq> Wipe k)"

lemma harmless_justified: "harmless j \<Longrightarrow> justified box D f evs j"
  by (cases j) (simp_all add: harmless_def)

lemma flushes_harmless: "j \<in> set (concat (map flush_code ks)) \<Longrightarrow> harmless j"
  by (auto simp: flush_code_def harmless_def)

lemma code_harmless: "j \<in> set (code t) \<Longrightarrow> harmless j"
  by (cases t) (auto simp: flush_code_def harmless_def Let_def split: if_splits)

lemma exec_origin:
  assumes "exec S X M i g = (cs', g')" and "j \<in> set cs'"
  shows "harmless j \<or> (\<exists>k m q n. i = Expiry k (m # q) n \<and> j = Drop k (msg_id m) \<and> isExpired (mi_now M) m) \<or>
    (\<exists>k q q' n n'. i = Expiry k q n \<and> j = Expiry k q' n' \<and> set q' \<subseteq> set q) \<or>
    (\<exists>k q. i = SweepKey k \<and> j = Expiry k q 0 \<and> fst (getMsgQueue S k g) = Inr q) \<or> (\<exists>k. i = Purge \<and> j = Wipe k)"
proof (cases i)
  case (Each k cl q)
  then show ?thesis using assms by (cases q) (auto simp: harmless_def split: if_splits option.splits)
next
  case (Mark k cl data m)
  then show ?thesis using assms by (cases cl) (auto simp: harmless_def case_prod_beta Let_def split: if_splits)
next
  case (Gather ps ks)
  show ?thesis
  proof (cases ps)
    case Nil
    then have "j \<in> set (concat (map flush_code (mi_ord M (add_new [] ks))))"
      using assms Gather by (simp del: add_new.simps set_concat)
    then show ?thesis using flushes_harmless by blast
  next
    case (Cons p ps')
    then show ?thesis using assms Gather by (auto simp: harmless_def case_prod_beta Let_def)
  qed
next
  case (Match p)
  then show ?thesis using assms flushes_harmless by (auto simp: case_prod_beta Let_def simp del: set_concat)
next
  case (Expiry k q n)
  then show ?thesis using assms by (cases q) (auto split: if_splits)
qed (use assms in \<open>auto simp: harmless_def case_prod_beta Let_def split: if_splits sum.splits\<close>)

subsection \<open>The invariant\<close>

definition reasoned :: "('s \<Rightarrow> mailbox) \<Rightarrow> ('s, 'a) deployment \<Rightarrow> ('s, 'a) fine \<Rightarrow> fine_event list \<Rightarrow> ('s, 'a) fine \<Rightarrow> bool" where
  "reasoned box D f evs z \<longleftrightarrow> (\<forall>cs \<in> set (threads z). \<forall>j \<in> set cs. justified box D f evs j)"

lemma reasoned_new:
  assumes "reasoned box D f evs z" and "threads z' = threads z @ [cs]" and "\<forall>j \<in> set cs. justified box D f (evs @ evs') j"
  shows "reasoned box D f (evs @ evs') z'"
  using assms justified_next unfolding reasoned_def by fastforce

lemma instr_reasoned:
  assumes c: "storage_contract (dS D) sinv box keep" and inv: "sinv (store (eng (base z)))"
    and r: "fine_run D f evs z" and th: "threads z = a @ (i # cs) # b"
    and e: "exec (dS D) (dX D) M i (eng (base z)) = (cs', g)" and J: "reasoned box D f evs z" and j: "j \<in> set cs'"
  shows "justified box D f (evs @ [FRun (length a) M]) j"
proof -
  have i: "justified box D f evs i" using J th by (simp add: reasoned_def)
  from exec_origin [OF e j] consider (harmless) "harmless j"
    | (drop) k m q n where "i = Expiry k (m # q) n" "j = Drop k (msg_id m)" "isExpired (mi_now M) m"
    | (rest) k q q' n n' where "i = Expiry k q n" "j = Expiry k q' n'" "set q' \<subseteq> set q"
    | (read) k q where "i = SweepKey k" "j = Expiry k q 0" "fst (getMsgQueue (dS D) k (eng (base z))) = Inr q"
    | (wipe) k where "i = Purge" "j = Wipe k"
    by blast
  then show ?thesis
  proof cases
    case harmless
    then show ?thesis by (rule harmless_justified)
  next
    case drop
    have "was_queued box D f evs k m" using i by (simp add: drop)
    then have "was_expired box D f (evs @ [FRun (length a) M]) k (msg_id m)"
      using r th drop(1,3) unfolding was_expired_def by blast
    then show ?thesis by (simp add: drop)
  next
    case rest
    then show ?thesis using i by (auto intro!: was_queued_next)
  next
    case read
    obtain g1 where q: "getMsgQueue (dS D) k (eng (base z)) = (Inr q, g1)" using read(3) by (metis prod.collapse)
    have "box (store (eng (base z))) k (msg_id m) = Some m" if "m \<in> set q" for m
      using storage_contract.getMsgQueue_queue [OF c inv q] that queue_map_iff [of q "msg_id m" m] by auto
    then have "was_queued box D f evs k m" if "m \<in> set q" for m
      using that r unfolding was_queued_def by (metis append_Nil2)
    then show ?thesis using read(2) by (auto intro!: was_queued_next)
  next
    case wipe
    then show ?thesis using i by (auto intro!: was_purged_next)
  qed
qed

lemma fine_step_reasoned:
  assumes "storage_contract (dS D) sinv box keep" and "sinv (store (eng (base z)))" and "fine_run D f evs z"
    and "fine_step D z ev z'" and J: "reasoned box D f evs z"
  shows "reasoned box D f (evs @ [ev]) z'"
  using assms(4)
proof cases
  case (other e y)
  then show ?thesis using J justified_next unfolding reasoned_def by fastforce
next
  case (work_start t ts)
  show ?thesis by (rule reasoned_new [OF J]) (auto simp: work_start intro: harmless_justified code_harmless)
next
  case (spawned_start a t b)
  show ?thesis by (rule reasoned_new [OF J]) (auto simp: spawned_start intro: harmless_justified code_harmless)
next
  case tick
  show ?thesis by (rule reasoned_new [OF J]) (auto simp: tick)
next
  case sweep_start
  show ?thesis by (rule reasoned_new [OF J]) (auto simp: sweep_start)
next
  case (ack_start c inb i k cl)
  have "was_acked D f (evs @ [ev]) key i" if "k = Some key" for key
    using ack_start assms(3) that unfolding was_acked_def takeInflight_def by (fastforce split: option.splits)
  then have "\<forall>j \<in> set (ack_code k i). justified box D f (evs @ [ev]) j" by (auto simp: ack_code_def split: option.splits)
  then show ?thesis by (rule reasoned_new [OF J, rotated]) (simp add: ack_start)
next
  case (purge_start H r g)
  have "was_purged D f (evs @ [ev])"
    using purges_frame [OF purge_start(3)] assms(3) purge_start(1) unfolding was_purged_def by blast
  then show ?thesis by (intro reasoned_new [OF J]) (auto simp: purge_start(2))
next
  case (instr a i cs b M cs' g)
  have "\<forall>j \<in> set cs'. justified box D f (evs @ [ev]) j"
    using instr_reasoned [OF assms(1-3) instr(3,5) J] instr(1) by blast
  moreover have "\<forall>C \<in> set (threads z). \<forall>j \<in> set C. justified box D f (evs @ [ev]) j"
    using J justified_next unfolding reasoned_def by blast
  ultimately show ?thesis by (auto simp: reasoned_def instr(2,3))
qed

lemma fine_run_reasoned:
  assumes "deployment_ok D sinv box keep ainv" and "fine_run D f evs z" and "fine_ok sinv ainv f" and "threads f = []"
  shows "fine_ok sinv ainv z \<and> reasoned box D f evs z"
  using assms(2)
proof (induction rule: fine_run.induct)
  case fine_init
  show ?case using assms(3,4) by (simp add: reasoned_def)
next
  case (fine_next evs z ev z')
  have "storage_contract (dS D) sinv box keep" using assms(1) by (simp add: deployment_ok_def)
  moreover have "sinv (store (eng (base z)))" using fine_next.IH by (simp add: fine_ok_def sys_inv_def)
  ultimately show ?case
    using fine_step_ok [OF assms(1) fine_next.hyps(2)] fine_step_reasoned [OF _ _ fine_next.hyps] fine_next.IH by blast
qed

text \<open>What a step can take out of a queue.\<close>

lemma fine_step_lost:
  assumes "deployment_ok D sinv box keep ainv" and "fine_ok sinv ainv z" and "reasoned box D f evs z"
    and "fine_step D z ev z'" and b: "box (store (eng (base z))) k (msg_id m) = Some m"
    and b': "box (store (eng (base z'))) k (msg_id m) \<noteq> Some m"
  shows "(\<exists>e. ev = FStep e \<and> may_remove D (eng (base z)) e k m) \<or>
    (\<exists>a i cs b M. ev = FRun (length a) M \<and> threads z = a @ (i # cs) # b \<and>
       ((\<exists>m'. i = Queue m' \<and> Key m' = k \<and> msg_id m' = msg_id m) \<or>
        i = Drop k (msg_id m) \<and> (was_acked D f evs k (msg_id m) \<or> was_expired box D f evs k (msg_id m)) \<or>
        i = Wipe k \<and> was_purged D f evs))"
proof -
  have c: "storage_contract (dS D) sinv box keep" and inv: "sinv (store (eng (base z)))"
    using assms(1,2) by (simp_all add: deployment_ok_def fine_ok_def sys_inv_def)
  from assms(4) show ?thesis
  proof cases
    case (other e y)
    then show ?thesis using step_store [OF assms(1) inv other(3), of k m] b b' by simp
  next
    case (instr a i cs b M cs' g)
    have "(\<exists>m'. i = Queue m' \<and> k = Key m' \<and> msg_id m = msg_id m') \<or> i = Drop k (msg_id m) \<or> i = Wipe k"
      using exec_box [OF c inv instr(5)] assms(5) b' by (simp add: instr(2)) metis
    moreover have "justified box D f evs i" using assms(3) instr(3) by (simp add: reasoned_def)
    ultimately show ?thesis using instr(1,3) by auto
  next
    case (purge_start H r g)
    then show ?thesis using purges_frame [OF purge_start(3)] b b' by auto
  qed (use b b' in simp_all)
qed

end
