(* ===== verification/Once.thy ===== *)
theory Once
  imports Progress
begin

text \<open>
  How often a message is written to a connection, at the granularity of \<open>Interleaving\<close>. Beside an execution
  two counts are kept, of the frames of one message id written to one connection and of the
  acknowledgements of this id read from it. The in-flight table is what relates them, together with the
  writes that goroutines have ahead and the entries that they have still to clear after a failed write.
\<close>

subsection \<open>Counting\<close>

fun puts :: "micro \<Rightarrow> ('s, 'a) goctopus \<Rightarrow> cid \<Rightarrow> uuid \<Rightarrow> instr \<Rightarrow> nat" where
  "puts M g c i (Write k c' data m) =
     (if c' = c \<and> msg_id m = i \<and> fst (writeMessage (mi_now M) (mi_ok M) data (heap g c)) then 1 else 0)"
| "puts M g c i j = 0"

definition writes_in :: "('s, 'a) fine \<Rightarrow> fine_event \<Rightarrow> cid \<Rightarrow> uuid \<Rightarrow> nat" where
  "writes_in z ev c i =
     (case ev of
        FRun n M \<Rightarrow> (if n < length (threads z) \<and> threads z ! n \<noteq> [] then puts M (eng (base z)) c i (hd (threads z ! n)) else 0)
      | _ \<Rightarrow> 0)"

definition acks_in :: "('s, 'a) deployment \<Rightarrow> ('s, 'a) fine \<Rightarrow> fine_event \<Rightarrow> cid \<Rightarrow> uuid \<Rightarrow> nat" where
  "acks_in D z ev c i =
     (case ev of FAck inb c' \<Rightarrow> (if c' = c \<and> acks (dX D) (dflate D) inb c (eng (base z)) i then 1 else 0) | _ \<Rightarrow> 0)"

text \<open>An execution with the number of frames of \<open>i\<close> written to \<open>c\<close> and the number of its acknowledgements.\<close>

inductive tally :: "('s, 'a) deployment \<Rightarrow> ('s, 'a) fine \<Rightarrow> cid \<Rightarrow> uuid \<Rightarrow> fine_event list \<Rightarrow> ('s, 'a) fine \<Rightarrow> nat \<Rightarrow> nat \<Rightarrow> bool"
  for D f c i where
  tally_init: "tally D f c i [] f 0 0"
| tally_next: "tally D f c i evs z w a \<Longrightarrow> fine_step D z ev z' \<Longrightarrow>
     tally D f c i (evs @ [ev]) z' (w + writes_in z ev c i) (a + acks_in D z ev c i)"

lemma tally_run: "tally D f c i evs z w a \<Longrightarrow> fine_run D f evs z"
  by (induction rule: tally.induct) (auto intro: fine_run.intros)

lemma run_tally: "fine_run D f evs z \<Longrightarrow> \<exists>w a. tally D f c i evs z w a"
  by (induction rule: fine_run.induct) (blast intro: tally.intros)+

subsection \<open>The balance\<close>

text \<open>What an instruction that is still ahead can add to the writes or take from the in-flight table, and
  whether the id is in flight.\<close>

fun owed :: "cid \<Rightarrow> uuid \<Rightarrow> instr \<Rightarrow> nat" where
  "owed c i (Write k c' data m) = (if c' = c \<and> msg_id m = i then 1 else 0)"
| "owed c i (Clear k c' u) = (if c' = c \<and> u = i then 1 else 0)"
| "owed c i j = 0"

definition owes :: "cid \<Rightarrow> uuid \<Rightarrow> instr list \<Rightarrow> nat" where
  "owes c i cs = sum_list (map (owed c i) cs)"

definition flying :: "('s, 'a) goctopus \<Rightarrow> cid \<Rightarrow> uuid \<Rightarrow> nat" where
  "flying g c i = (if inflight (heap g c) i = None then 0 else 1)"

lemma owes_simps [simp]: "owes c i [] = 0" "owes c i (j # cs) = owed c i j + owes c i cs"
  "owes c i (cs @ cs') = owes c i cs + owes c i cs'"
  by (simp_all add: owes_def)

lemma owes_flushes [simp]: "owes c i (concat (map flush_code ks)) = 0"
  by (induction ks) (simp_all add: flush_code_def)

lemma owes_code [simp]: "owes c i (code t) = 0"
proof (cases t)
  case (PostTask m ks)
  have "owes c i (code (PostTask m ks)) = 0" by (induction ks) (simp_all add: flush_code_def Let_def)
  then show ?thesis by (simp add: PostTask)
next
  case (ConnectTask ks)
  have "owes c i (code (ConnectTask ks)) = 0" by (induction ks) (simp_all add: flush_code_def)
  then show ?thesis by (simp add: ConnectTask)
qed (simp add: flush_code_def)

lemma owes_maps [simp]: "owes c i (map SweepKey ks) = 0" "owes c i (map Wipe ks) = 0" "owes c i (ack_code k u) = 0"
  by (induction ks) (simp_all add: ack_code_def split: option.splits)

lemma flying_le: "client_le A (heap g c) (heap g' c) \<Longrightarrow> i \<notin> A \<Longrightarrow> flying g c i \<le> flying g' c i"
  by (auto simp: client_le_def flying_def)

lemma exec_balance:
  assumes e: "exec S X M j g = (cs', g')"
  shows "puts M g c i j + owes c i cs' + flying g c i \<le> owed c i j + flying g' c i"
proof (cases "\<exists>k. j = Clear k c i")
  case True
  then show ?thesis using e by (auto simp: flying_def)
next
  case False
  have le: "flying g c i \<le> flying g' c i"
    using False by (intro flying_le [OF same_registry_heap [OF exec_registry [OF e]]]) (auto simp: cleared_def)
  show ?thesis
  proof (cases j)
    case (Each k cl q)
    then show ?thesis using e le by (cases q) (auto split: if_splits option.splits)
  next
    case (Mark k cl data m)
    then show ?thesis using e le
      by (cases cl) (auto simp: markInflight_def set_client_def flying_def Let_def split: if_splits)
  next
    case (Gather ps ks)
    then show ?thesis using e le by (cases ps) (auto simp: case_prod_beta Let_def simp del: add_new.simps)
  next
    case (Expiry k q n)
    then show ?thesis using e le by (cases q) (auto split: if_splits)
  next
    case (Write k c' data m)
    then show ?thesis using e le by (auto simp: case_prod_beta Let_def split: if_splits)
  qed (use e le in \<open>auto simp: case_prod_beta Let_def split: if_splits sum.splits\<close>)
qed

subsection \<open>Goroutines only know connections that exist\<close>

fun knows :: "instr \<Rightarrow> cid set" where
  "knows (Fetch k cl) = set cl"
| "knows (Each k cl q) = set cl"
| "knows (Mark k cl data m) = set cl"
| "knows (Write k c data m) = {c}"
| "knows (Clear k c i) = {c}"
| "knows (Shut k c) = {c}"
| "knows j = {}"

definition known :: "('s, 'a) fine \<Rightarrow> bool" where
  "known f \<longleftrightarrow> (\<forall>cs \<in> set (threads f). \<forall>j \<in> set cs. knows j \<subseteq> {..<next_cid (eng (base f))})"

lemma owed_known: "c \<notin> knows j \<Longrightarrow> owed c i j = 0"
  by (cases j) auto

lemma owes_known: "\<forall>j \<in> set cs. c \<notin> knows j \<Longrightarrow> owes c i cs = 0"
  by (induction cs) (simp_all add: owed_known)

lemma flushes_know: "j \<in> set (concat (map flush_code ks)) \<Longrightarrow> knows j = {}"
  by (auto simp: flush_code_def)

lemma code_knows: "j \<in> set (code t) \<Longrightarrow> knows j = {}"
  by (cases t) (auto simp: flush_code_def Let_def split: if_splits)

lemma ack_knows: "j \<in> set (ack_code k i) \<Longrightarrow> knows j = {}"
  by (auto simp: ack_code_def split: option.splits)

lemma exec_knows:
  assumes e: "exec S X M i g = (cs', g')" and "reg_ok g" and j: "j \<in> set cs'"
  shows "knows j \<subseteq> knows i \<union> {..<next_cid g}"
proof (cases i)
  case (Snapshot k)
  have "set (clientsForKey (mi_ord M) k g) \<subseteq> {..<next_cid g}"
    using reg_okD(5) [OF assms(2)] by (auto simp: clientsForKey_def clients_fold)
  then show ?thesis using e j Snapshot by (auto simp: Let_def split: if_splits)
next
  case (Each k cl q)
  then show ?thesis using e j by (cases q) (auto split: if_splits option.splits)
next
  case (Mark k cl data m)
  then show ?thesis using e j by (cases cl) (auto simp: case_prod_beta Let_def split: if_splits)
next
  case (Gather ps ks)
  show ?thesis
  proof (cases ps)
    case Nil
    then have "j \<in> set (concat (map flush_code (mi_ord M (add_new [] ks))))"
      using e j Gather by (simp del: add_new.simps set_concat)
    from flushes_know [OF this] show ?thesis by simp
  next
    case (Cons p ps')
    then show ?thesis using e j Gather by (auto simp: case_prod_beta Let_def)
  qed
next
  case (Match p)
  then have "j \<in> set (concat (map flush_code (fst (storageKeysMatching S p g))))"
    using e j by (auto simp: case_prod_beta Let_def)
  from flushes_know [OF this] show ?thesis by simp
next
  case (Expiry k q n)
  then show ?thesis using e j by (cases q) (auto split: if_splits)
qed (use e j in \<open>auto simp: case_prod_beta Let_def split: if_splits sum.splits\<close>)

subsection \<open>Every step keeps the balance\<close>

definition left_over :: "cid \<Rightarrow> uuid \<Rightarrow> ('s, 'a) fine \<Rightarrow> nat" where
  "left_over c i f = owes c i (concat (threads f))"

lemma left_over_known: "known f \<Longrightarrow> \<not> c < next_cid (eng (base f)) \<Longrightarrow> left_over c i f = 0"
  unfolding left_over_def known_def by (rule owes_known) auto

lemma step_next_cid: "step D y ev y' \<Longrightarrow> next_cid (eng y) \<le> next_cid (eng y')"
  using step_client_le [of D y ev y' 0] by (cases "next_cid (eng y) = 0") simp_all

lemma fine_step_balance:
  assumes "fine_step D z ev z'" and r: "reg_ok (eng (base z))" and K: "known z"
  shows "known z'" and "next_cid (eng (base z)) \<le> next_cid (eng (base z'))"
    and "c < next_cid (eng (base z)) \<Longrightarrow> writes_in z ev c i + left_over c i z' + flying (eng (base z)) c i \<le>
           left_over c i z + flying (eng (base z')) c i + acks_in D z ev c i"
    and "\<not> c < next_cid (eng (base z)) \<Longrightarrow> writes_in z ev c i = 0 \<and> left_over c i z' = 0"
proof -
  let ?n = "next_cid (eng (base z))"
  have new: "known z'" if "threads z' = threads z @ [cs]" "?n \<le> next_cid (eng (base z'))" "\<forall>j \<in> set cs. knows j = {}" for cs
    using that K unfolding known_def by fastforce
  have zero: "left_over c i z = 0" if "\<not> c < ?n" using left_over_known [OF K that] .
  have "known z' \<and> ?n \<le> next_cid (eng (base z')) \<and>
    (c < ?n \<longrightarrow> writes_in z ev c i + left_over c i z' + flying (eng (base z)) c i \<le>
           left_over c i z + flying (eng (base z')) c i + acks_in D z ev c i) \<and>
    (\<not> c < ?n \<longrightarrow> writes_in z ev c i = 0 \<and> left_over c i z' = 0)"
    using assms(1)
  proof cases
    case (other e y)
    have le: "?n \<le> next_cid (eng y)" using step_next_cid [OF other(3)] .
    then have "known z'" using K unfolding known_def by (fastforce simp: other(2))
    moreover have "flying (eng (base z)) c i \<le> flying (eng y) c i" if "c < ?n"
    proof -
      have "acked D (eng (base z)) e c = {}" using other(4) by (auto simp: acked_def apart_def)
      then show ?thesis using step_client_le [OF other(3) that] flying_le by fastforce
    qed
    ultimately show ?thesis using le zero by (simp add: other(1,2) writes_in_def acks_in_def left_over_def)
  next
    case (work_start t ts)
    have "known z'" by (rule new [of "code t"]) (simp_all add: work_start code_knows)
    then show ?thesis using zero by (simp add: work_start(1,2) writes_in_def acks_in_def left_over_def flying_def)
  next
    case (spawned_start a t b)
    have "known z'" by (rule new [of "code t"]) (simp_all add: spawned_start code_knows)
    then show ?thesis using zero by (simp add: spawned_start(1,2) writes_in_def acks_in_def left_over_def flying_def)
  next
    case tick
    have "known z'" by (rule new [of "[Tick]"]) (simp_all add: tick)
    then show ?thesis using zero by (simp add: tick(1,2) writes_in_def acks_in_def left_over_def)
  next
    case sweep_start
    have "known z'" by (rule new [of "[Sweep]"]) (simp_all add: sweep_start)
    then show ?thesis using zero by (simp add: sweep_start(1,2) writes_in_def acks_in_def left_over_def)
  next
    case (ack_start c' inb u k cl)
    have "known z'" by (rule new [of "ack_code k u"]) (simp_all add: ack_start ack_knows set_client_def)
    moreover have "flying (eng (base z)) c i \<le> flying (set_client c' cl (eng (base z))) c i + acks_in D z ev c i"
      using ack_start(1,4,5)
      by (auto simp: flying_def acks_in_def takeInflight_def set_client_def split: option.splits if_splits)
    ultimately show ?thesis using zero
      by (simp add: ack_start(1,2) writes_in_def left_over_def) (simp add: set_client_def)
  next
    case (purge_start H r g)
    then obtain l n where g: "g = (eng (base z))\<lparr>limiter := l, authFail := n\<rparr>" using purges_frame by blast
    have "known z'" by (rule new [of "[Purge]"]) (simp_all add: purge_start(2) g)
    then show ?thesis using zero by (simp add: purge_start(1,2) g writes_in_def acks_in_def left_over_def flying_def)
  next
    case (instr a j cs b M cs' g)
    have n: "next_cid g = ?n" using exec_registry [OF instr(5)] by (simp add: same_registry_upto_def)
    have kj: "knows j \<subseteq> {..<?n}" using K instr(3) by (simp add: known_def)
    have kc: "knows j' \<subseteq> {..<?n}" if "j' \<in> set cs'" for j' using exec_knows [OF instr(5) r that] kj by blast
    then have k': "known z'" using K by (auto simp: known_def instr(2,3) n)
    have w: "writes_in z ev c i = puts M (eng (base z)) c i j" by (simp add: writes_in_def instr(1,3))
    have x: "acks_in D z ev c i = 0" by (simp add: acks_in_def instr(1))
    have l: "left_over c i z = owes c i (concat a) + owed c i j + owes c i cs + owes c i (concat b)"
      "left_over c i z' = owes c i (concat a) + owes c i cs' + owes c i cs + owes c i (concat b)"
      by (simp_all add: left_over_def instr(2,3))
    have bal: "puts M (eng (base z)) c i j + owes c i cs' + flying (eng (base z)) c i \<le> owed c i j + flying g c i"
      by (rule exec_balance [OF instr(5)])
    have "puts M (eng (base z)) c i j = 0" if "\<not> c < ?n" using that kj by (cases j) auto
    moreover have "owes c i cs' = 0" if "\<not> c < ?n" using that kc by (intro owes_known) auto
    ultimately show ?thesis using k' n zero w x l bal by (auto simp: instr(2))
  qed
  then show "known z'" and "?n \<le> next_cid (eng (base z'))"
    and "c < ?n \<Longrightarrow> writes_in z ev c i + left_over c i z' + flying (eng (base z)) c i \<le>
           left_over c i z + flying (eng (base z')) c i + acks_in D z ev c i"
    and "\<not> c < ?n \<Longrightarrow> writes_in z ev c i = 0 \<and> left_over c i z' = 0" by blast+
qed

lemma tally_balance:
  assumes "deployment_ok D sinv box keep ainv" and "tally D f c i evs z w a" and "fine_ok sinv ainv f" and "threads f = []"
  shows "fine_ok sinv ainv z \<and> known z \<and>
    (if c < next_cid (eng (base z)) then w + left_over c i z \<le> a + flying (eng (base z)) c i else w = 0)"
  using assms(2)
proof (induction rule: tally.induct)
  case tally_init
  show ?case using assms(3,4) by (simp add: known_def left_over_def)
next
  case (tally_next evs z w a ev z')
  have ok: "fine_ok sinv ainv z" "known z" "reg_ok (eng (base z))"
    using tally_next.IH by (auto simp: fine_ok_def sys_inv_def sys_ok_def)
  note b = fine_step_balance [OF tally_next.hyps(2) ok(3,2)] and ok' = fine_step_ok [OF assms(1) tally_next.hyps(2) ok(1)]
  show ?case
  proof (cases "c < next_cid (eng (base z))")
    case True
    then show ?thesis using b(1,2) b(3) [OF True, of i] tally_next.IH ok' by auto
  next
    case False
    then show ?thesis using b(1,2) b(4) [OF False, of i] tally_next.IH ok' by auto
  qed
qed

text \<open>What takes an entry out of the table.\<close>

lemma fine_step_entry:
  assumes "deployment_ok D sinv box keep ainv" and "fine_ok sinv ainv z" and "fine_step D z ev z'"
    and "registered (eng (base z)) c" and f: "inflight (heap (eng (base z)) c) i = Some k"
    and n: "inflight (heap (eng (base z')) c) i \<noteq> Some k"
  shows "(\<exists>inb. ev = FAck inb c \<and> acks (dX D) (dflate D) inb c (eng (base z)) i) \<or>
    (\<exists>a l cs b M. ev = FRun (length a) M \<and> threads z = a @ (Clear l c i # cs) # b \<and> Shut l c \<in> set cs)"
proof -
  have r: "reg_ok (eng (base z))" using assms(2) by (auto simp: fine_ok_def sys_inv_def sys_ok_def)
  then have c: "c < next_cid (eng (base z))" using assms(4) reg_okD(5) [OF r] by (auto simp: registered_def)
  from assms(3) show ?thesis
  proof cases
    case (other e y)
    have "acked D (eng (base z)) e c = {}" using other(4) by (auto simp: acked_def apart_def)
    then show ?thesis using step_client_le [OF other(3) c] f n by (auto simp: other(2) client_le_def)
  next
    case (ack_start c' inb u k' cl)
    then show ?thesis using f n
      by (auto simp: takeInflight_def set_client_def split: option.splits if_splits)
  next
    case (purge_start H r g)
    then show ?thesis using purges_frame [OF purge_start(3)] f n by auto
  next
    case (instr a j cs b M cs' g)
    have "client_le (cleared j c) (heap (eng (base z)) c) (heap g c)"
      by (rule same_registry_heap [OF exec_registry [OF instr(5)]])
    then have "i \<in> cleared j c" using f n by (auto simp: instr(2) client_le_def)
    then obtain l where j: "j = Clear l c i" by (auto simp: cleared_def)
    have "tidy (j # cs)" using assms(2) instr(3) by (simp add: fine_ok_def)
    then show ?thesis using instr(1,3) by (auto simp: j)
  qed (use f n in simp_all)
qed

lemma fine_run_ok:
  assumes "deployment_ok D sinv box keep ainv" and "fine_run D f evs z" and "fine_ok sinv ainv f"
  shows "fine_ok sinv ainv z"
  using assms(2,3) by (induction rule: fine_run.induct) (blast intro: fine_step_ok [OF assms(1)])+

text \<open>C17: No message is sent twice without an acknowledgement. In every execution, whatever the interleaving of
  flushes, acknowledgements and failing writes, the frames of one message id that have been written to one
  connection are at most as many as the acknowledgements of this id that were read from this connection,
  and one more while the id is in flight there.\<close>

theorem sent_once:
  assumes "deployment_ok D sinv box keep ainv" and "sys_inv sinv ainv y"
    and "tally D \<lparr>base = y, threads = [], held = {}\<rparr> c i evs z w a"
  shows "w \<le> a + (if inflight (heap (eng (base z)) c) i = None then 0 else 1)"
proof -
  have "fine_ok sinv ainv \<lparr>base = y, threads = [], held = {}\<rparr>" using assms(2) by (simp add: fine_ok_def)
  from tally_balance [OF assms(1,3) this] show ?thesis by (auto simp: flying_def split: if_splits)
qed

text \<open>C18: What is in flight on a connection stays in flight until it is acknowledged there, or the connection is
  given up: if a step, or an instruction of any goroutine, takes an id out of the in-flight table of a
  registered connection, then it is a frame read from this connection that acknowledges the id, or an
  instruction of a goroutine that has the closing of this connection ahead.\<close>

theorem inflight_leaves:
  assumes "deployment_ok D sinv box keep ainv" and "sys_inv sinv ainv y"
    and "fine_run D \<lparr>base = y, threads = [], held = {}\<rparr> evs z" and "fine_step D z ev z'"
    and "registered (eng (base z)) c" and "inflight (heap (eng (base z)) c) i = Some k"
    and "inflight (heap (eng (base z')) c) i \<noteq> Some k"
  shows "(\<exists>inb. ev = FAck inb c \<and> acks (dX D) (dflate D) inb c (eng (base z)) i) \<or>
    (\<exists>a l cs b M. ev = FRun (length a) M \<and> threads z = a @ (Clear l c i # cs) # b \<and> Shut l c \<in> set cs)"
proof -
  have "fine_ok sinv ainv \<lparr>base = y, threads = [], held = {}\<rparr>" using assms(2) by (simp add: fine_ok_def)
  from fine_step_entry [OF assms(1) fine_run_ok [OF assms(1,3) this] assms(4-7)] show ?thesis .
qed

end
