(* ===== verification/Scenario.thy ===== *)
theory Scenario
  imports Reliable
begin

text \<open>
  A concrete gateway for the examples: the in-process storage, the dummy authorizer, and a small
  instance of the libraries that recognises two bodies and one UUID.
\<close>

definition demo_X :: externs where
  "demo_X =
     \<lparr>json_decode = (\<lambda>b. if b = ''pub'' then Some (JObj [(''key'', JStr ''k''), (''value'', JBool True)])
                       else if b = ''ack'' then Some (JObj [(''id'', JStr ''u'')])
                       else if b = ''null'' then Some JNull else None),
      json_encode = (\<lambda>j. Some ''frame''),
      uuid_Parse = (\<lambda>s. if s = ''u'' then Some 7 else None), uuid_String = (\<lambda>u. ''u''),
      time_text = (\<lambda>t. Some ''t''), time_parse = (\<lambda>s. None)\<rparr>"

definition demo_cfg :: Config where
  "demo_cfg = (build_config [])
     \<lparr>Workers := 1, InsecureNoAuth := True, DefaultExpire := ''30m'', AuthURL := ''k'',
      StorageEngine := ''memory'', AuthorizerEngine := ''dummy'', MaxMessageBytes := 100\<rparr>"

definition demo_msg :: Message where
  "demo_msg = zero_Message\<lparr>msg_id := 7, Key := ''k'', Value := JBool True, Expire := ''30m''\<rparr>"

abbreviation demo_S :: "MemoryStorage Storage" where
  "demo_S \<equiv> MemoryStorage_methods (\<lambda>ks. ks)"

definition demo_D :: "(MemoryStorage, DummyAuthorizer) deployment" where
  "demo_D = \<lparr>dS = demo_S, dA = DummyAuthorizer_methods, dX = demo_X, dflate = (\<lambda>b. ([], False)),
             drender = (\<lambda>ms. []), dver = ([], [], []), dext = (\<lambda>s s'. False)\<rparr>"

text \<open>What \<^verbatim>\<open>Start\<close> builds from this configuration.\<close>

definition demo_g :: "(MemoryStorage, DummyAuthorizer) goctopus" where
  "demo_g =
     \<lparr>Conns = [], patterns = [], store = \<lparr>storage_map = []\<rparr>, authz = \<lparr>d_keys = [''k'']\<rparr>,
      heap = (\<lambda>_. newClient [] 0 False), next_cid = 0, config = demo_cfg, limiter = None,
      history = None, work = [], work_cap = 256, spawned = [], cancelled = False,
      received = 0, delivered = 0, expired = 0, authFail = 0, delivery = [], keysVal = 0, keysAt = None\<rparr>"

text \<open>The same with one message queued under \<open>k\<close>, and with a connection under \<open>k\<close>.\<close>

definition demo_q :: "(MemoryStorage, DummyAuthorizer) goctopus" where
  "demo_q = demo_g\<lparr>store := \<lparr>storage_map = [(''k'', [demo_msg])]\<rparr>\<rparr>"

definition demo_c :: "(MemoryStorage, DummyAuthorizer) goctopus" where
  "demo_c = demo_q\<lparr>Conns := [(''k'', [0])], heap := (\<lambda>_. newClient [''k''] 0 False), next_cid := 1\<rparr>"

definition demo_env :: send_env where
  "demo_env = \<lparr>se_ord = (\<lambda>ks. ks), se_now = (\<lambda>_. 5), se_wnow = (\<lambda>_ _. 5), se_ok = (\<lambda>_ _. True),
               se_since = (\<lambda>_ _. 5)\<rparr>"

lemma demo_contract: "storage_contract demo_S mem_inv mem_box Some"
  by (rule mem.storage_contract_axioms)

lemma demo_authorizer: "authorizer DummyAuthorizer_methods (\<lambda>d. good_keys (d_keys d))"
  by (rule dummy.authorizer_axioms)

lemma demo_ok: "deployment_ok demo_D mem_inv mem_box Some (\<lambda>d. good_keys (d_keys d))"
  using demo_contract demo_authorizer by (simp add: deployment_ok_def demo_D_def)

lemma demo_store [simp]: "mem_inv (store demo_g)" "mem_inv (store demo_q)" "mem_inv (store demo_c)"
  by (auto simp: demo_g_def demo_q_def demo_c_def mem_inv_def gm_ok_def)

lemma demo_reg [simp]: "reg_ok demo_g" "reg_ok demo_q" "reg_ok demo_c"
  by (auto simp: demo_g_def demo_q_def demo_c_def reg_ok_def gm_ok_def gm_list_def newClient_def hasWildcard_def
      ContainsAny_def split: if_splits)

lemma demo_fields [simp]:
  "\<not> registered demo_g c" "\<not> registered demo_q c" "good_keys (d_keys (authz demo_g))"
  "good_keys (d_keys (authz demo_q))"
  by (simp_all add: registered_def demo_q_def demo_g_def good_keys_def)

lemma demo_inv [simp]:
  "sys_inv mem_inv (\<lambda>d. good_keys (d_keys d)) \<lparr>eng = demo_g, readers = {}, pingers = {}, loops = all_loops\<rparr>"
  "sys_inv mem_inv (\<lambda>d. good_keys (d_keys d)) \<lparr>eng = demo_q, readers = {}, pingers = {}, loops = all_loops\<rparr>"
  by (simp_all add: sys_inv_def sys_ok_def)

lemma demo_box: "mem_box (store demo_q) ''k'' 7 = Some demo_msg"
  by (simp add: mem_box_def demo_q_def gm_list_def demo_msg_def)

lemma demo_not_expired: "\<not> isExpired 5 demo_msg"
  by (simp add: isExpired_def demo_msg_def zero_Message_def time_Sub_def ParseDuration_eval)

end
