(* ===== verification/Races.thy ===== *)
theory Races
  imports Provenance Drain Once Scenario
begin

text \<open>
  A race that the code leaves open, as an execution of the concrete gateway: a sweep deletes by id what it
  found expired, and between its look at the queue and its delete a message with the same id can be
  published again. It shows that the reasons of \<open>Provenance\<close> are the best that holds.
\<close>

text \<open>The queue of \<open>k\<close> holds a message that expired a minute ago; a publish of the same id, just accepted, is
  in the work queue.\<close>

definition demo_fresh :: Message where
  "demo_fresh = demo_msg\<lparr>date := 31 * minute\<rparr>"

definition demo_late :: micro where
  "demo_late = \<lparr>mi_now = 31 * minute, mi_ok = True, mi_ord = \<lambda>ks. ks\<rparr>"

abbreviation demo_racing :: "(MemoryStorage, DummyAuthorizer) fine" where
  "demo_racing \<equiv> \<lparr>base = \<lparr>eng = demo_q\<lparr>work := [PostTask demo_fresh [''k'']]\<rparr>, readers = {}, pingers = {},
     loops = all_loops\<rparr>, threads = [], held = {}\<rparr>"

abbreviation demo_race :: "fine_event list" where
  "demo_race \<equiv> [FSweep, FRun 0 demo_late, FRun 0 demo_late, FRun 0 demo_late, FWorker, FRun 1 demo_late]"

lemma demo_racing_ok: "sys_inv mem_inv (\<lambda>d. good_keys (d_keys d)) (base demo_racing)"
  using sys_inv_upto [OF demo_inv(2) same_registry_update(2), of "[PostTask demo_fresh [''k'']]"] demo_store(2) by simp

lemma demo_expiry: "isExpired (31 * minute) demo_msg" "\<not> isExpired (31 * minute) demo_fresh"
  by (simp_all add: isExpired_def demo_fresh_def demo_msg_def zero_Message_def time_Sub_def ParseDuration_eval)

text \<open>The sweep reads the old message and finds it expired, the worker stores the new one, and the sweep goes
  on to its delete.\<close>

lemma demo_stale:
  obtains z z' cs ts where "fine_run demo_D demo_racing demo_race z" and "fine_step demo_D z (FRun 0 demo_late) z'"
    and "threads z = (Drop ''k'' 7 # cs) # ts"
    and "mem_box (store (eng (base z))) ''k'' 7 = Some demo_fresh" and "mem_box (store (eng (base z'))) ''k'' 7 = None"
proof -
  let ?g = "\<lambda>w q. demo_q\<lparr>work := w, store := \<lparr>storage_map = q\<rparr>\<rparr>"
  let ?z = "\<lambda>w q ts. \<lparr>base = \<lparr>eng = ?g w q, readers = {}, pingers = {}, loops = all_loops\<rparr>, threads = ts, held = {}\<rparr>"
  let ?w = "[PostTask demo_fresh [''k'']]" and ?old = "[(''k'', [demo_msg])]" and ?new = "[(''k'', [demo_fresh])]"
  let ?p = "[Remember demo_fresh, Announce ''k''] @ flush_code ''k''"
  note D = demo_D_def demo_late_def MemoryStorage_methods_def
  have id: "msg_id demo_msg = 7" "msg_id demo_fresh = 7" "Key demo_fresh = ''k''" "demo_fresh\<lparr>Key := ''k''\<rparr> = demo_fresh"
    by (simp_all add: demo_fresh_def demo_msg_def)
  have r0: "demo_racing = ?z ?w ?old []" by (simp add: demo_q_def demo_g_def)
  have ks: "get_keys demo_S (?g w q) = (Inr (gm_keys q), ?g w q)" for w q
    by (simp add: get_keys_def mem_GetKeys_def MemoryStorage_methods_def)
  have qs: "getMsgQueue demo_S k (?g w q) = (Inr (gm_list q k), ?g w q)" for w q k
    by (simp add: getMsgQueue_def mem_GetQueue_def MemoryStorage_methods_def gm_list_def)
  have sw: "g\<lparr>store := a, work := b\<rparr> = g\<lparr>work := b, store := a\<rparr>" for g :: "('x, 'y) goctopus" and a b
    by (cases g) simp
  have 1: "fine_run demo_D demo_racing [FSweep] (?z ?w ?old [[Sweep]])"
    unfolding r0 using fine_next [OF fine_init sweep_start [of "?z ?w ?old []" demo_D]] by simp
  have 2: "fine_run demo_D demo_racing (take 2 demo_race) (?z ?w ?old [[SweepKey ''k'', Trim]])"
    using fine_run1 [OF 1 _ _ surjective_pairing, of Sweep "[]" demo_late] ks by (simp add: demo_D_def)
  have 3: "fine_run demo_D demo_racing (take 3 demo_race) (?z ?w ?old [[Expiry ''k'' [demo_msg] 0, Trim]])"
    using fine_run1 [OF 2 _ _ surjective_pairing, of "SweepKey ''k''" "[Trim]" demo_late] qs by (simp add: demo_D_def gm_list_def)
  have 4: "fine_run demo_D demo_racing (take 4 demo_race) (?z ?w ?old [[Drop ''k'' 7, Expiry ''k'' [] 1, Trim]])"
    using fine_run1 [OF 3 _ _ surjective_pairing, of "Expiry ''k'' [demo_msg] 0" "[Trim]" demo_late] demo_expiry(1)
    by (simp add: demo_late_def id)
  let ?s = "[Drop ''k'' 7, Expiry ''k'' [] 1, Trim]"
  have 5: "fine_run demo_D demo_racing (take 5 demo_race) (?z [] ?old [?s, Queue demo_fresh # ?p])"
    using fine_next [OF 4 work_start [of "?z ?w ?old [?s]" "PostTask demo_fresh [''k'']" "[]" demo_D]] by (simp add: id sw)
  have e: "exec (dS demo_D) (dX demo_D) demo_late (Queue demo_fresh) (?g [] ?old) = ([], ?g [] ?new)"
    by (simp add: demo_D_def queueMessage_def MemoryStorage_methods_def mem_AddMessage_def id gm_list_def)
  have 6: "fine_run demo_D demo_racing demo_race (?z [] ?new [?s, ?p])"
    using fine_next [OF 5 instr [of "?z [] ?old [?s, Queue demo_fresh # ?p]" "[?s]" "Queue demo_fresh" ?p "[]"]] e by simp
  have d: "exec (dS demo_D) (dX demo_D) demo_late (Drop ''k'' 7) (?g [] ?new) = ([], ?g [] [])"
    by (simp add: demo_D_def deleteMsgById_def MemoryStorage_methods_def mem_DeleteMessage_def id gm_list_def)
  have 7: "fine_step demo_D (?z [] ?new [?s, ?p]) (FRun 0 demo_late) (?z [] [] [[Expiry ''k'' [] 1, Trim], ?p])"
    using instr [of "?z [] ?new [?s, ?p]" "[]" "Drop ''k'' 7" "[Expiry ''k'' [] 1, Trim]" "[?p]" demo_D demo_late] d by simp
  show thesis by (rule that [OF 6 7]) (simp_all add: mem_box_def gm_list_def id)
qed


text \<open>So an unexpired message is deleted by a sweep.\<close>

lemma sweep_clobbers:
  "\<exists>evs z n M z'. fine_run demo_D demo_racing evs z \<and> fine_step demo_D z (FRun n M) z' \<and>
     mem_box (store (eng (base z))) ''k'' 7 = Some demo_fresh \<and> \<not> isExpired (mi_now M) demo_fresh \<and>
     mem_box (store (eng (base z'))) ''k'' 7 = None"
proof -
  obtain z z' cs ts where "fine_run demo_D demo_racing demo_race z" "fine_step demo_D z (FRun 0 demo_late) z'"
    "mem_box (store (eng (base z))) ''k'' 7 = Some demo_fresh" "mem_box (store (eng (base z'))) ''k'' 7 = None"
    by (rule demo_stale)
  moreover have "\<not> isExpired (mi_now demo_late) demo_fresh" using demo_expiry(2) by (simp add: demo_late_def)
  ultimately show ?thesis by blast
qed

end
