(* ===== verification/Process.thy ===== *)
theory Process
  imports Lifecycle Scenario
begin

text \<open>
  The life of the server process after \<^verbatim>\<open>Start\<close>, \<^verbatim>\<open>main\<close> of
  \<^verbatim>\<open>src/main.go\<close>: the main goroutine serves until the listener fails or is
  closed and then waits for \<^verbatim>\<open>idleClosed\<close>; a second goroutine waits for a signal,
  shuts the listener down, stops the gateway and closes \<^verbatim>\<open>idleClosed\<close>. The
  gateway itself goes on in between, one step of the system at a time.
\<close>

subsection \<open>Stopping the gateway\<close>

lemma close_client_closed: "close_client cl = cl\<lparr>is_closed := True\<rparr>"
  by (cases cl) (simp add: close_client_def)

lemma close_all_heap:
  "heap (fold (\<lambda>c g. set_client c (close_client (heap g c)) g) cs g) =
     (\<lambda>c. if c \<in> set cs then close_client (heap g c) else heap g c)"
  by (induction cs arbitrary: g) (auto simp: set_client_def fun_eq_iff close_client_closed)

lemma close_all_frame:
  "fold (\<lambda>c g. set_client c (close_client (heap g c)) g) cs g =
     g\<lparr>heap := heap (fold (\<lambda>c g. set_client c (close_client (heap g c)) g) cs g)\<rparr>"
proof (induction cs arbitrary: g)
  case (Cons c cs)
  show ?case by (simp, subst Cons.IH) (simp add: set_client_def)
qed simp

lemma Stop_cancelled: "cancelled (Stop g)"
  unfolding Stop_def Let_def by (subst close_all_frame) simp

lemma registered_listed: "gm_ok (Conns g) \<Longrightarrow> c \<in> set (concat (map snd (Conns g))) \<longleftrightarrow> registered g c"
  unfolding registered_def gm_list_def gm_ok_def set_concat set_map
  by (auto simp: map_of_eq_Some_iff split: option.splits) force+

text \<open>\<^verbatim>\<open>Stop\<close> cancels the context and closes every registered connection, whatever
  the order of the registry and however many keys list it, and changes nothing else.\<close>

lemma stop_exact:
  assumes "reg_ok g"
  shows "Stop g = g\<lparr>cancelled := True,
    heap := \<lambda>c. if registered g c then (heap g c)\<lparr>is_closed := True\<rparr> else heap g c\<rparr>"
proof -
  have ok: "gm_ok (Conns (g\<lparr>cancelled := True\<rparr>))" using assms by (simp add: reg_ok_def)
  have r: "registered (g\<lparr>cancelled := True\<rparr>) c = registered g c" for c by (simp add: registered_def)
  have h: "heap (g\<lparr>cancelled := True\<rparr>) = heap g" by simp
  have "Stop g = g\<lparr>cancelled := True, heap := heap (Stop g)\<rparr>"
    unfolding Stop_def Let_def by (subst close_all_frame) simp
  moreover have "heap (Stop g) = (\<lambda>c. if registered g c then (heap g c)\<lparr>is_closed := True\<rparr> else heap g c)"
    unfolding Stop_def Let_def close_all_heap registered_listed [OF ok] r h unfolding close_client_closed ..
  ultimately show ?thesis by simp
qed

subsection \<open>The process\<close>

datatype main_pc = Serving | WaitIdle | Exited nat

datatype signal_pc = AwaitSignal | ShuttingDown | Stopping | Closing | SignalDone

record ('s, 'a) process =
  gateway :: "('s, 'a) sys"
  main_at :: main_pc
  signal_at :: signal_pc
  idleClosed :: bool

text \<open>\<open>PServe\<close> is a step of the gateway (all its steps but \<^verbatim>\<open>Stop\<close>, which only the
  signal goroutine calls); \<open>PListenError\<close> and \<open>PListenClosed\<close> are the two ways
  \<^verbatim>\<open>ListenAndServe\<close> returns: with \<^verbatim>\<open>ErrServerClosed\<close> only once
  \<^verbatim>\<open>Shutdown\<close> has been called. \<^verbatim>\<open>Shutdown\<close> may give up after ten
  seconds: what handlers are still running then go on.\<close>

datatype process_event = PServe event | PListenError | PListenClosed | PSignal | PShutdown | PStop | PCloseIdle | PExit

fun running :: "main_pc \<Rightarrow> bool" where
  "running (Exited n) = False"
| "running pc = True"

inductive process_step :: "('s, 'a) deployment \<Rightarrow> ('s, 'a) process \<Rightarrow> process_event \<Rightarrow> ('s, 'a) process \<Rightarrow> bool"
  for D :: "('s, 'a) deployment" where
  serve: "running (main_at p) \<Longrightarrow> step D (gateway p) ev y \<Longrightarrow> ev \<noteq> EvStop \<Longrightarrow>
     process_step D p (PServe ev) (p\<lparr>gateway := y\<rparr>)"
| listen_error: "main_at p = Serving \<Longrightarrow> process_step D p PListenError (p\<lparr>main_at := Exited 1\<rparr>)"
| listen_closed: "main_at p = Serving \<Longrightarrow> signal_at p \<noteq> AwaitSignal \<Longrightarrow>
     process_step D p PListenClosed (p\<lparr>main_at := WaitIdle\<rparr>)"
| signalled: "running (main_at p) \<Longrightarrow> signal_at p = AwaitSignal \<Longrightarrow>
     process_step D p PSignal (p\<lparr>signal_at := ShuttingDown\<rparr>)"
| shutdown: "running (main_at p) \<Longrightarrow> signal_at p = ShuttingDown \<Longrightarrow>
     process_step D p PShutdown (p\<lparr>signal_at := Stopping\<rparr>)"
| stop_app: "running (main_at p) \<Longrightarrow> signal_at p = Stopping \<Longrightarrow> step D (gateway p) EvStop y \<Longrightarrow>
     process_step D p PStop (p\<lparr>gateway := y, signal_at := Closing\<rparr>)"
| close_idle: "running (main_at p) \<Longrightarrow> signal_at p = Closing \<Longrightarrow>
     process_step D p PCloseIdle (p\<lparr>signal_at := SignalDone, idleClosed := True\<rparr>)"
| exit: "main_at p = WaitIdle \<Longrightarrow> idleClosed p \<Longrightarrow> process_step D p PExit (p\<lparr>main_at := Exited 0\<rparr>)"

inductive process_run :: "('s, 'a) deployment \<Rightarrow> ('s, 'a) process \<Rightarrow> process_event list \<Rightarrow> ('s, 'a) process \<Rightarrow> bool"
  for D :: "('s, 'a) deployment" and p :: "('s, 'a) process" where
  process_init: "process_run D p [] p"
| process_next: "process_run D p evs q \<Longrightarrow> process_step D q ev q' \<Longrightarrow> process_run D p (evs @ [ev]) q'"

definition boot :: "('s, 'a) goctopus \<Rightarrow> ('s, 'a) process" where
  "boot g0 = \<lparr>gateway = \<lparr>eng = g0, readers = {}, pingers = {}, loops = all_loops\<rparr>, main_at = Serving,
              signal_at = AwaitSignal, idleClosed = False\<rparr>"

text \<open>From the command line to serving: \<open>Booted\<close> with whether
  \<^verbatim>\<open>validateConfig\<close> printed its warning; \<open>Finished\<close> is an exit code (of a
  configuration file that cannot be read, or of the health check, whose probe is an argument).\<close>

datatype ('s, 'a) main_outcome = UsageShown | Finished int | Panicked error | Booted bool "('s, 'a) process"

definition main_boot :: "(storage_kind \<Rightarrow> Config \<Rightarrow> error + 's) \<Rightarrow> (authorizer_kind \<Rightarrow> Config \<Rightarrow> error + 'a) \<Rightarrow>
    env \<Rightarrow> (string \<Rightarrow> error + (string \<times> yaml_val) list) \<Rightarrow> (string \<Rightarrow> error + nat) \<Rightarrow> string list \<Rightarrow>
    ('s, 'a) main_outcome" where
  "main_boot initS initA env yaml probe args =
     (case main_startup env yaml args of
        Usage \<Rightarrow> UsageShown
      | FatalExit e \<Rightarrow> Finished 1
      | Healthcheck p \<Rightarrow> Finished (runHealthcheck (probe p))
      | StartPanic e \<Rightarrow> Panicked e
      | Run cfg \<Rightarrow>
          (case Start initS initA cfg of
             Inl e \<Rightarrow> Panicked e
           | Inr g \<Rightarrow> Booted (validateConfig cfg) (boot g)))"

lemma main_boot_Booted:
  assumes "main_boot initS initA env yaml probe args = Booted w p"
    and "\<forall>kind cfg s. initS kind cfg = Inr s \<longrightarrow> sinv s" and "\<forall>kind cfg a. AuthURL cfg \<noteq> [] \<longrightarrow> initA kind cfg = Inr a \<longrightarrow> ainv a"
  obtains g0 where "p = boot g0" "main_startup env yaml args = Run (config g0)"
    "sys_inv sinv ainv \<lparr>eng = g0, readers = {}, pingers = {}, loops = all_loops\<rparr>"
proof -
  obtain cfg g0 where g: "main_startup env yaml args = Run cfg" "Start initS initA cfg = Inr g0" "p = boot g0"
    using assms(1) by (auto simp: main_boot_def split: startup.splits sum.splits)
  have "AuthURL cfg \<noteq> []"
    using g(1) by (auto simp: main_startup_def build_config_def Let_def split: option.splits sum.splits if_splits)
  then have "sys_inv sinv ainv \<lparr>eng = g0, readers = {}, pingers = {}, loops = all_loops\<rparr> \<and> config g0 = cfg"
    using assms(2,3) by (intro Start_inv [OF g(2)]) blast+
  then show ?thesis using that g by simp
qed

text \<open>The steps of the gateway that an execution of the process contains.\<close>

fun gateway_events :: "process_event \<Rightarrow> event list" where
  "gateway_events (PServe ev) = [ev]"
| "gateway_events PStop = [EvStop]"
| "gateway_events ev = []"

lemma process_gateway:
  assumes "process_run D p evs q"
  shows "run D (gateway p) (concat (map gateway_events evs)) (gateway q)"
  using assms
proof induction
  case (process_next evs q ev q')
  from process_next(2) show ?case
    by cases (use process_next.IH in \<open>auto intro: run.run_step\<close>)
qed (simp add: run.run_init)

subsection \<open>Shutting down\<close>

text \<open>The context is never revived.\<close>

lemma step_cancelled:
  assumes "step D y ev y'" and "cancelled (eng y)"
  shows "cancelled (eng y')"
proof -
  have same: ?thesis if "same_registry_upto A (eng y) (eng y')" for A
    using that assms(2) unfolding same_registry_upto_def by simp
  from assms(1) show ?thesis
  proof cases
    case (http H r rep g')
    from http(3) have "cancelled g'"
    proof (cases rule: ServeHTTP_cases)
      case api
      then have "same_registry (eng y) g'" by (intro handleHTTP_registry)
      then show ?thesis using assms(2) unfolding same_registry_upto_def by simp
    next
      case probe
      then show ?thesis by (subst probe(2) [unfolded probe_only_def, THEN conjunct1]) (simp add: assms(2))
    next
      case ws
      from ws(2) show ?thesis using assms(2)
        by (cases rule: handleWs_cases) (auto simp: accept_conn_frame)
    qed
    then show ?thesis by (simp add: http)
  next
    case (frame x now ok inb goes_on g')
    obtain b1 g1 where body: "readLoop_body (dS D) (dX D) (dflate D) now ok inb x (eng y) = (b1, g1)" by fastforce
    have "cancelled g1" using readLoop_body_registry [OF body] assms(2) unfolding same_registry_upto_def by simp
    then show ?thesis using frame(4) body
      by (auto simp: frame(2) readLoop_step_def removeClient_frame split: if_splits)
  next
    case (ping x e goes_on g')
    have "same_registry (eng y) (eng y')" by (simp add: ping pingLoop_registry [OF ping(6)])
    then show ?thesis by (rule same)
  next
    case (notified e goes_on g')
    have "same_registry (eng y) (eng y')" by (simp add: notified notified_registry [OF notified(6)])
    then show ?thesis by (rule same)
  qed (use same [of "\<lambda>_. {}"] assms(2) in \<open>simp_all add: worker_registry run_spawned_registry reconcile_registry
    sweepExpired_registry Stop_registry\<close>)
qed

lemma stop_cancels: "step D y EvStop y' \<Longrightarrow> cancelled (eng y')"
  by (erule step_cases) (simp_all add: Stop_cancelled)

text \<open>What an execution that has run \<^verbatim>\<open>Stop\<close> looks like: a signal came first, the context is
  cancelled, and the connections that were registered then are closed.\<close>

definition stopped :: "('s, 'a) deployment \<Rightarrow> ('s, 'a) process \<Rightarrow> process_event list \<Rightarrow> ('s, 'a) process \<Rightarrow> bool" where
  "stopped D p0 evs p \<longleftrightarrow> (\<exists>e1 e2 q. evs = e1 @ PStop # e2 \<and> PSignal \<in> set e1 \<and> process_run D p0 e1 q \<and>
     cancelled (eng (gateway p)) \<and>
     (\<forall>c. registered (eng (gateway q)) c \<longrightarrow> c < next_cid (eng (gateway p)) \<and> is_closed (heap (eng (gateway p)) c)))"

lemma stopped_gateway:
  assumes "stopped D p0 evs p" and "gateway p' = gateway p \<or> (\<exists>ev. step D (gateway p) ev (gateway p'))"
  shows "stopped D p0 (evs @ [pe]) p'"
proof -
  obtain e1 e2 q where q: "evs = e1 @ PStop # e2" "PSignal \<in> set e1" "process_run D p0 e1 q"
    "cancelled (eng (gateway p))"
    "\<And>c. registered (eng (gateway q)) c \<Longrightarrow> c < next_cid (eng (gateway p)) \<and> is_closed (heap (eng (gateway p)) c)"
    using assms(1) unfolding stopped_def by blast
  have "cancelled (eng (gateway p'))" using assms(2) q(4) step_cancelled by metis
  moreover have "c < next_cid (eng (gateway p')) \<and> is_closed (heap (eng (gateway p')) c)"
    if c: "registered (eng (gateway q)) c" for c
    using assms(2)
  proof
    assume "\<exists>ev. step D (gateway p) ev (gateway p')"
    then obtain ev where "step D (gateway p) ev (gateway p')" ..
    from step_client_le [OF this, of c] show ?thesis using q(5) [OF c] by (auto simp: client_le_def)
  qed (use q(5) [OF c] in simp)
  moreover have "evs @ [pe] = e1 @ PStop # (e2 @ [pe])" by (simp add: q(1))
  ultimately show ?thesis using q(2,3) unfolding stopped_def by blast
qed

lemma stopped_now:
  assumes "reg_ok (eng (gateway p))" and "process_run D p0 evs p" and "PSignal \<in> set evs"
    and "step D (gateway p) EvStop (gateway p')"
  shows "stopped D p0 (evs @ [PStop]) p'"
proof -
  have e: "eng (gateway p') = Stop (eng (gateway p))" using assms(4) by (rule step_cases) auto
  have "c < next_cid (eng (gateway p'))" "is_closed (heap (eng (gateway p')) c)"
    if "registered (eng (gateway p)) c" for c
    using that assms(1) unfolding e stop_exact [OF assms(1)]
    by (auto simp: registered_def dest: reg_okD(5))
  then show ?thesis using assms(2,3) stop_cancels [OF assms(4)] unfolding stopped_def by blast
qed

text \<open>Where the two goroutines can be, after these events.\<close>

definition stages :: "process_event list \<Rightarrow> ('s, 'a) process \<Rightarrow> bool" where
  "stages evs p \<longleftrightarrow> (signal_at p = AwaitSignal \<longleftrightarrow> PSignal \<notin> set evs) \<and>
     (idleClosed p \<longleftrightarrow> signal_at p = SignalDone) \<and> (main_at p = WaitIdle \<longrightarrow> signal_at p \<noteq> AwaitSignal) \<and>
     (main_at p = Exited 0 \<longrightarrow> idleClosed p)"

lemma process_stages: "process_run D (boot g0) evs p \<Longrightarrow> stages evs p"
proof (induction rule: process_run.induct)
  case (process_next evs q ev q')
  from process_next(2) show ?case
    by cases (use process_next.IH in \<open>auto simp: stages_def\<close>)
qed (simp add: stages_def boot_def)

lemma process_stopped:
  assumes "deployment_ok D sinv box keep ainv"
    and "sys_inv sinv ainv \<lparr>eng = g0, readers = {}, pingers = {}, loops = all_loops\<rparr>"
    and "process_run D (boot g0) evs p"
  shows "signal_at p \<in> {Closing, SignalDone} \<longrightarrow> stopped D (boot g0) evs p"
  using assms(3)
proof (induction rule: process_run.induct)
  case (process_next evs q ev q')
  have st: "stages evs q" by (rule process_stages [OF process_next(1)])
  have "run D \<lparr>eng = g0, readers = {}, pingers = {}, loops = all_loops\<rparr> (concat (map gateway_events evs)) (gateway q)"
    using process_gateway [OF process_next(1)] by (simp add: boot_def)
  then have "reach D g0 (gateway q)" using reach_run by blast
  then have ok: "reg_ok (eng (gateway q))" using reach_inv [OF assms(1) _ assms(2)] by (simp add: sys_inv_def sys_ok_def)
  from process_next(2) show ?case
  proof cases
    case (stop_app y)
    then have "stopped D (boot g0) (evs @ [PStop]) q'"
      using st by (intro stopped_now [OF ok process_next(1)]) (auto simp: stages_def)
    then show ?thesis by (simp add: stop_app)
  qed (use process_next.IH in \<open>auto intro!: stopped_gateway\<close>)
qed (simp add: boot_def)

text \<open>C36: The server exits cleanly only through a shutdown. In every execution of the process that ends with
  status 0, a signal came before \<^verbatim>\<open>Stop\<close>, and at the end the context is cancelled and
  every connection that was registered when \<^verbatim>\<open>Stop\<close> ran is closed, whatever handlers
  and tasks did meanwhile.\<close>

theorem graceful_exit:
  assumes "deployment_ok D sinv box keep ainv"
    and "\<forall>kind cfg s. initS kind cfg = Inr s \<longrightarrow> sinv s" and "\<forall>kind cfg a. AuthURL cfg \<noteq> [] \<longrightarrow> initA kind cfg = Inr a \<longrightarrow> ainv a"
    and "main_boot initS initA env yaml probe args = Booted w p0"
    and "process_run D p0 evs p" and "main_at p = Exited 0"
  shows "\<exists>e1 e2 q. evs = e1 @ PStop # e2 \<and> PSignal \<in> set e1 \<and> process_run D p0 e1 q \<and>
    cancelled (eng (gateway p)) \<and>
    (\<forall>c. registered (eng (gateway q)) c \<longrightarrow> is_closed (heap (eng (gateway p)) c))"
proof -
  obtain g0 where p0: "p0 = boot g0"
    and i: "sys_inv sinv ainv \<lparr>eng = g0, readers = {}, pingers = {}, loops = all_loops\<rparr>"
    by (rule main_boot_Booted [OF assms(4,2,3)])
  have r: "process_run D (boot g0) evs p" using assms(5) by (simp add: p0)
  have "stages evs p" using r by (rule process_stages)
  then have "signal_at p \<in> {Closing, SignalDone}" using assms(6) by (auto simp: stages_def)
  then have "stopped D (boot g0) evs p" using process_stopped [OF assms(1) i r] by blast
  then show ?thesis unfolding stopped_def p0 by blast
qed

text \<open>The steps of \<^verbatim>\<open>main\<close> and of the signal goroutine, and how many are left.\<close>

fun own :: "process_event \<Rightarrow> bool" where
  "own (PServe ev) = False"
| "own pe = True"

fun main_left :: "main_pc \<Rightarrow> nat" where
  "main_left Serving = 2"
| "main_left WaitIdle = 1"
| "main_left (Exited n) = 0"

fun signal_left :: "signal_pc \<Rightarrow> nat" where
  "signal_left AwaitSignal = 4"
| "signal_left ShuttingDown = 3"
| "signal_left Stopping = 2"
| "signal_left Closing = 1"
| "signal_left SignalDone = 0"

lemma process_left:
  assumes "process_run D p evs q"
  shows "length (filter own evs) + main_left (main_at q) + signal_left (signal_at q)
    \<le> main_left (main_at p) + signal_left (signal_at p)"
  using assms
proof induction
  case (process_next evs q ev q')
  from process_next(2) show ?case
    by cases (use process_next.IH in auto)
qed simp

text \<open>C37: The shutdown ends. In every execution \<^verbatim>\<open>main\<close> and the signal goroutine take at
  most six steps; after a signal, as long as the process has not exited, one of them can take its next
  step, whatever the gateway is doing; and after the exit nothing happens any more.\<close>

theorem shutdown_terminates:
  assumes "process_run D (boot g0) evs p"
  shows "length (filter own evs) \<le> 6 \<and>
    (PSignal \<in> set evs \<and> running (main_at p) \<longrightarrow>
      (\<exists>pe p'. pe \<noteq> PListenError \<and> own pe \<and> process_step D p pe p')) \<and>
    (\<not> running (main_at p) \<longrightarrow> (\<forall>pe p'. \<not> process_step D p pe p'))"
proof (intro conjI impI)
  show "length (filter own evs) \<le> 6" using process_left [OF assms] by (simp add: boot_def)
  have st: "stages evs p" using assms by (rule process_stages)
  show "\<exists>pe p'. pe \<noteq> PListenError \<and> own pe \<and> process_step D p pe p'"
    if a: "PSignal \<in> set evs \<and> running (main_at p)"
  proof (cases "signal_at p")
    case Stopping
    then show ?thesis using stop_app [OF _ Stopping step.stop] a by fastforce
  next
    case SignalDone
    then show ?thesis using st a exit [of p D] listen_closed [of p D]
      by (cases "main_at p") (fastforce simp: stages_def)+
  qed (use st a in \<open>fastforce simp: stages_def intro: shutdown close_idle\<close>)+
  show "\<forall>pe p'. \<not> process_step D p pe p'" if "\<not> running (main_at p)"
    using that by (cases "main_at p") (auto elim: process_step.cases)
qed

text \<open>An undisturbed shutdown: nothing of the gateway has to run in between.\<close>

abbreviation quiet_shutdown :: "process_event list" where
  "quiet_shutdown \<equiv> [PSignal, PListenClosed, PShutdown, PStop, PCloseIdle, PExit]"

lemma quiet_shutdown_run:
  assumes "process_run D p evs q" and "main_at q = Serving" and "signal_at q = AwaitSignal"
  shows "process_run D p (evs @ quiet_shutdown)
    (q\<lparr>gateway := (gateway q)\<lparr>eng := Stop (eng (gateway q))\<rparr>, signal_at := SignalDone, idleClosed := True,
       main_at := Exited 0\<rparr>)"
proof -
  note st = process_next [OF assms(1) signalled, unfolded append_assoc append.simps]
  note st = process_next [OF st listen_closed, unfolded append_assoc append.simps]
  note st = process_next [OF st shutdown, unfolded append_assoc append.simps]
  note st = process_next [OF st stop_app [OF _ _ step.stop], unfolded append_assoc append.simps]
  note st = process_next [OF st close_idle, unfolded append_assoc append.simps]
  note st = process_next [OF st exit, unfolded append_assoc append.simps]
  from st show ?thesis by (simp add: assms(2,3))
qed

lemma demo_shutdown_run:
  obtains p where "process_run demo_D (boot demo_g) quiet_shutdown p" "main_at p = Exited 0"
  using quiet_shutdown_run [OF process_init, of "boot demo_g" demo_D] by (simp add: boot_def)

definition demo_initS :: "storage_kind \<Rightarrow> Config \<Rightarrow> error + MemoryStorage" where
  "demo_initS kind cfg = (case kind of MemoryKind \<Rightarrow> Inr \<lparr>storage_map = []\<rparr> | RedisKind \<Rightarrow> Inl [])"

definition demo_initA :: "authorizer_kind \<Rightarrow> Config \<Rightarrow> error + DummyAuthorizer" where
  "demo_initA kind cfg = (case kind of DummyKind \<Rightarrow> dummy_Init cfg | ProxyKind \<Rightarrow> Inl [])"

lemma demo_inits:
  "\<forall>kind cfg s. demo_initS kind cfg = Inr s \<longrightarrow> mem_inv s"
  "\<forall>kind cfg a. AuthURL cfg \<noteq> [] \<longrightarrow> demo_initA kind cfg = Inr a \<longrightarrow> good_keys (d_keys a)"
  using dummy_Init_good by (auto simp: demo_initS_def demo_initA_def mem_inv_def split: storage_kind.splits authorizer_kind.splits)

lemma demo_boot:
  "\<exists>w g0. main_boot demo_initS demo_initA (\<lambda>_. None) (\<lambda>_. Inl []) (\<lambda>_. Inr 200) [''--auth=u'', ''--authorizer=dummy''] =
     Booted w (boot g0)"
proof -
  have "\<exists>cfg. main_startup (\<lambda>_. None) (\<lambda>_. Inl []) [''--auth=u'', ''--authorizer=dummy''] = Run cfg \<and>
      Workers cfg = 1024 \<and> StorageEngine cfg = ''default'' \<and> AuthorizerEngine cfg = ''dummy''"
    by (simp add: main_startup_def flag_defaults_def flag_table_def bool_flag_def envOr_def set_flags_def
        flag_get_def Let_def ParseInt_def split_sign_def is_digit_def digits_val_def digit_val_def build_config_def)
  moreover have "ToLower ''default'' = ''default''" "ToLower ''dummy'' = ''dummy''"
    by (simp_all add: ToLower.simps)
  ultimately show ?thesis
    by (auto simp: main_boot_def Start_def getStorage_def getAuthorizer_def demo_initS_def demo_initA_def dummy_Init_def
        Storages_def Authorizers_def)
qed

theorem graceful_exit_witness:
  "\<exists>p0 p e1 e2. process_run demo_D p0 quiet_shutdown p \<and> quiet_shutdown = e1 @ PStop # e2 \<and>
     PSignal \<in> set e1 \<and> cancelled (eng (gateway p))"
proof -
  obtain w g0 where b: "main_boot demo_initS demo_initA (\<lambda>_. None) (\<lambda>_. Inl []) (\<lambda>_. Inr 200) [''--auth=u'', ''--authorizer=dummy''] =
     Booted w (boot g0)" using demo_boot by blast
  have "\<exists>p. process_run demo_D (boot g0) quiet_shutdown p \<and> main_at p = Exited 0"
    using quiet_shutdown_run [OF process_init, of "boot g0" demo_D] by (fastforce simp: boot_def)
  then obtain p where p: "process_run demo_D (boot g0) quiet_shutdown p" "main_at p = Exited 0" by blast
  from graceful_exit [OF demo_ok demo_inits b p] p(1) show ?thesis by blast
qed

theorem shutdown_terminates_witness:
  "\<exists>p. process_run demo_D (boot demo_g) quiet_shutdown p \<and> (\<forall>pe p'. \<not> process_step demo_D p pe p')"
proof -
  obtain p where p: "process_run demo_D (boot demo_g) quiet_shutdown p" "main_at p = Exited 0"
    by (rule demo_shutdown_run)
  from shutdown_terminates [OF p(1)] p show ?thesis by auto
qed

end
