(* ===== verification/Json_Text.thy ===== *)
theory Json_Text
  imports Json Go_Strconv
begin

text \<open>
  The text form of JSON as Go 1.22's \<^verbatim>\<open>encoding/json\<close> prints and reads it:
  \<^verbatim>\<open>Marshal\<close> with its HTML escapes and shortest floats, \<^verbatim>\<open>Unmarshal\<close>
  with its depth limit, surrogate pairs and replacement runes. The main result is that what is
  printed is read back, up to the cleaning of strings that are not UTF-8.
\<close>

subsection \<open>Numbers\<close>

definition digit_char :: "nat \<Rightarrow> char" where
  "digit_char d = char_of (48 + d)"

fun dec_digits :: "nat \<Rightarrow> string" where
  "dec_digits n = (if n < 10 then [digit_char n] else dec_digits (n div 10) @ [digit_char (n mod 10)])"

declare dec_digits.simps [simp del]

lemma digit_char_val: "d < 10 \<Longrightarrow> is_digit (digit_char d) \<and> digit_val (digit_char d) = d"
  by (simp add: digit_char_def is_digit_def digit_val_def)

lemma digits_val_Nil [simp]: "digits_val [] = 0"
  by (simp add: digits_val_def)

lemma digits_val_snoc: "digits_val (s @ [c]) = digits_val s * 10 + int (digit_val c)"
  by (simp add: digits_val_def)

lemma digits_val_append: "digits_val (s @ t) = digits_val s * 10 ^ length t + digits_val t"
proof (induction t rule: rev_induct)
  case (snoc c t)
  then show ?case by (simp add: digits_val_snoc algebra_simps flip: append_assoc)
qed simp

lemma digits_val_zeros: "digits_val (replicate n CHR ''0'') = 0"
  by (induction n) (simp_all add: digits_val_snoc digit_val_def flip: replicate_append_same)

lemma dec_digits_spec:
  "digits_val (dec_digits n) = int n \<and> list_all is_digit (dec_digits n) \<and> dec_digits n \<noteq> [] \<and>
   (0 < n \<longrightarrow> hd (dec_digits n) \<noteq> CHR ''0'')"
proof (induction n rule: dec_digits.induct)
  case (1 n)
  show ?case
  proof (cases "n < 10")
    case True
    then have "0 < n \<longrightarrow> digit_char n \<noteq> CHR ''0''" using digit_char_val [of n] by (auto simp: digit_val_def)
    then show ?thesis using True digit_char_val [of n]
      by (simp add: dec_digits.simps [of n] digits_val_snoc [of "[]", simplified])
  next
    case False
    have "int (n div 10) * 10 + int (n mod 10) = int n" by (simp add: zdiv_int zmod_int)
    then show ?thesis using False 1 digit_char_val [of "n mod 10"]
      by (simp add: dec_digits.simps [of n] digits_val_snoc hd_append)
  qed
qed

text \<open>The decimal exponent of a positive number, \<open>10 powi e \<le> x < 10 powi (e + 1)\<close>.\<close>

definition dec_expo :: "rat \<Rightarrow> int" where
  "dec_expo x = (let (p, q) = quotient_of x;
                     e = int (length (dec_digits (nat p))) - int (length (dec_digits (nat q))) in
                 if 10 powi e \<le> x then e else e - 1)"

text \<open>The \<open>n\<close>-digit decimals next to \<open>x\<close> below and above, the nearer first, that read as \<open>x\<close>.\<close>

definition short_candidate :: "rat \<Rightarrow> nat \<Rightarrow> (nat \<times> int) option" where
  "short_candidate x n =
     (let k = dec_expo x - int n + 1; y = x / 10 powi k; lo = nat \<lfloor>y\<rfloor>;
          near = (if y - of_nat lo \<le> of_nat (lo + 1) - y then [lo, lo + 1] else [lo + 1, lo])
      in map_option (\<lambda>c. (c, k)) (find (\<lambda>c. f64_round (of_nat c * 10 powi k) = x) near))"

function strip_zeros :: "nat \<Rightarrow> int \<Rightarrow> nat \<times> int" where
  "strip_zeros c k = (if 0 < c \<and> c mod 10 = 0 then strip_zeros (c div 10) (k + 1) else (c, k))"
  by pat_completeness auto
termination by (relation "measure fst") auto

declare strip_zeros.simps [simp del]

text \<open>
  The shortest decimal that reads as \<open>x\<close>: as many digits as needed, and of those decimals the
  nearest. Seventeen digits are always enough; the exact expansion that is left for the other case
  makes the function total.
\<close>

definition frac_bits :: nat where
  "frac_bits = 1074"

lemma frac_bits_int: "- int frac_bits = - 1074"
  by (simp add: frac_bits_def)

definition shortest :: "rat \<Rightarrow> nat \<times> int" where
  "shortest x =
     (case List.map_filter (short_candidate x) [1..<18] of
        (c, k) # _ \<Rightarrow> strip_zeros c k
      | [] \<Rightarrow> strip_zeros (nat \<lfloor>x * 10 ^ frac_bits\<rfloor>) (- int frac_bits))"

text \<open>\<^verbatim>\<open>AppendFloat\<close> with the format \<^verbatim>\<open>'f'\<close> or, for very small and very
  large numbers, \<^verbatim>\<open>'e'\<close> with a leading zero of the exponent removed.\<close>

definition float_text :: "rat \<Rightarrow> string" where
  "float_text x =
     (let (c, k) = shortest x; ds = dec_digits c; n = int (length ds); dp = n + k in
      if x < 1 / 10 ^ 6 \<or> 10 ^ 21 \<le> x then
        [hd ds] @ (if length ds = 1 then [] else ''.'' @ tl ds) @ ''e'' @
        (if dp - 1 < 0 then ''-'' else ''+'') @ dec_digits (nat \<bar>dp - 1\<bar>)
      else if dp \<le> 0 then ''0.'' @ replicate (nat (- dp)) CHR ''0'' @ ds
      else if dp < n then take (nat dp) ds @ ''.'' @ drop (nat dp) ds
      else ds @ replicate (nat k) CHR ''0'')"

definition print_num :: "f64 \<Rightarrow> string option" where
  "print_num x =
     (case x of
        Fin r \<Rightarrow>
          (case f64_of_rat r of
             Fin r \<Rightarrow> Some (if r = 0 then ''0'' else if r < 0 then CHR ''-'' # float_text (- r) else float_text r)
           | _ \<Rightarrow> None)
      | _ \<Rightarrow> None)"

text \<open>Reading a number: \<^verbatim>\<open>-?(0|[1-9][0-9]*)([.][0-9]+)?([eE][+-]?[0-9]+)?\<close>, and what
  follows it.\<close>

definition take_digits :: "string \<Rightarrow> string \<times> string" where
  "take_digits s = (takeWhile is_digit s, dropWhile is_digit s)"

definition parse_frac :: "string \<Rightarrow> (string \<times> string) option" where
  "parse_frac s =
     (case s of
        c # t \<Rightarrow> if c = CHR ''.'' then (let (ds, u) = take_digits t in if ds = [] then None else Some (ds, u))
                 else Some ([], s)
      | [] \<Rightarrow> Some ([], s))"

definition parse_exp :: "string \<Rightarrow> (int \<times> string) option" where
  "parse_exp s =
     (case s of
        c # t \<Rightarrow>
          if c \<in> {CHR ''e'', CHR ''E''} then
            (let (neg, u) = split_sign t; (ds, v) = take_digits u in
             if ds = [] then None else Some (if neg then - digits_val ds else digits_val ds, v))
          else Some (0, s)
      | [] \<Rightarrow> Some (0, s))"

definition parse_int_part :: "string \<Rightarrow> (string \<times> string) option" where
  "parse_int_part s =
     (case s of
        c # t \<Rightarrow> if c = CHR ''0'' then Some (''0'', t)
                 else let (ds, u) = take_digits s in if ds = [] then None else Some (ds, u)
      | [] \<Rightarrow> None)"

definition number_json :: "bool \<Rightarrow> rat \<Rightarrow> json" where
  "number_json neg v =
     (let x = f64_of_rat (if neg then - v else v) in if neg \<and> x = Fin 0 then JNegZero else JNum x)"

definition parse_unsigned :: "string \<Rightarrow> (rat \<times> string) option" where
  "parse_unsigned s =
     (case parse_int_part s of
        None \<Rightarrow> None
      | Some (ip, s2) \<Rightarrow>
          (case parse_frac s2 of
             None \<Rightarrow> None
           | Some (fp, s3) \<Rightarrow>
               (case parse_exp s3 of
                  None \<Rightarrow> None
                | Some (e, s4) \<Rightarrow> Some (of_int (digits_val (ip @ fp)) * 10 powi (e - int (length fp)), s4))))"

definition parse_num :: "string \<Rightarrow> (json \<times> string) option" where
  "parse_num s =
     (let (neg, s1) = (case s of c # t \<Rightarrow> if c = CHR ''-'' then (True, t) else (False, s) | [] \<Rightarrow> (False, s))
      in map_option (\<lambda>(v, u). (number_json neg v, u)) (parse_unsigned s1))"

subsection \<open>Numbers are read back\<close>

lemma f64_round_grid: "\<exists>m. \<bar>m\<bar> \<le> 2 ^ 53 \<and> f64_round x = of_int m * f64_ulp x"
proof (cases "x = 0")
  case True
  then show ?thesis by (intro exI [of _ 0]) (simp add: f64_round_def)
next
  case False
  have "\<bar>x\<bar> < 2 powi (f64_expo x + 1)" using f64_expo_bounds(2) [OF False] .
  also have "f64_expo x + 1 = int 53 + (f64_expo x - 52)" by simp
  also have "(2::rat) powi (int 53 + (f64_expo x - 52)) = 2 ^ 53 * 2 powi (f64_expo x - 52)"
    by (subst power_int_add, rule disjI1, simp, simp only: power_int_of_nat)
  also have "\<dots> \<le> 2 ^ 53 * f64_ulp x"
    unfolding f64_ulp_def by (intro mult_left_mono power_int_increasing) auto
  finally have "\<bar>x / f64_ulp x\<bar> < of_int (2 ^ 53)"
    by (simp add: pos_divide_less_eq abs_divide abs_of_pos)
  then have "x / f64_ulp x \<le> of_int (2 ^ 53)" and "of_int (- (2 ^ 53)) \<le> x / f64_ulp x"
    by (simp_all only: abs_less_iff of_int_minus) linarith+
  then have "rne (x / f64_ulp x) \<le> 2 ^ 53" and "- (2 ^ 53) \<le> rne (x / f64_ulp x)"
    using rne_le_int int_le_rne by blast+
  then show ?thesis using False by (intro exI [of _ "rne (x / f64_ulp x)"]) (simp add: f64_round_def abs_le_iff)
qed

lemma f64_round_idem [simp]: "f64_round (f64_round x) = f64_round x"
proof -
  obtain m where m: "\<bar>m\<bar> \<le> 2 ^ 53" "f64_round x = of_int m * f64_ulp x" using f64_round_grid by blast
  show ?thesis
    by (rule f64_round_representable [OF m(1), where k = "max (f64_expo x - 52) (- 1074)"])
      (simp_all only: m(2) f64_ulp_def max.cobounded2)
qed

lemma f64_round_decimal: "\<exists>m::int. f64_round x * 10 ^ frac_bits = of_int m"
proof -
  obtain m where m: "f64_round x = of_int m * f64_ulp x" using f64_round_grid by blast
  let ?k = "max (f64_expo x - 52) (- int frac_bits)"
  have "(2::rat) powi ?k = of_int (2 ^ nat (?k - - int frac_bits)) * 2 powi (- int frac_bits)"
    by (rule powi_grid) simp
  moreover have "(10::rat) ^ frac_bits = 2 ^ frac_bits * of_int (5 ^ frac_bits)"
    by (simp flip: power_mult_distrib)
  moreover have "(2::rat) powi (- int frac_bits) * 2 ^ frac_bits = 1" by (simp add: power_int_minus)
  ultimately have "(2::rat) powi ?k * 10 ^ frac_bits = of_int (2 ^ nat (?k - - int frac_bits) * 5 ^ frac_bits)"
    by (simp add: mult.assoc)
  then have "f64_round x * 10 ^ frac_bits = of_int (m * (2 ^ nat (?k - - int frac_bits) * 5 ^ frac_bits))"
    unfolding m f64_ulp_def frac_bits_int by (simp only: mult.assoc of_int_mult)
  then show ?thesis by blast
qed

lemma strip_zeros_value:
  "strip_zeros c k = (c', k') \<Longrightarrow> (of_nat c' :: rat) * 10 powi k' = of_nat c * 10 powi k"
proof (induction c k rule: strip_zeros.induct)
  case (1 c k)
  show ?case
  proof (cases "0 < c \<and> c mod 10 = 0")
    case True
    then have "c = c div 10 * 10" by (simp add: dvd_div_mult_self mod_0_imp_dvd)
    then have "(of_nat c :: rat) = of_nat (c div 10) * 10" by (metis of_nat_mult of_nat_numeral)
    then have "(of_nat c :: rat) * 10 powi k = of_nat (c div 10) * 10 powi (k + 1)"
      by (simp add: power_int_add)
    then show ?thesis using 1 True by (simp add: strip_zeros.simps [of c k])
  next
    case False
    then have "strip_zeros c k = (c, k)" by (subst strip_zeros.simps) (rule if_not_P)
    then show ?thesis using 1(2) by simp
  qed
qed

lemma shortest_reads:
  assumes "f64_round x = x" and "0 < x" and "shortest x = (c, k)"
  shows "f64_round (of_nat c * 10 powi k) = x"
proof (cases "List.map_filter (short_candidate x) [1..<18]")
  case Nil
  obtain m :: int where m: "x * 10 ^ frac_bits = of_int m" using f64_round_decimal [of x] assms(1) by auto
  moreover have "0 \<le> x * 10 ^ frac_bits" using assms(2) by simp
  ultimately have "0 \<le> m" by simp
  then have "of_nat (nat \<lfloor>x * 10 ^ frac_bits\<rfloor>) * 10 powi (- int frac_bits) = x * 10 ^ frac_bits * 10 powi (- int frac_bits)"
    using m by simp
  also have "\<dots> = x" by (simp add: power_int_minus)
  finally have "of_nat c * 10 powi k = x"
    using strip_zeros_value [of _ _ c k] assms(3) Nil by (simp add: shortest_def)
  then show ?thesis using assms(1) by simp
next
  case (Cons ck cks)
  obtain c0 k0 where ck: "ck = (c0, k0)" by fastforce
  have "ck \<in> set (List.map_filter (short_candidate x) [1..<18])" using Cons by simp
  then obtain n where "short_candidate x n = Some (c0, k0)"
    unfolding ck by (auto simp: List.map_filter_def)
  then have "f64_round (of_nat c0 * 10 powi k0) = x"
    by (auto simp: short_candidate_def Let_def find_Some_iff split: if_splits)
  moreover have "of_nat c * 10 powi k = (of_nat c0 * 10 powi k0 :: rat)"
    using strip_zeros_value [of c0 k0 c k] assms(3) Cons ck by (simp add: shortest_def)
  ultimately show ?thesis by simp
qed

text \<open>What may follow a value in printed text.\<close>

definition delim :: "string \<Rightarrow> bool" where
  "delim s \<longleftrightarrow> (case s of [] \<Rightarrow> True | c # _ \<Rightarrow> c \<in> {CHR '','', CHR '']'', CHR ''}''})"

definition no_digit :: "string \<Rightarrow> bool" where
  "no_digit s \<longleftrightarrow> (case s of [] \<Rightarrow> True | c # _ \<Rightarrow> \<not> is_digit c)"

lemma delim_no_digit: "delim s \<Longrightarrow> no_digit s"
  by (auto simp: delim_def no_digit_def is_digit_def split: list.splits)

lemma take_digits_append: "list_all is_digit ds \<Longrightarrow> no_digit u \<Longrightarrow> take_digits (ds @ u) = (ds, u)"
  by (induction ds) (auto simp: take_digits_def no_digit_def split: list.splits)

lemma is_digit_neq: "is_digit c \<Longrightarrow> c \<notin> {CHR ''-'', CHR ''+'', CHR ''.'', CHR ''e'', CHR ''E''}"
  by (auto simp: is_digit_def)

lemma parse_int_part_digits:
  assumes "list_all is_digit ip" and "ip \<noteq> []" and "hd ip \<noteq> CHR ''0'' \<or> ip = ''0''" and "no_digit u"
  shows "parse_int_part (ip @ u) = Some (ip, u)"
proof -
  obtain c t where "ip = c # t" using assms(2) by (cases ip) auto
  then show ?thesis using assms take_digits_append [OF assms(1,4)] by (auto simp: parse_int_part_def)
qed

lemma parse_frac_digits:
  "list_all is_digit fp \<Longrightarrow> fp \<noteq> [] \<Longrightarrow> no_digit u \<Longrightarrow> parse_frac (CHR ''.'' # fp @ u) = Some (fp, u)"
  by (simp add: parse_frac_def take_digits_append)

lemma parse_exp_digits:
  assumes "list_all is_digit ds" and "ds \<noteq> []" and "no_digit u" and "sg \<in> {CHR ''-'', CHR ''+''}"
  shows "parse_exp (CHR ''e'' # sg # ds @ u) =
    Some (if sg = CHR ''-'' then - digits_val ds else digits_val ds, u)"
  using assms by (auto simp: parse_exp_def split_sign_def take_digits_append)

text \<open>A numeral without an exponent, and one in scientific notation.\<close>

lemma parse_plain:
  assumes "list_all is_digit (ip @ fp)" and "ip \<noteq> []" and "hd ip \<noteq> CHR ''0'' \<or> ip = ''0''" and "delim u"
  shows "parse_unsigned (ip @ (if fp = [] then [] else CHR ''.'' # fp) @ u) =
         Some (of_int (digits_val (ip @ fp)) * 10 powi (- int (length fp)), u)"
proof -
  have u: "no_digit u" "parse_frac u = Some ([], u)" "parse_exp u = Some (0, u)"
    using assms(4) by (auto simp: delim_no_digit parse_frac_def parse_exp_def delim_def split: list.splits)
  have "no_digit ((if fp = [] then [] else CHR ''.'' # fp) @ u)" using u by (simp add: no_digit_def is_digit_def)
  from parse_int_part_digits [OF _ assms(2,3) this] u show ?thesis
    using assms(1) by (auto simp: parse_unsigned_def parse_frac_digits)
qed

lemma parse_scientific:
  assumes "list_all is_digit (ip @ fp @ ds)" and "ip \<noteq> []" and "hd ip \<noteq> CHR ''0''" and "ds \<noteq> []"
    and "delim u" and "sg \<in> {CHR ''-'', CHR ''+''}"
  shows "parse_unsigned (ip @ (if fp = [] then [] else CHR ''.'' # fp) @ CHR ''e'' # sg # ds @ u) =
         Some (of_int (digits_val (ip @ fp)) *
               10 powi ((if sg = CHR ''-'' then - digits_val ds else digits_val ds) - int (length fp)), u)"
proof -
  let ?e = "CHR ''e'' # sg # ds @ u"
  have e: "no_digit ?e" "parse_frac ?e = Some ([], ?e)" by (simp_all add: no_digit_def is_digit_def parse_frac_def)
  have x: "parse_exp ?e = Some (if sg = CHR ''-'' then - digits_val ds else digits_val ds, u)"
    using assms by (intro parse_exp_digits) (simp_all add: delim_no_digit)
  have "no_digit ((if fp = [] then [] else CHR ''.'' # fp) @ ?e)" using e by (simp add: no_digit_def is_digit_def)
  from parse_int_part_digits [OF _ assms(2) _ this] e x show ?thesis
    using assms(1,3) by (auto simp: parse_unsigned_def parse_frac_digits)
qed

lemma float_text_spec:
  assumes "f64_round x = x" and "0 < x" and "delim u"
  shows "\<exists>v. parse_unsigned (float_text x @ u) = Some (v, u) \<and> f64_round v = x"
    and "is_digit (hd (float_text x))" and "float_text x \<noteq> []"
proof -
  obtain c k where ck: "shortest x = (c, k)" by fastforce
  have rd: "f64_round (of_nat c * 10 powi k) = x" by (rule shortest_reads [OF assms(1,2) ck])
  then have c: "0 < c" using assms(2) by (cases "c = 0") (auto simp: f64_round_def)
  define ds where "ds = dec_digits c"
  have ds: "digits_val ds = int c" "list_all is_digit ds" "ds \<noteq> []" "hd ds \<noteq> CHR ''0''"
    using dec_digits_spec [of c] c by (simp_all add: ds_def)
  define n dp where "n = int (length ds)" and "dp = n + k"
  have ft: "float_text x =
     (if x < 1 / 10 ^ 6 \<or> 10 ^ 21 \<le> x then
        [hd ds] @ (if length ds = 1 then [] else ''.'' @ tl ds) @ ''e'' @
        (if dp - 1 < 0 then ''-'' else ''+'') @ dec_digits (nat \<bar>dp - 1\<bar>)
      else if dp \<le> 0 then ''0.'' @ replicate (nat (- dp)) CHR ''0'' @ ds
      else if dp < n then take (nat dp) ds @ ''.'' @ drop (nat dp) ds
      else ds @ replicate (nat k) CHR ''0'')"
    by (simp only: float_text_def ck ds_def n_def dp_def Let_def prod.case)
  have z: "list_all is_digit (replicate j CHR ''0'')" for j by (simp add: list_all_iff is_digit_def)
  consider (sci) "x < 1 / 10 ^ 6 \<or> 10 ^ 21 \<le> x" | (small) "\<not> (x < 1 / 10 ^ 6 \<or> 10 ^ 21 \<le> x)" "dp \<le> 0"
    | (mid) "\<not> (x < 1 / 10 ^ 6 \<or> 10 ^ 21 \<le> x)" "0 < dp" "dp < n"
    | (big) "\<not> (x < 1 / 10 ^ 6 \<or> 10 ^ 21 \<le> x)" "0 < dp" "n \<le> dp" by linarith
  then have "(\<exists>v. parse_unsigned (float_text x @ u) = Some (v, u) \<and> f64_round v = x) \<and>
      is_digit (hd (float_text x)) \<and> float_text x \<noteq> []"
  proof cases
    case sci
    define e where "e = dec_digits (nat \<bar>dp - 1\<bar>)"
    define sg where "sg = (if dp - 1 < 0 then CHR ''-'' else CHR ''+'')"
    have e: "digits_val e = \<bar>dp - 1\<bar>" "list_all is_digit e" "e \<noteq> []"
      using dec_digits_spec [of "nat \<bar>dp - 1\<bar>"] by (simp_all add: e_def)
    have t: "float_text x = [hd ds] @ (if tl ds = [] then [] else CHR ''.'' # tl ds) @ CHR ''e'' # sg # e"
      using sci ds(3) unfolding ft e_def sg_def by (cases ds) simp_all
    have j: "[hd ds] @ tl ds = ds" using ds(3) by simp
    have "parse_unsigned (float_text x @ u) = Some (of_int (digits_val ([hd ds] @ tl ds)) *
        10 powi ((if sg = CHR ''-'' then - digits_val e else digits_val e) - int (length (tl ds))), u)"
      using parse_scientific [of "[hd ds]" "tl ds" e u sg] ds e assms(3) unfolding t
      by (cases ds) (simp_all add: sg_def)
    moreover have "(if sg = CHR ''-'' then - digits_val e else digits_val e) - int (length (tl ds)) = k"
      using ds(3) by (cases ds) (simp_all add: sg_def e(1) dp_def n_def)
    ultimately show ?thesis using rd ds t unfolding j by (cases ds) (auto simp: t)
  next
    case small
    have t: "float_text x = ''0'' @ CHR ''.'' # (replicate (nat (- dp)) CHR ''0'' @ ds)"
      using small unfolding ft by simp
    have "parse_unsigned (float_text x @ u) = Some (of_int (digits_val (''0'' @ replicate (nat (- dp)) CHR ''0'' @ ds)) *
        10 powi (- int (length (replicate (nat (- dp)) CHR ''0'' @ ds))), u)"
      using parse_plain [of "''0''" "replicate (nat (- dp)) CHR ''0'' @ ds" u] ds z assms(3) unfolding t
      by (simp add: is_digit_def)
    moreover have "digits_val (''0'' @ replicate (nat (- dp)) CHR ''0'' @ ds) = int c"
      using digits_val_zeros [of 1] digits_val_append [of "''0''" "replicate (nat (- dp)) CHR ''0'' @ ds"]
      by (simp add: digits_val_append [of "replicate _ _"] digits_val_zeros ds(1))
    moreover have "- int (length (replicate (nat (- dp)) CHR ''0'' @ ds)) = k" using small(2) by (simp add: dp_def n_def)
    ultimately show ?thesis using rd t by (simp add: is_digit_def)
  next
    case mid
    have t: "float_text x = take (nat dp) ds @ CHR ''.'' # drop (nat dp) ds" using mid unfolding ft by simp
    have ne: "take (nat dp) ds \<noteq> []" "drop (nat dp) ds \<noteq> []" "hd (take (nat dp) ds) = hd ds" using mid ds(3) by (auto simp: n_def)
    have "parse_unsigned (float_text x @ u) = Some (of_int (digits_val (take (nat dp) ds @ drop (nat dp) ds)) *
        10 powi (- int (length (drop (nat dp) ds))), u)"
      using parse_plain [of "take (nat dp) ds" "drop (nat dp) ds" u] ne ds assms(3) unfolding t by simp
    moreover have "- int (length (drop (nat dp) ds)) = k" using mid by (simp add: dp_def n_def)
    moreover have "is_digit (hd ds)" using ds by (cases ds) auto
    ultimately show ?thesis using rd t ne by (simp add: ds(1))
  next
    case big
    have t: "float_text x = ds @ replicate (nat k) CHR ''0''" using big unfolding ft by simp
    have "parse_unsigned (float_text x @ u) = Some (of_int (digits_val (ds @ replicate (nat k) CHR ''0'')), u)"
      using parse_plain [of "ds @ replicate (nat k) CHR ''0''" "[]" u] ds z assms(3) unfolding t by simp
    moreover have "(of_int (digits_val (ds @ replicate (nat k) CHR ''0'')) :: rat) = of_nat c * 10 powi k"
      using big by (simp add: digits_val_append digits_val_zeros ds(1) dp_def power_int_def)
    moreover have "is_digit (hd ds)" using ds by (cases ds) auto
    ultimately show ?thesis using rd t ds(3) by simp
  qed
  then show "\<exists>v. parse_unsigned (float_text x @ u) = Some (v, u) \<and> f64_round v = x"
    and "is_digit (hd (float_text x))" and "float_text x \<noteq> []" by blast+
qed

lemma parse_print_num:
  assumes "print_num x = Some t" and "delim u"
  shows "parse_num (t @ u) = Some (json_clean (JNum x), u) \<and> t \<noteq> [] \<and> (hd t = CHR ''-'' \<or> is_digit (hd t))"
proof -
  obtain q r where x: "x = Fin q" and r: "f64_of_rat q = Fin r"
    and t: "t = (if r = 0 then ''0'' else if r < 0 then CHR ''-'' # float_text (- r) else float_text r)"
    using assms(1) by (auto simp: print_num_def split: f64.splits)
  have rq: "r = f64_round q" using f64_of_rat_Fin [OF r] .
  then have idem: "f64_round r = r" "f64_round (- r) = - r" by (simp_all add: f64_round_minus)
  have clean: "json_clean (JNum x) = JNum (Fin r)" by (simp add: x rq)
  have read: "f64_of_rat v = Fin r" if "f64_round v = r" for v
    using that r rq by (simp add: f64_of_rat_def Let_def split: if_splits)
  consider "r = 0" | "r < 0" | "0 < r" by linarith
  then show ?thesis
  proof cases
    case 1
    have "parse_unsigned (''0'' @ u) = Some (0, u)"
      using parse_plain [of "''0''" "[]" u] assms(2) by (simp add: is_digit_def digits_val_def digit_val_def)
    then show ?thesis using 1 read [of 0] clean t
      by (simp add: parse_num_def number_json_def is_digit_def f64_round_def)
  next
    case 2
    then obtain v where v: "parse_unsigned (float_text (- r) @ u) = Some (v, u)" "f64_round v = - r"
      using float_text_spec(1) [OF idem(2) _ assms(2)] by auto
    then have "f64_of_rat (- v) = Fin r" by (intro read) (simp add: f64_round_minus)
    then show ?thesis using 2 v(1) clean t by (simp add: parse_num_def number_json_def)
  next
    case 3
    then obtain v where v: "parse_unsigned (float_text r @ u) = Some (v, u)" "f64_round v = r"
      using float_text_spec(1) [OF idem(1) _ assms(2)] by auto
    have h: "is_digit (hd (float_text r))" "float_text r \<noteq> []" using float_text_spec(2,3) [OF idem(1) 3 assms(2)] .
    then obtain c cs where f: "float_text r = c # cs" "c \<noteq> CHR ''-''" by (cases "float_text r") (auto dest: is_digit_neq)
    then show ?thesis using 3 v h(1) clean t read [OF v(2)] by (simp add: parse_num_def number_json_def)
  qed
qed

lemma print_num_delim: "print_num x = Some t \<Longrightarrow> t \<noteq> [] \<and> (hd t = CHR ''-'' \<or> is_digit (hd t))"
  using parse_print_num [of x t "[]"] by (simp add: delim_def)

subsection \<open>Strings\<close>

definition hex_char :: "nat \<Rightarrow> char" where
  "hex_char d = (if d < 10 then char_of (48 + d) else char_of (87 + d))"

definition u_escape :: "nat \<Rightarrow> string" where
  "u_escape r = [CHR 0x5C, CHR ''u'', hex_char (r div 4096), hex_char (r div 256 mod 16),
     hex_char (r div 16 mod 16), hex_char (r mod 16)]"

text \<open>How one ASCII character is printed: with the escapes of JSON and those that keep the text safe in
  HTML.\<close>

definition print_ascii :: "char \<Rightarrow> string" where
  "print_ascii c =
     (let b = byte c in
      if b = 0x22 \<or> b = 0x5C then [CHR 0x5C, c]
      else if b = 0x08 then [CHR 0x5C, CHR ''b'']
      else if b = 0x0C then [CHR 0x5C, CHR ''f'']
      else if b = 0x0A then [CHR 0x5C, CHR ''n'']
      else if b = 0x0D then [CHR 0x5C, CHR ''r'']
      else if b = 0x09 then [CHR 0x5C, CHR ''t'']
      else if b < 0x20 \<or> b = 0x3C \<or> b = 0x3E \<or> b = 0x26 then u_escape b
      else [c])"

function print_chars :: "string \<Rightarrow> string" where
  "print_chars s =
     (if s = [] then []
      else let (r, w) = decode_rune s in
        (if r = rune_error \<and> w = 1 then u_escape rune_error
         else if r < 0x80 then print_ascii (hd s)
         else if r = 0x2028 \<or> r = 0x2029 then u_escape r
         else take w s) @ print_chars (drop w s))"
  by pat_completeness auto
termination
  by (relation "measure length") (auto intro: decode_rune_shrinks)

declare print_chars.simps [simp del]

definition print_str :: "string \<Rightarrow> string" where
  "print_str s = [CHR 0x22] @ print_chars s @ [CHR 0x22]"

text \<open>\<^verbatim>\<open>utf8.EncodeRune\<close>; surrogates and runes out of range become U+FFFD.\<close>

definition encode_rune :: "nat \<Rightarrow> string" where
  "encode_rune r =
     (if r < 0x80 then [char_of r]
      else if r < 0x800 then [char_of (0xC0 + r div 64), char_of (0x80 + r mod 64)]
      else if 0x10FFFF < r \<or> 0xD800 \<le> r \<and> r < 0xE000 then [CHR 0xEF, CHR 0xBF, CHR 0xBD]
      else if r < 0x10000 then
        [char_of (0xE0 + r div 4096), char_of (0x80 + r div 64 mod 64), char_of (0x80 + r mod 64)]
      else [char_of (0xF0 + r div 262144), char_of (0x80 + r div 4096 mod 64),
            char_of (0x80 + r div 64 mod 64), char_of (0x80 + r mod 64)])"

text \<open>Four hexadecimal digits.\<close>

definition hex4 :: "string \<Rightarrow> (nat \<times> string) option" where
  "hex4 s =
     (case s of
        a # b # c # d # t \<Rightarrow>
          (case (hex_digit_val a, hex_digit_val b, hex_digit_val c, hex_digit_val d) of
             (Some w, Some x, Some y, Some z) \<Rightarrow> Some (w * 4096 + x * 256 + y * 16 + z, t)
           | _ \<Rightarrow> None)
      | _ \<Rightarrow> None)"

definition is_surrogate :: "nat \<Rightarrow> bool" where
  "is_surrogate r \<longleftrightarrow> 0xD800 \<le> r \<and> r < 0xE000"

text \<open>What follows \<^verbatim>\<open>\\u\<close>: a rune, a surrogate pair, or a lone surrogate, which is
  replaced.\<close>

definition parse_u :: "string \<Rightarrow> (string \<times> string) option" where
  "parse_u s =
     (case hex4 s of
        None \<Rightarrow> None
      | Some (r, t) \<Rightarrow>
          if is_surrogate r then
            (case (if take 2 t = [CHR 0x5C, CHR ''u''] then hex4 (drop 2 t) else None) of
               Some (r', t') \<Rightarrow>
                 if r < 0xDC00 \<and> 0xDC00 \<le> r' \<and> r' < 0xE000
                 then Some (encode_rune (0x10000 + (r - 0xD800) * 1024 + (r' - 0xDC00)), t')
                 else Some (encode_rune rune_error, t)
             | None \<Rightarrow> Some (encode_rune rune_error, t))
          else Some (encode_rune r, t))"

definition parse_escape :: "string \<Rightarrow> (string \<times> string) option" where
  "parse_escape s =
     (case s of
        [] \<Rightarrow> None
      | c # t \<Rightarrow>
          if c = CHR ''u'' then parse_u t
          else if c \<in> {CHR 0x22, CHR 0x5C, CHR ''/''} then Some ([c], t)
          else if c = CHR ''b'' then Some ([CHR 0x08], t)
          else if c = CHR ''f'' then Some ([CHR 0x0C], t)
          else if c = CHR ''n'' then Some ([CHR 0x0A], t)
          else if c = CHR ''r'' then Some ([CHR 0x0D], t)
          else if c = CHR ''t'' then Some ([CHR 0x09], t)
          else None)"

lemma hex4_shrinks: "hex4 s = Some (r, t) \<Longrightarrow> length t < length s"
  by (auto simp: hex4_def split: list.splits option.splits)

lemma parse_u_shrinks: "parse_u s = Some (x, t) \<Longrightarrow> length t < length s"
  by (auto simp: parse_u_def dest!: hex4_shrinks split: option.splits prod.splits if_splits)

lemma parse_escape_shrinks: "parse_escape s = Some (x, t) \<Longrightarrow> length t < length s"
  by (auto simp: parse_escape_def dest: parse_u_shrinks split: list.splits if_splits)

text \<open>The rest of a string literal after its opening quote: the decoded string and what follows the
  closing quote.\<close>

function parse_str :: "string \<Rightarrow> (string \<times> string) option" where
  "parse_str s =
     (case s of
        [] \<Rightarrow> None
      | c # t \<Rightarrow>
          if c = CHR 0x22 then Some ([], t)
          else if c = CHR 0x5C then
            (case parse_escape t of
               None \<Rightarrow> None
             | Some (x, u) \<Rightarrow> map_option (\<lambda>(y, v). (x @ y, v)) (parse_str u))
          else if byte c < 0x20 then None
          else let (r, w) = decode_rune s in
            map_option (\<lambda>(y, v). ((if r = rune_error \<and> w = 1 then encode_rune rune_error else take w s) @ y, v))
              (parse_str (drop w s)))"
  by pat_completeness auto
termination
  by (relation "measure length")
    (auto dest: parse_escape_shrinks decode_rune_shrinks simp del: decode_rune.simps)

declare parse_str.simps [simp del]

subsection \<open>Strings are read back\<close>

declare decode_rune.simps(2) [simp del]

lemma decode_rune_small:
  assumes "decode_rune (c # s) = (r, w)" and "r < 0x80"
  shows "byte c = r \<and> w = 1"
  using assms by (auto simp: Let_def cont_in_def decode_rune.simps split: if_splits list.splits)

lemma decode_rune_prefix:
  assumes "decode_rune s = (r, w)" and "s \<noteq> []" and "\<not> (r = rune_error \<and> w = 1)"
  shows "decode_rune (take w s @ t) = (r, w)"
  using assms by (cases s) (auto simp: Let_def decode_rune.simps split: if_splits list.splits)

lemma replacement_chars: "char_of (239::nat) = CHR 0xEF" "char_of (191::nat) = CHR 0xBF" "char_of (189::nat) = CHR 0xBD"
  by (simp_all flip: of_char_eq_iff [where 'a = nat])

lemma three_bytes:
  assumes "(a - 224) * 4096 + (x - 128) * 64 + (y - 128) = (8192 + d :: nat)" and "224 \<le> a" "128 \<le> x" "x \<le> 191" "128 \<le> y" "y \<le> 191"
    and "d < 64"
  shows "a = 226 \<and> x = 128 \<and> y = 128 + d"
proof -
  have a: "a - 224 = 2" using assms by linarith
  then have "(x - 128) * 64 + (y - 128) = d" using assms(1) by simp
  moreover from this have "x - 128 = 0" using assms(7) by linarith
  ultimately show ?thesis using a assms(2-6) by auto
qed

lemma decode_rune_separator:
  assumes "decode_rune s = (r, w)" and "r = 0x2028 \<or> r = 0x2029" and "\<not> (r = rune_error \<and> w = 1)"
  shows "encode_rune r = take w s"
proof -
  obtain d where d: "r = 8192 + d" "d < 64" "40 \<le> d" using assms(2) by (auto intro: that [of 40] that [of 41])
  obtain c t where s: "s = c # t" using assms(1) d by (cases s) auto
  have big: "\<not> r < 0x800" "r < 0x10000" using d by auto
  from assms(1) big obtain c1 c2 u where t: "t = c1 # c2 # u" and w: "w = 3"
    and c: "224 \<le> byte c" "byte c \<le> 239" "128 \<le> byte c1" "byte c1 \<le> 191" "128 \<le> byte c2" "byte c2 \<le> 191"
    and r: "(byte c - 224) * 4096 + (byte c1 - 128) * 64 + (byte c2 - 128) = r"
    unfolding s using d assms(3) by (auto simp: Let_def cont_in_def decode_rune.simps split: if_splits list.splits)
  have "byte c = 226" "byte c1 = 128" "byte c2 = 128 + d"
    using three_bytes [OF r [unfolded d(1)] c(1,3,4,5,6) d(2)] by auto
  then have "c = char_of (226::nat)" "c1 = char_of (128::nat)" "c2 = char_of (128 + d)" by (metis char_of_char)+
  moreover have "encode_rune r = [char_of (226::nat), char_of (128::nat), char_of (128 + d)]"
  proof -
    have "r div 4096 = 2" "r div 64 mod 64 = 0" "r mod 64 = d" using assms(2) d(1) by auto
    then show ?thesis using d by (simp add: encode_rune_def)
  qed
  ultimately show ?thesis by (simp add: s t w)
qed

lemma hex_char_val: "d < 16 \<Longrightarrow> hex_digit_val (hex_char d) = Some d"
  by (auto simp: hex_char_def hex_digit_val_def lower_def is_digit_def digit_val_def)

lemma hex4_u_escape: "r < 65536 \<Longrightarrow> hex4 (drop 2 (u_escape r) @ t) = Some (r, t)"
proof -
  assume r: "r < 65536"
  have "r div 4096 * 4096 + r div 256 mod 16 * 256 + r div 16 mod 16 * 16 + r mod 16 = r"
  proof -
    have "r div 16 div 16 = r div 256" "r div 256 div 16 = r div 4096" by (simp_all flip: div_mult2_eq)
    then show ?thesis
      using div_mult_mod_eq [of r 16] div_mult_mod_eq [of "r div 16" 16] div_mult_mod_eq [of "r div 256" 16] by linarith
  qed
  then show ?thesis using r by (simp add: hex4_def u_escape_def hex_char_val)
qed

lemma parse_str_u:
  assumes "r < 65536" and "\<not> is_surrogate r"
  shows "parse_str (u_escape r @ t) = map_option (\<lambda>(y, v). (encode_rune r @ y, v)) (parse_str t)"
proof -
  obtain h where h: "u_escape r = CHR 0x5C # CHR ''u'' # h" "h = drop 2 (u_escape r)"
    by (simp add: u_escape_def)
  have "parse_escape (CHR ''u'' # h @ t) = Some (encode_rune r, t)"
    using hex4_u_escape [OF assms(1), of t] assms(2) by (simp add: parse_escape_def parse_u_def flip: h(2))
  then show ?thesis by (subst parse_str.simps) (simp add: h(1))
qed

lemma parse_str_ascii:
  assumes "byte c < 0x80"
  shows "parse_str (print_ascii c @ t) = map_option (\<lambda>(y, v). (c # y, v)) (parse_str t)"
proof -
  have u: "parse_str (u_escape (byte c) @ t) = map_option (\<lambda>(y, v). (c # y, v)) (parse_str t)"
    using parse_str_u [of "byte c" t] assms by (simp add: is_surrogate_def encode_rune_def)
  have e: "parse_str (CHR 0x5C # x # t) = map_option (\<lambda>(y, v). (c # y, v)) (parse_str t)"
    if "parse_escape (x # t) = Some ([c], t)" for x
    by (subst parse_str.simps) (simp add: that)
  have d: "parse_str (c # t) = map_option (\<lambda>(y, v). (c # y, v)) (parse_str t)"
    if "byte c \<noteq> 0x22" "byte c \<noteq> 0x5C" "\<not> byte c < 0x20"
    using that assms by (subst parse_str.simps) (auto simp: decode_rune_ascii)
  have n: "c = CHR 0x22 \<longleftrightarrow> byte c = 0x22" "c = CHR 0x5C \<longleftrightarrow> byte c = 0x5C" "c = CHR 0x08 \<longleftrightarrow> byte c = 0x08"
    "c = CHR 0x0C \<longleftrightarrow> byte c = 0x0C" "c = CHR 0x0A \<longleftrightarrow> byte c = 0x0A" "c = CHR 0x0D \<longleftrightarrow> byte c = 0x0D"
    "c = CHR 0x09 \<longleftrightarrow> byte c = 0x09" for c
    by (simp_all flip: of_char_eq_iff [where 'a = nat])
  consider "c \<in> {CHR 0x22, CHR 0x5C}" | "c = CHR 0x08" | "c = CHR 0x0C" | "c = CHR 0x0A" | "c = CHR 0x0D"
    | "c = CHR 0x09" | "c \<notin> {CHR 0x22, CHR 0x5C, CHR 0x08, CHR 0x0C, CHR 0x0A, CHR 0x0D, CHR 0x09}" by blast
  then show ?thesis
  proof cases
    case 1
    then have "print_ascii c = [CHR 0x5C, c]" by (auto simp: print_ascii_def)
    then show ?thesis using e [of c] 1 by (auto simp: parse_escape_def)
  next
    case 7
    then have "print_ascii c = (if byte c < 0x20 \<or> byte c = 0x3C \<or> byte c = 0x3E \<or> byte c = 0x26 then u_escape (byte c) else [c])"
      by (simp add: print_ascii_def n)
    then show ?thesis using u d 7 by (simp add: n)
  qed (use e in \<open>auto simp: print_ascii_def parse_escape_def\<close>)
qed

lemma parse_print_chars: "parse_str (print_chars s @ CHR 0x22 # u) = Some (to_utf8 s, u)"
proof (induction s rule: print_chars.induct)
  case (1 s)
  show ?case
  proof (cases "s = []")
    case True
    then show ?thesis by (simp add: print_chars.simps [of "[]"] to_utf8.simps [of "[]"] parse_str.simps [of "CHR 0x22 # u"])
  next
    case False
    obtain r w where rw: "decode_rune s = (r, w)" by fastforce
    let ?t = "print_chars (drop w s) @ CHR 0x22 # u"
    have ih: "parse_str ?t = Some (to_utf8 (drop w s), u)" using 1 False rw by (metis)
    have p: "print_chars s = (if r = rune_error \<and> w = 1 then u_escape rune_error
         else if r < 0x80 then print_ascii (hd s)
         else if r = 0x2028 \<or> r = 0x2029 then u_escape r
         else take w s) @ print_chars (drop w s)"
      using False rw by (subst print_chars.simps) simp
    have q: "to_utf8 s = (if r = rune_error \<and> w = 1 then [CHR 0xEF, CHR 0xBF, CHR 0xBD] else take w s) @
              to_utf8 (drop w s)"
      using False rw by (subst to_utf8.simps) simp
    obtain c t where s: "s = c # t" using False by (cases s) auto
    consider (bad) "r = rune_error \<and> w = 1" | (ascii) "\<not> (r = rune_error \<and> w = 1)" "r < 0x80"
      | (sep) "\<not> (r = rune_error \<and> w = 1)" "\<not> r < 0x80" "r = 0x2028 \<or> r = 0x2029"
      | (raw) "\<not> (r = rune_error \<and> w = 1)" "\<not> r < 0x80" "\<not> (r = 0x2028 \<or> r = 0x2029)" by blast
    then show ?thesis
    proof cases
      case bad
      then show ?thesis using ih parse_str_u [of rune_error ?t]
        by (simp add: p q is_surrogate_def encode_rune_def replacement_chars)
    next
      case ascii
      have "byte c = r \<and> w = 1" using decode_rune_small [OF _ ascii(2)] rw s by simp
      then show ?thesis using ascii ih parse_str_ascii [of c ?t] unfolding p q by (simp add: s)
    next
      case sep
      have "encode_rune r = take w s" by (rule decode_rune_separator [OF rw sep(3,1)])
      then show ?thesis using sep ih parse_str_u [of r ?t] by (auto simp: p q is_surrogate_def)
    next
      case raw
      have "1 \<le> w" using decode_rune_width [OF False] rw by simp
      then obtain x where x: "take w s = c # x" using s by (cases w) auto
      have pre: "decode_rune (c # x @ ?t) = (r, w)"
        using decode_rune_prefix [OF rw False raw(1), of ?t] x by simp
      have "0x80 \<le> byte c" using decode_rune_ascii [of c t] rw raw s by (cases "byte c < 0x80") auto
      then have "parse_str (c # x @ ?t) = map_option (\<lambda>(y, v). (take w (c # x @ ?t) @ y, v)) (parse_str (drop w (c # x @ ?t)))"
        using raw(1) pre by (subst parse_str.simps) auto
      moreover have "take w (c # x @ ?t) = take w s" "drop w (c # x @ ?t) = ?t"
        using x decode_rune_width [OF False] rw by (metis append_Cons append_eq_conv_conj length_take min.absorb2 snd_conv)+
      ultimately show ?thesis using raw ih x unfolding p q by auto
    qed
  qed
qed

subsection \<open>Values\<close>

primrec print_json :: "json \<Rightarrow> string option" where
  "print_json JNull = Some ''null''"
| "print_json (JBool b) = Some (if b then ''true'' else ''false'')"
| "print_json (JNum x) = print_num x"
| "print_json JNegZero = Some ''-0''"
| "print_json (JStr s) = Some (print_str s)"
| "print_json (JArr xs) =
     (let ps = map print_json xs in
      if None \<in> set ps then None else Some ([CHR ''[''] @ Join CHR '','' (map the ps) @ [CHR '']'']))"
| "print_json (JObj kvs) =
     (let ps = map (map_prod id print_json) kvs in
      if None \<in> snd ` set ps then None
      else Some ([CHR ''{''] @ Join CHR '','' (map (\<lambda>(k, p). print_str k @ [CHR '':''] @ the p) ps) @ [CHR ''}'']))"

definition skip_ws :: "string \<Rightarrow> string" where
  "skip_ws s = dropWhile (\<lambda>c. c \<in> {CHR '' '', CHR 0x09, CHR 0x0A, CHR 0x0D}) s"

definition parse_literal :: "string \<Rightarrow> (json \<times> string) option" where
  "parse_literal s =
     (if take 4 s = ''null'' then Some (JNull, drop 4 s)
      else if take 4 s = ''true'' then Some (JBool True, drop 4 s)
      else if take 5 s = ''false'' then Some (JBool False, drop 5 s)
      else None)"

text \<open>
  The recursive descent. The first argument is fuel, twice the length of the text is enough; the second
  is how much deeper arrays and objects may nest. A value, the elements of an array up to its bracket,
  the members of an object up to its brace.
\<close>

fun parse_value :: "nat \<Rightarrow> nat \<Rightarrow> string \<Rightarrow> (json \<times> string) option"
and parse_elems :: "nat \<Rightarrow> nat \<Rightarrow> string \<Rightarrow> (json list \<times> string) option"
and parse_members :: "nat \<Rightarrow> nat \<Rightarrow> string \<Rightarrow> ((string \<times> json) list \<times> string) option" where
  "parse_value 0 d s = None"
| "parse_value (Suc n) d s =
     (case skip_ws s of
        [] \<Rightarrow> None
      | c # t \<Rightarrow>
          if c = CHR 0x22 then map_option (\<lambda>(x, u). (JStr x, u)) (parse_str t)
          else if c = CHR ''['' then
            (if d = 0 then None
             else if take 1 (skip_ws t) = '']'' then Some (JArr [], drop 1 (skip_ws t))
             else map_option (\<lambda>(xs, u). (JArr xs, u)) (parse_elems n (d - 1) t))
          else if c = CHR ''{'' then
            (if d = 0 then None
             else if take 1 (skip_ws t) = ''}'' then Some (JObj [], drop 1 (skip_ws t))
             else map_option (\<lambda>(kvs, u). (JObj kvs, u)) (parse_members n (d - 1) t))
          else if c = CHR ''-'' \<or> is_digit c then parse_num (c # t)
          else parse_literal (c # t))"
| "parse_elems 0 d s = None"
| "parse_elems (Suc n) d s =
     (case parse_value n d s of
        None \<Rightarrow> None
      | Some (x, u) \<Rightarrow>
          (case skip_ws u of
             [] \<Rightarrow> None
           | c # v \<Rightarrow>
               if c = CHR '','' then map_option (\<lambda>(xs, w). (x # xs, w)) (parse_elems n d v)
               else if c = CHR '']'' then Some ([x], v)
               else None))"
| "parse_members 0 d s = None"
| "parse_members (Suc n) d s =
     (case skip_ws s of
        [] \<Rightarrow> None
      | q # t \<Rightarrow>
          if q \<noteq> CHR 0x22 then None
          else case parse_str t of
            None \<Rightarrow> None
          | Some (k, u) \<Rightarrow>
              if take 1 (skip_ws u) \<noteq> '':'' then None
              else case parse_value n d (drop 1 (skip_ws u)) of
                None \<Rightarrow> None
              | Some (x, v) \<Rightarrow>
                  (case skip_ws v of
                     [] \<Rightarrow> None
                   | c # w \<Rightarrow>
                       if c = CHR '','' then map_option (\<lambda>(kvs, z). ((k, x) # kvs, z)) (parse_members n d w)
                       else if c = CHR ''}'' then Some ([(k, x)], w)
                       else None))"

definition parse_json :: "string \<Rightarrow> json option" where
  "parse_json s =
     (case parse_value (2 * length s + 1) max_depth s of
        None \<Rightarrow> None
      | Some (j, u) \<Rightarrow> if skip_ws u = [] then Some j else None)"

subsection \<open>Values are read back\<close>

definition value_head :: "char \<Rightarrow> bool" where
  "value_head c \<longleftrightarrow> c \<in> {CHR 0x22, CHR ''['', CHR ''{'', CHR ''-'', CHR ''n'', CHR ''t'', CHR ''f''} \<or> is_digit c"

lemma print_json_head: "print_json j = Some p \<Longrightarrow> p \<noteq> [] \<and> value_head (hd p)"
  by (cases j) (auto simp: value_head_def print_str_def Let_def dest: print_num_delim split: if_splits)

lemma value_head_ws: "value_head c \<Longrightarrow> skip_ws (c # s) = c # s"
  by (auto simp: value_head_def skip_ws_def is_digit_def)

lemma value_head_close: "value_head c \<Longrightarrow> c \<noteq> CHR '']'' \<and> c \<noteq> CHR ''}''"
  by (auto simp: value_head_def is_digit_def)

lemma skip_ws_print: "print_json j = Some p \<Longrightarrow> skip_ws (p @ u) = p @ u"
  using print_json_head [of j p] value_head_ws by (cases p) auto

lemma skip_ws_mark [simp]:
  "skip_ws (CHR '','' # u) = CHR '','' # u" "skip_ws (CHR '']'' # u) = CHR '']'' # u" "skip_ws (CHR ''}'' # u) = CHR ''}'' # u"
  "skip_ws (CHR '':'' # u) = CHR '':'' # u" "skip_ws (CHR 0x22 # u) = CHR 0x22 # u"
  by (simp_all add: skip_ws_def)

lemma delim_mark [simp]: "delim (CHR '','' # u)" "delim (CHR '']'' # u)" "delim (CHR ''}'' # u)"
  by (simp_all add: delim_def)

lemma Join_single [simp]: "Join c [p] = p"
  by (simp add: Join_def)

lemma Join_Cons: "qs \<noteq> [] \<Longrightarrow> Join c (p # qs) = p @ c # Join c qs"
  by (cases qs) (simp_all add: Join_def)

text \<open>What reading back a printed value means.\<close>

definition reads :: "json \<Rightarrow> bool" where
  "reads j \<longleftrightarrow> (\<forall>p n d u. print_json j = Some p \<longrightarrow> delim u \<longrightarrow> 2 * length p \<le> n \<longrightarrow>
     parse_value n d (p @ u) = (if json_depth j \<le> d then Some (json_clean j, u) else None))"

lemma readsD: "reads j \<Longrightarrow> print_json j = Some p \<Longrightarrow> delim u \<Longrightarrow> 2 * length p \<le> n \<Longrightarrow>
    parse_value n d (p @ u) = (if json_depth j \<le> d then Some (json_clean j, u) else None)"
  unfolding reads_def by blast

lemma reads_elems:
  assumes "\<forall>x \<in> set xs. reads x \<and> print_json x \<noteq> None" and "xs \<noteq> []"
    and "2 * length (Join CHR '','' (map (\<lambda>x. the (print_json x)) xs)) < n"
  shows "parse_elems n d (Join CHR '','' (map (\<lambda>x. the (print_json x)) xs) @ CHR '']'' # u) =
         (if \<forall>x \<in> set xs. json_depth x \<le> d then Some (map json_clean xs, u) else None)"
  using assms
proof (induction xs arbitrary: n)
  case (Cons x xs)
  obtain p where p: "print_json x = Some p" using Cons.prems(1) by auto
  obtain m where n: "n = Suc m" using Cons.prems(3) by (cases n) auto
  note rd = readsD [OF _ p, of _ m d]
  show ?case
  proof (cases "xs = []")
    case True
    then show ?thesis using rd [of "CHR '']'' # u"] Cons.prems(1,3) p n by (auto simp: n)
  next
    case False
    let ?J = "Join CHR '','' (map (\<lambda>x. the (print_json x)) xs)"
    have l: "2 * length p \<le> m" "2 * length ?J < m" using Cons.prems(3) False p n by (simp_all add: Join_Cons)
    have ih: "parse_elems m d (?J @ CHR '']'' # u) =
        (if \<forall>x \<in> set xs. json_depth x \<le> d then Some (map json_clean xs, u) else None)"
      using Cons.IH [OF _ False l(2)] Cons.prems(1) by simp
    show ?thesis using rd [of "CHR '','' # ?J @ CHR '']'' # u"] Cons.prems(1) l(1) False p ih
      by (auto simp: n Join_Cons)
  qed
qed simp

lemma parse_print_str: "parse_str (print_chars k @ CHR 0x22 # u) = Some (to_utf8 k, u)"
  by (rule parse_print_chars)

definition print_member :: "string \<times> json \<Rightarrow> string" where
  "print_member kv = print_str (fst kv) @ CHR '':'' # the (print_json (snd kv))"

lemma reads_members:
  assumes "\<forall>kv \<in> set kvs. reads (snd kv) \<and> print_json (snd kv) \<noteq> None" and "kvs \<noteq> []"
    and "2 * length (Join CHR '','' (map print_member kvs)) < n"
  shows "parse_members n d (Join CHR '','' (map print_member kvs) @ CHR ''}'' # u) =
         (if \<forall>kv \<in> set kvs. json_depth (snd kv) \<le> d then Some (map (map_prod to_utf8 json_clean) kvs, u) else None)"
  using assms
proof (induction kvs arbitrary: n)
  case (Cons kv kvs)
  obtain k x where kv: "kv = (k, x)" by fastforce
  obtain p where p: "print_json x = Some p" using Cons.prems(1) kv by auto
  obtain m where n: "n = Suc m" using Cons.prems(3) by (cases n) auto
  have rx: "reads x" using Cons.prems(1) kv by simp
  have pm: "print_member kv = CHR 0x22 # print_chars k @ CHR 0x22 # CHR '':'' # p"
    by (simp add: print_member_def kv print_str_def p)
  have step: "parse_members n d (print_member kv @ c # v) =
      (case parse_value m d (p @ c # v) of None \<Rightarrow> None
       | Some (x, v) \<Rightarrow> (case skip_ws v of [] \<Rightarrow> None
                     | c # w \<Rightarrow>
                       if c = CHR '','' then map_option (\<lambda>(kvs, z). ((to_utf8 k, x) # kvs, z)) (parse_members m d w)
                       else if c = CHR ''}'' then Some ([(to_utf8 k, x)], w)
                       else None))" for c v
    by (simp add: n pm parse_print_chars)
  show ?case
  proof (cases "kvs = []")
    case True
    then have "2 * length p \<le> m" using Cons.prems(3) n pm by simp
    then show ?thesis using step [of "CHR ''}''" u] readsD [OF rx p, of "CHR ''}'' # u" m d] True by (simp add: kv)
  next
    case False
    let ?J = "Join CHR '','' (map print_member kvs)"
    have l: "2 * length p \<le> m" "2 * length ?J < m" using Cons.prems(3) False n pm by (simp_all add: Join_Cons)
    have ih: "parse_members m d (?J @ CHR ''}'' # u) =
        (if \<forall>kv \<in> set kvs. json_depth (snd kv) \<le> d then Some (map (map_prod to_utf8 json_clean) kvs, u) else None)"
      using Cons.IH [OF _ False l(2)] Cons.prems(1) by simp
    show ?thesis
      using step [of "CHR '',''" "?J @ CHR ''}'' # u"] readsD [OF rx p, of "CHR '','' # ?J @ CHR ''}'' # u" m d] l(1) False ih
      by (auto simp: kv Join_Cons)
  qed
qed simp

lemma none_member: "None \<notin> snd ` set (map (map_prod id f) kvs) \<Longrightarrow> kv \<in> set kvs \<Longrightarrow> f (snd kv) \<noteq> None"
  by (metis image_eqI list.set_map snd_map_prod)

lemma pos_fuel: "numeral k \<le> n \<Longrightarrow> \<exists>m. n = Suc m"
  by (cases n) auto

lemma reads_all: "reads j"
proof (induction j)
  case JNull
  show ?case unfolding reads_def
    by (auto simp: parse_literal_def skip_ws_def is_digit_def dest!: pos_fuel)
next
  case (JNum x)
  show ?case unfolding reads_def
  proof (intro allI impI)
    fix p n d u
    assume a: "print_json (JNum x) = Some p" "delim u" "2 * length p \<le> n"
    then have h: "p \<noteq> []" "hd p = CHR ''-'' \<or> is_digit (hd p)" using print_num_delim by simp_all
    then obtain m where "n = Suc m" using a(3) by (cases n) auto
    moreover obtain c t where "p = c # t" using h by (cases p) auto
    ultimately show "parse_value n d (p @ u) = (if json_depth (JNum x) \<le> d then Some (json_clean (JNum x), u) else None)"
      using parse_print_num [of x p u] a skip_ws_print [OF a(1), of u] h(2) by (auto simp: is_digit_def)
  qed
next
  case (JStr x)
  show ?case unfolding reads_def
  proof (intro allI impI)
    fix p n d u
    assume a: "print_json (JStr x) = Some p" "delim u" "2 * length p \<le> n"
    then obtain m where "n = Suc m" by (cases n) (auto simp: print_str_def)
    then show "parse_value n d (p @ u) = (if json_depth (JStr x) \<le> d then Some (json_clean (JStr x), u) else None)"
      using a(1) by (auto simp: print_str_def parse_print_chars)
  qed
next
  case (JArr xs)
  show ?case unfolding reads_def
  proof (intro allI impI)
    fix p n d u
    assume a: "print_json (JArr xs) = Some p" "delim u" "2 * length p \<le> n"
    let ?J = "Join CHR '','' (map (\<lambda>x. the (print_json x)) xs)"
    have none: "None \<notin> print_json ` set xs" and p: "p = CHR ''['' # ?J @ [CHR '']'']"
      using a(1) by (auto simp: Let_def comp_def split: if_splits)
    then have ok: "\<forall>x \<in> set xs. reads x \<and> print_json x \<noteq> None" using JArr by (metis imageI)
    obtain m where n: "n = Suc m" and m: "2 * length ?J < m" using a(3) p by (cases n) auto
    have dep: "json_depth (JArr xs) \<le> d \<longleftrightarrow> d \<noteq> 0 \<and> (\<forall>x \<in> set xs. json_depth x \<le> d - 1)"
      by (cases d) (simp_all add: fold_max_le)
    have e: "parse_value n d (p @ u) = (if d = 0 then None
       else if take 1 (skip_ws (?J @ CHR '']'' # u)) = '']'' then Some (JArr [], drop 1 (skip_ws (?J @ CHR '']'' # u)))
       else map_option (\<lambda>(xs, u). (JArr xs, u)) (parse_elems m (d - 1) (?J @ CHR '']'' # u)))"
      by (simp add: n p skip_ws_def [of "CHR ''['' # _"])
    show "parse_value n d (p @ u) = (if json_depth (JArr xs) \<le> d then Some (json_clean (JArr xs), u) else None)"
    proof (cases xs)
      case Nil
      then show ?thesis unfolding e dep by (simp add: Join_def)
    next
      case (Cons x ys)
      obtain q where q: "print_json x = Some q" using ok Cons by auto
      obtain c t where ct: "q = c # t" "value_head c" using print_json_head [OF q] by (cases q) auto
      obtain J' where J': "?J = c # J'" using q ct Cons by (cases ys) (simp_all add: Join_def)
      have "take 1 (skip_ws (?J @ CHR '']'' # u)) \<noteq> '']''"
        using J' ct value_head_ws value_head_close by simp
      then show ?thesis unfolding e dep using reads_elems [OF ok _ m, of "d - 1" u] Cons by simp
    qed
  qed
next
  case (JObj kvs)
  show ?case unfolding reads_def
  proof (intro allI impI)
    fix p n d u
    assume a: "print_json (JObj kvs) = Some p" "delim u" "2 * length p \<le> n"
    let ?J = "Join CHR '','' (map print_member kvs)"
    have ok: "\<forall>kv \<in> set kvs. reads (snd kv) \<and> print_json (snd kv) \<noteq> None"
    proof
      fix kv assume kv: "kv \<in> set kvs"
      have "None \<notin> snd ` set (map (map_prod id print_json) kvs)" using a(1) by (auto simp: Let_def split: if_splits)
      then have "print_json (snd kv) \<noteq> None" using kv by (rule none_member)
      then show "reads (snd kv) \<and> print_json (snd kv) \<noteq> None"
        using JObj.IH [OF kv, of "snd kv"] by (simp add: snds.simps prod_set_simps)
    qed
    have "map (\<lambda>(k, p). print_str k @ [CHR '':''] @ the p) (map (map_prod id print_json) kvs) = map print_member kvs"
      by (simp add: print_member_def case_prod_beta comp_def)
    then have p: "p = CHR ''{'' # ?J @ [CHR ''}'']" using a(1) by (auto simp: Let_def simp del: map_map split: if_splits)
    obtain m where n: "n = Suc m" and m: "2 * length ?J < m" using a(3) p by (cases n) auto
    have dep: "json_depth (JObj kvs) \<le> d \<longleftrightarrow> d \<noteq> 0 \<and> (\<forall>kv \<in> set kvs. json_depth (snd kv) \<le> d - 1)"
      by (cases d) (auto simp: fold_max_le)
    have e: "parse_value n d (p @ u) = (if d = 0 then None
       else if take 1 (skip_ws (?J @ CHR ''}'' # u)) = ''}'' then Some (JObj [], drop 1 (skip_ws (?J @ CHR ''}'' # u)))
       else map_option (\<lambda>(xs, u). (JObj xs, u)) (parse_members m (d - 1) (?J @ CHR ''}'' # u)))"
      by (simp add: n p skip_ws_def [of "CHR ''{'' # _"])
    show "parse_value n d (p @ u) = (if json_depth (JObj kvs) \<le> d then Some (json_clean (JObj kvs), u) else None)"
    proof (cases kvs)
      case Nil
      then show ?thesis unfolding e dep by (simp add: Join_def)
    next
      case (Cons kv kvs')
      obtain J' where J': "?J = CHR 0x22 # J'" using Cons by (cases kvs') (simp_all add: Join_def print_member_def print_str_def)
      then show ?thesis unfolding e dep using reads_members [OF ok _ m, of "d - 1" u] Cons by simp
    qed
  qed
next
  case (JBool b)
  show ?case unfolding reads_def
    by (auto simp: parse_literal_def skip_ws_def is_digit_def dest!: pos_fuel)
next
  case JNegZero
  have "parse_num (''-0'' @ u) = Some (JNegZero, u)" if "delim u" for u
  proof -
    have "parse_unsigned (''0'' @ u) = Some (0, u)"
      using parse_plain [of "''0''" "[]" u] that by (simp add: is_digit_def digits_val_def digit_val_def)
    then show ?thesis by (simp add: parse_num_def number_json_def f64_of_rat_def f64_round_def)
  qed
  then show ?case unfolding reads_def by (auto simp: skip_ws_def is_digit_def dest!: pos_fuel)
qed

lemma parse_print_json:
  assumes "print_json j = Some p"
  shows "parse_json p = (if json_depth j \<le> max_depth then Some (json_clean j) else None)"
  using readsD [OF reads_all assms, of "[]" "2 * length p + 1" max_depth]
  by (simp add: parse_json_def delim_def skip_ws_def)

lemma print_json_finite: "print_json j = Some p \<Longrightarrow> nums_fit j"
proof (induction j arbitrary: p)
  case (JArr xs)
  have "nums_fit x" if "x \<in> set xs" for x
    using JArr.prems JArr.IH [OF that] that by (cases "print_json x") (force simp: Let_def image_iff split: if_splits)+
  then show ?case by (simp add: list_all_iff)
next
  case (JObj kvs)
  have "nums_fit (snd kv)" if "kv \<in> set kvs" for kv
  proof -
    have "None \<notin> snd ` set (map (map_prod id print_json) kvs)" using JObj.prems by (auto simp: Let_def split: if_splits)
    then have "print_json (snd kv) \<noteq> None" using that by (rule none_member)
    then show ?thesis using JObj.IH [OF that, of "snd kv"] by (cases "print_json (snd kv)") (auto simp: snds.simps)
  qed
  then show ?case by (auto simp: list_all_iff)
qed (auto simp: print_num_def split: f64.splits)

subsection \<open>The fuel is enough\<close>

lemma parse_str_shrinks: "parse_str s = Some (x, u) \<Longrightarrow> length u < length s"
proof (induction s arbitrary: x u rule: parse_str.induct)
  case (1 s)
  show ?case
  proof (cases s)
    case Nil
    then show ?thesis using 1 by (simp add: parse_str.simps)
  next
    case (Cons c t)
    consider "c = CHR 0x22" | (esc) y v where "c \<noteq> CHR 0x22" "c = CHR 0x5C" "parse_escape t = Some (y, v)"
      | "c = CHR 0x5C" "parse_escape t = None" | "c \<noteq> CHR 0x22" "c \<noteq> CHR 0x5C" "byte c < 0x20"
      | (rune) "c \<noteq> CHR 0x22" "c \<noteq> CHR 0x5C" "\<not> byte c < 0x20" by (cases "parse_escape t") auto
    then show ?thesis
    proof cases
      case esc
      obtain y' where "parse_str v = Some (y', u)"
        using 1(3) esc by (subst (asm) parse_str.simps) (auto simp: Cons)
      then have "length u < length v" using 1(1) [of c t "(y, v)" y v] esc Cons by auto
      then show ?thesis using parse_escape_shrinks [OF esc(3)] Cons by simp
    next
      case rune
      obtain r w where rw: "decode_rune s = (r, w)" by fastforce
      obtain y' where "parse_str (drop w s) = Some (y', u)"
        using 1(3) rune rw by (subst (asm) parse_str.simps) (auto simp: Cons)
      then have "length u < length (drop w s)" using 1(2) [of c t "(r, w)" r w] rune Cons rw by auto
      then show ?thesis by simp
    qed (use 1(3) in \<open>subst (asm) parse_str.simps, simp add: Cons\<close>)+
  qed
qed

lemma skip_ws_length: "length (skip_ws s) \<le> length s"
  unfolding skip_ws_def by (rule length_dropWhile_le)

lemma take_digits_length: "take_digits s = (ds, u) \<Longrightarrow> length ds + length u = length s"
  by (auto simp: take_digits_def) (metis length_append takeWhile_dropWhile_id)

lemma parse_int_part_shrinks: "parse_int_part s = Some (ip, u) \<Longrightarrow> length u < length s"
  by (cases ip) (auto simp: parse_int_part_def split: list.splits if_splits prod.splits dest!: take_digits_length)

lemma parse_frac_length: "parse_frac s = Some (fp, u) \<Longrightarrow> length u \<le> length s"
  by (auto simp: parse_frac_def split: list.splits if_splits prod.splits dest!: take_digits_length)

lemma split_sign_length: "split_sign s = (n, u) \<Longrightarrow> length u \<le> length s"
  by (auto simp: split_sign_def split: list.splits if_splits)

lemma parse_exp_length: "parse_exp s = Some (e, u) \<Longrightarrow> length u \<le> length s"
  by (auto simp: parse_exp_def Let_def split: list.splits if_splits prod.splits
      dest!: take_digits_length split_sign_length)

lemma parse_unsigned_shrinks: "parse_unsigned s = Some (v, u) \<Longrightarrow> length u < length s"
  by (auto simp: parse_unsigned_def split: option.splits prod.splits
      dest!: parse_int_part_shrinks parse_frac_length parse_exp_length)

lemma parse_num_shrinks: "parse_num s = Some (j, u) \<Longrightarrow> length u < length s"
  by (auto simp: parse_num_def split: list.splits if_splits dest!: parse_unsigned_shrinks)

lemma parse_literal_shrinks: "parse_literal s = Some (j, u) \<Longrightarrow> length u < length s"
  by (cases s) (auto simp: parse_literal_def split: if_splits)

lemma drop_ws_length: "take 1 (skip_ws s) = [c] \<Longrightarrow> length (drop 1 (skip_ws s)) < length s"
  using skip_ws_length [of s] by (cases "skip_ws s") auto

lemma ws_Cons_length: "skip_ws s = c # t \<Longrightarrow> length t < length s"
  using skip_ws_length [of s] by simp

lemma parse_shrinks:
  "(parse_value n d s = Some (x, u) \<longrightarrow> length u < length s) \<and>
   (parse_elems n d s' = Some (xs, u') \<longrightarrow> length u' < length s') \<and>
   (parse_members n d s'' = Some (kvs, u'') \<longrightarrow> length u'' < length s'')"
proof (induction n arbitrary: d s x u s' xs u' s'' kvs u'')
  case (Suc n)
  note v = Suc.IH [THEN conjunct1, rule_format] and e = Suc.IH [THEN conjunct2, THEN conjunct1, rule_format]
    and m = Suc.IH [THEN conjunct2, THEN conjunct2, rule_format]
  have 1: "length u < length s" if a: "parse_value (Suc n) d s = Some (x, u)" for d s x u
  proof -
    obtain c t where ct: "skip_ws s = c # t" using a by (cases "skip_ws s") auto
    have l: "length t < length s" using ws_Cons_length [OF ct] .
    show ?thesis using a
      by (auto simp: ct split: if_splits dest!: parse_str_shrinks e m drop_ws_length parse_num_shrinks parse_literal_shrinks)
        (use l skip_ws_length [of t] in auto)
  qed
  have 2: "length u < length s" if "parse_elems (Suc n) d s = Some (xs, u)" for d s xs u
    using that by (auto split: option.splits list.splits if_splits dest!: v e ws_Cons_length)
  have 3: "length u < length s" if "parse_members (Suc n) d s = Some (kvs, u)" for d s kvs u
    using that by (auto split: option.splits list.splits if_splits dest!: v m ws_Cons_length parse_str_shrinks drop_ws_length)
      (use skip_ws_length in \<open>meson diff_le_self less_imp_le less_le_trans order_trans less_trans le_less_trans\<close>)+
  show ?case using 1 2 3 by blast
qed simp

lemma parse_fuel:
  "(2 * length s < n \<longrightarrow> parse_value (Suc n) d s = parse_value n d s) \<and>
   (2 * length s' + 1 < n \<longrightarrow> parse_elems (Suc n) d s' = parse_elems n d s') \<and>
   (2 * length s'' + 1 < n \<longrightarrow> parse_members (Suc n) d s'' = parse_members n d s'')"
proof (induction n arbitrary: d s s' s'')
  case (Suc n)
  note v = Suc.IH [THEN conjunct1, rule_format] and e = Suc.IH [THEN conjunct2, THEN conjunct1, rule_format]
    and m = Suc.IH [THEN conjunct2, THEN conjunct2, rule_format]
  note shrink = parse_shrinks [THEN conjunct1, rule_format]
  have 1: "parse_value (Suc (Suc n)) d s = parse_value (Suc n) d s" if a: "2 * length s < Suc n" for d s
  proof (cases "skip_ws s")
    case (Cons c t)
    have "2 * length t + 1 < n" using ws_Cons_length [OF Cons] a by linarith
    then have "parse_elems (Suc n) d' t = parse_elems n d' t" "parse_members (Suc n) d' t = parse_members n d' t" for d'
      using e m by blast+
    then show ?thesis
      by (simp add: parse_value.simps(2) [of "Suc n"] parse_value.simps(2) [of n] Cons
          del: parse_value.simps parse_elems.simps parse_members.simps)
  qed simp
  have 2: "parse_elems (Suc (Suc n)) d s = parse_elems (Suc n) d s" if a: "2 * length s + 1 < Suc n" for d s
  proof (cases "parse_value n d s")
    case None
    then show ?thesis using v [of s d] a by simp
  next
    case (Some xu)
    obtain x u where xu: "xu = (x, u)" by fastforce
    have l: "length u < length s" using shrink Some xu by blast
    have "parse_elems (Suc n) d t = parse_elems n d t" if "skip_ws u = c # t" for c t
      using ws_Cons_length [OF that] l a by (intro e) linarith
    then show ?thesis using v [of s d] a Some xu
      by (simp add: parse_elems.simps(2) [of "Suc n"] parse_elems.simps(2) [of n] del: parse_elems.simps parse_value.simps split: list.splits)
  qed
  have 3: "parse_members (Suc (Suc n)) d s = parse_members (Suc n) d s" if a: "2 * length s + 1 < Suc n" for d s
  proof (cases "skip_ws s")
    case (Cons q t)
    show ?thesis
    proof (cases "parse_str t")
      case (Some ku)
      obtain k u where ku: "ku = (k, u)" by fastforce
      have lu: "length u < length t" "length t < length s" using parse_str_shrinks Some ku ws_Cons_length [OF Cons] by auto
      let ?r = "drop 1 (skip_ws u)"
      have lr: "length ?r \<le> length u" using skip_ws_length [of u] by simp
      have pv: "parse_value (Suc n) d ?r = parse_value n d ?r" using lu lr a by (intro v) linarith
      have pm: "parse_members (Suc n) d w = parse_members n d w"
        if "parse_value n d ?r = Some (x, z)" "skip_ws z = c # w" for x z c w
        using shrink [OF that(1)] ws_Cons_length [OF that(2)] lu lr a by (intro m) linarith
      show ?thesis using pv pm
        by (simp add: parse_members.simps(2) [of "Suc n"] parse_members.simps(2) [of n] Cons Some ku
            del: parse_members.simps parse_value.simps split: list.splits option.splits)
    qed (simp add: Cons)
  qed simp
  show ?case using 1 2 3 by blast
qed simp

lemma parse_json_fuel: "2 * length s < n \<Longrightarrow> parse_value n max_depth s = parse_value (2 * length s + 1) max_depth s"
proof (induction n)
  case (Suc n)
  then show ?case using parse_fuel [THEN conjunct1, rule_format, of s n max_depth] by (cases "2 * length s = n") auto
qed simp

end
