(* ===== verification/Go_Time.thy ===== *)
theory Go_Time
  imports Json_Text "HOL-Library.Monad_Syntax"
begin

text \<open>
  The text of an instant as \<^verbatim>\<open>time.Time\<close> marshals it (RFC 3339 with nanoseconds,
  trailing zeros dropped, an error outside the years 0 to 9999) and reads it back. Instants are
  nanoseconds since 1970-01-01 UTC; the argument \<open>z\<close> is the zone of the process, in minutes east of UTC.
\<close>

subsection \<open>The calendar\<close>

text \<open>Days are counted from 0000-03-01 as in the usual algorithms, so that the leap day is the last day of
  its year; months are counted from March.\<close>

definition days_of_era :: "int \<Rightarrow> int \<Rightarrow> int" where
  "days_of_era y d = 365 * y + y div 4 - y div 100 + y div 400 + d"

definition year_of_day :: "int \<Rightarrow> int" where
  "year_of_day n =
     (let era = n div 146097; r = n mod 146097;
          c = min 3 (r div 36524); r1 = r - 36524 * c;
          f = r1 div 1461; r2 = r1 mod 1461; a = min 3 (r2 div 365)
      in 400 * era + 100 * c + 4 * f + a)"

lemma div_parts: "0 \<le> a \<Longrightarrow> a < k \<Longrightarrow> (k * q + a) div k = (q::int)"
  by simp

lemma year_of_day_bounds:
  "0 \<le> n - days_of_era (year_of_day n) 0 \<and> n - days_of_era (year_of_day n) 0 \<le> 365"
proof -
  define era r where "era = n div 146097" and "r = n mod 146097"
  define c where "c = min 3 (r div 36524)"
  define r1 where "r1 = r - 36524 * c"
  define f r2 where "f = r1 div 1461" and "r2 = r1 mod 1461"
  define a where "a = min 3 (r2 div 365)"
  have r: "0 \<le> r" "r < 146097" "n = 146097 * era + r" by (simp_all add: r_def era_def)
  have c: "0 \<le> c" "c \<le> 3" "0 \<le> r1" "r1 \<le> 36524" "c < 3 \<longrightarrow> r1 < 36524"
    using r by (auto simp: c_def r1_def min_def split: if_splits)
  have f: "0 \<le> f" "f \<le> 24" "0 \<le> r2" "r2 < 1461" "r1 = 1461 * f + r2"
    using c by (auto simp: f_def r2_def)
  have a: "0 \<le> a" "a \<le> 3" "0 \<le> r2 - 365 * a" "r2 - 365 * a \<le> 365"
    using f by (auto simp: a_def min_def split: if_splits)
  have y: "year_of_day n = 400 * era + 100 * c + 4 * f + a"
    by (simp add: year_of_day_def Let_def era_def r_def c_def r1_def f_def r2_def a_def)
  let ?y = "400 * era + 100 * c + 4 * f + a"
  have "?y = 4 * (100 * era + 25 * c + f) + a" "?y = 100 * (4 * era + c) + (4 * f + a)"
    "?y = 400 * era + (100 * c + 4 * f + a)" by simp_all
  then have "?y div 4 = 100 * era + 25 * c + f" "?y div 100 = 4 * era + c" "?y div 400 = era"
    using div_parts [of a 4] div_parts [of "4 * f + a" 100] div_parts [of "100 * c + 4 * f + a" 400] a f c by simp_all
  then have "days_of_era ?y 0 = 146097 * era + 36524 * c + 1461 * f + 365 * a"
    by (simp add: days_of_era_def)
  moreover have "n = 146097 * era + 36524 * c + 1461 * f + r2" using r(3) f(5) by (simp add: r1_def)
  ultimately show ?thesis using a(3,4) unfolding y by linarith
qed

text \<open>Year, month and day of a day number (0 is 1970-01-01), and back.\<close>

definition civil_of :: "int \<Rightarrow> int \<times> int \<times> int" where
  "civil_of n =
     (let e = n + 719468; y = year_of_day e; doy = e - days_of_era y 0; mi = (5 * doy + 2) div 153
      in (if mi < 10 then y else y + 1, if mi < 10 then mi + 3 else mi - 9, doy - (153 * mi + 2) div 5 + 1))"

definition days_of_civil :: "int \<times> int \<times> int \<Rightarrow> int" where
  "days_of_civil ymd =
     (let (y, m, d) = ymd; y' = (if m \<le> 2 then y - 1 else y); mi = (m + 9) mod 12
      in days_of_era y' ((153 * mi + 2) div 5 + d - 1) - 719468)"

lemma civil_of_range:
  assumes "civil_of n = (y, m, d)"
  shows "1 \<le> m \<and> m \<le> 12 \<and> 1 \<le> d \<and> d \<le> 31 \<and> days_of_civil (y, m, d) = n"
proof -
  define e where "e = n + 719468"
  define y0 where "y0 = year_of_day e"
  define doy where "doy = e - days_of_era y0 0"
  define mi where "mi = (5 * doy + 2) div 153"
  have doy: "0 \<le> doy" "doy \<le> 365" using year_of_day_bounds [of e] by (simp_all add: doy_def y0_def)
  have mi: "0 \<le> mi" "mi \<le> 11" using doy by (simp_all add: mi_def)
  have "153 * mi \<le> 5 * doy + 2" "5 * doy + 2 < 153 * mi + 153" by (simp_all add: mi_def)
  moreover have "5 * ((153 * mi + 2) div 5) \<le> 153 * mi + 2" "153 * mi + 2 < 5 * ((153 * mi + 2) div 5) + 5" by simp_all
  ultimately have d: "0 \<le> doy - (153 * mi + 2) div 5" "doy - (153 * mi + 2) div 5 \<le> 30" by linarith+
  have eq: "y = (if mi < 10 then y0 else y0 + 1)" "m = (if mi < 10 then mi + 3 else mi - 9)" "d = doy - (153 * mi + 2) div 5 + 1"
    using assms unfolding civil_of_def Let_def e_def [symmetric] y0_def [symmetric] doy_def [symmetric] mi_def [symmetric]
    by simp_all
  have "(m + 9) mod 12 = mi"
  proof (cases "mi < 10")
    case True
    then have "m + 9 = mi + 12" using eq(2) by simp
    then show ?thesis using mi by simp
  qed (use mi eq(2) in simp)
  moreover have "(if m \<le> 2 then y - 1 else y) = y0" using mi eq(1,2) by auto
  ultimately have "days_of_civil (y, m, d) = days_of_era y0 0 + doy - 719468"
    by (simp add: days_of_civil_def Let_def eq(3) days_of_era_def)
  then show ?thesis using mi d eq by (auto simp: doy_def e_def)
qed

subsection \<open>Text\<close>

definition two :: "int \<Rightarrow> string" where
  "two n = [digit_char (nat n div 10), digit_char (nat n mod 10)]"

definition four :: "int \<Rightarrow> string" where
  "four n = two (n div 100) @ two (n mod 100)"

text \<open>The nanoseconds: nine digits without their trailing zeros.\<close>

definition nine :: "int \<Rightarrow> string" where
  "nine n = (let ds = dec_digits (nat n) in replicate (9 - length ds) CHR ''0'' @ ds)"

definition frac_text :: "int \<Rightarrow> string" where
  "frac_text n = (if n = 0 then [] else CHR ''.'' # rev (dropWhile (\<lambda>c. c = CHR ''0'') (rev (nine n))))"

definition zone_text :: "int \<Rightarrow> string" where
  "zone_text z =
     (if z = 0 then ''Z''
      else (if z < 0 then CHR ''-'' else CHR ''+'') # two (\<bar>z\<bar> div 60) @ CHR '':'' # two (\<bar>z\<bar> mod 60))"

definition rfc3339_text :: "int \<Rightarrow> time \<Rightarrow> string option" where
  "rfc3339_text z t =
     (let l = t + z * minute; n = l mod (24 * hour); (y, m, d) = civil_of (l div (24 * hour)) in
      if y < 0 \<or> 9999 < y \<or> 24 * 60 \<le> \<bar>z\<bar> then None
      else Some (four y @ CHR ''-'' # two m @ CHR ''-'' # two d @ CHR ''T'' #
                 two (n div hour) @ CHR '':'' # two (n div minute mod 60) @ CHR '':'' # two (n div second mod 60) @
                 frac_text (n mod second) @ zone_text z))"

subsection \<open>Reading\<close>

definition rd2 :: "string \<Rightarrow> (int \<times> string) option" where
  "rd2 s = (if 2 \<le> length s \<and> list_all is_digit (take 2 s) then Some (digits_val (take 2 s), drop 2 s) else None)"

definition rd4 :: "string \<Rightarrow> (int \<times> string) option" where
  "rd4 s = (if 4 \<le> length s \<and> list_all is_digit (take 4 s) then Some (digits_val (take 4 s), drop 4 s) else None)"

definition rdc :: "char \<Rightarrow> string \<Rightarrow> string option" where
  "rdc c s = (case s of x # t \<Rightarrow> if x = c then Some t else None | [] \<Rightarrow> None)"

definition rd_frac :: "string \<Rightarrow> (int \<times> string) option" where
  "rd_frac s =
     (case s of
        c # t \<Rightarrow>
          if c = CHR ''.'' then
            (let (ds, u) = take_digits t in
             if ds = [] then None else Some (digits_val (take 9 (ds @ replicate 9 CHR ''0'')), u))
          else Some (0, s)
      | [] \<Rightarrow> Some (0, s))"

definition rd_zone :: "string \<Rightarrow> int option" where
  "rd_zone s =
     (if s = ''Z'' then Some 0
      else case s of
        c # t \<Rightarrow>
          if c \<in> {CHR ''+'', CHR ''-''} then
            do { (h, t) \<leftarrow> rd2 t; t \<leftarrow> rdc CHR '':'' t; (m, t) \<leftarrow> rd2 t;
                 if t = [] \<and> h \<le> 23 \<and> m \<le> 59 then Some ((if c = CHR ''-'' then - 1 else 1) * (60 * h + m)) else None }
          else None
      | [] \<Rightarrow> None)"

text \<open>A date is valid when it is the date of its day number.\<close>

definition rfc3339_parse :: "string \<Rightarrow> time option" where
  "rfc3339_parse s =
     do { (y, s) \<leftarrow> rd4 s; s \<leftarrow> rdc CHR ''-'' s; (m, s) \<leftarrow> rd2 s; s \<leftarrow> rdc CHR ''-'' s; (d, s) \<leftarrow> rd2 s;
          s \<leftarrow> rdc CHR ''T'' s; (hh, s) \<leftarrow> rd2 s; s \<leftarrow> rdc CHR '':'' s; (mm, s) \<leftarrow> rd2 s; s \<leftarrow> rdc CHR '':'' s;
          (ss, s) \<leftarrow> rd2 s; (ns, s) \<leftarrow> rd_frac s; z \<leftarrow> rd_zone s;
          if civil_of (days_of_civil (y, m, d)) = (y, m, d) \<and> hh \<le> 23 \<and> mm \<le> 59 \<and> ss \<le> 59
          then Some (days_of_civil (y, m, d) * (24 * hour) + hh * hour + mm * minute + ss * second + ns - z * minute)
          else None }"

subsection \<open>What is printed is read back\<close>

lemma digits_val_two: "digits_val [a, b] = int (digit_val a * 10 + digit_val b)"
  by (simp add: digits_val_def)

lemma rd2_two: "0 \<le> n \<Longrightarrow> n < 100 \<Longrightarrow> rd2 (two n @ u) = Some (n, u)"
  using digit_char_val [of "nat n div 10"] digit_char_val [of "nat n mod 10"]
  by (simp add: rd2_def two_def digits_val_two nat_less_iff div_less_iff_less_mult)

lemma rd4_four:
  assumes "0 \<le> n" and "n < 10000"
  shows "rd4 (four n @ u) = Some (n, u)"
proof -
  have h: "0 \<le> n div 100" "n div 100 < 100" "0 \<le> n mod 100" "n mod 100 < 100" using assms by auto
  obtain a b where ab: "two (n div 100) = [a, b]" by (simp add: two_def)
  obtain c d where cd: "two (n mod 100) = [c, d]" by (simp add: two_def)
  have 1: "is_digit a" "is_digit b" "digits_val [a, b] = n div 100"
    using rd2_two [OF h(1,2), of "[]"] unfolding ab by (auto simp: rd2_def split: if_splits)
  have 2: "is_digit c" "is_digit d" "digits_val [c, d] = n mod 100"
    using rd2_two [OF h(3,4), of "[]"] unfolding cd by (auto simp: rd2_def split: if_splits)
  have "digits_val [a, b, c, d] = n" using digits_val_append [of "[a, b]" "[c, d]"] 1(3) 2(3) by simp
  then show ?thesis using 1 2 by (simp add: rd4_def four_def ab cd)
qed

lemma rdc_Cons [simp]: "rdc c (c # s) = Some s"
  by (simp add: rdc_def)

lemma dec_digits_length: "n < 10 ^ k \<Longrightarrow> 0 < k \<Longrightarrow> length (dec_digits n) \<le> k"
proof (induction n arbitrary: k rule: dec_digits.induct)
  case (1 n)
  show ?case
  proof (cases "n < 10")
    case False
    then obtain j where j: "k = Suc j" using 1(2) by (cases k) auto
    then have "n div 10 < 10 ^ j" "0 < j" using 1(2) False by (cases j; auto)+
    then show ?thesis using 1(1) False j by (simp add: dec_digits.simps [of n])
  qed (use 1(3) in \<open>simp add: dec_digits.simps [of n]\<close>)
qed

lemma nine_spec:
  assumes "0 \<le> n" and "n < second"
  shows "length (nine n) = 9 \<and> list_all is_digit (nine n) \<and> digits_val (nine n) = n"
proof -
  have "nat n < 10 ^ 9" using assms by simp
  then have "length (dec_digits (nat n)) \<le> 9" by (rule dec_digits_length) simp
  then show ?thesis using assms dec_digits_spec [of "nat n"]
    by (auto simp: nine_def Let_def digits_val_append digits_val_zeros list_all_iff is_digit_def)
qed

lemma strip_right:
  "\<exists>k. s = rev (dropWhile (\<lambda>c. c = CHR ''0'') (rev s)) @ replicate k CHR ''0''"
proof -
  let ?t = "takeWhile (\<lambda>c. c = CHR ''0'') (rev s)"
  have "replicate (length ?t) CHR ''0'' = ?t" by (rule replicate_length_same) (auto dest: set_takeWhileD)
  then have "rev ?t = replicate (length ?t) CHR ''0''" by (metis rev_replicate)
  moreover have "s = rev (dropWhile (\<lambda>c. c = CHR ''0'') (rev s)) @ rev ?t" by (simp flip: rev_append)
  ultimately show ?thesis by metis
qed

lemma rd_frac_text:
  assumes "0 \<le> n" and "n < second" and "no_digit u" and "\<And>t. u \<noteq> CHR ''.'' # t"
  shows "rd_frac (frac_text n @ u) = Some (n, u)"
proof (cases "n = 0")
  case True
  then show ?thesis using assms(4) by (auto simp: rd_frac_def frac_text_def split: list.splits)
next
  case False
  define ds where "ds = rev (dropWhile (\<lambda>c. c = CHR ''0'') (rev (nine n)))"
  obtain k where k: "nine n = ds @ replicate k CHR ''0''" using strip_right [of "nine n"] unfolding ds_def by blast
  note sp = nine_spec [OF assms(1,2)]
  have "ds \<noteq> []" using sp False k digits_val_zeros by auto
  moreover have "list_all is_digit ds" using sp k by simp
  moreover have "take 9 (ds @ replicate 9 CHR ''0'') = nine n"
  proof -
    have "length ds + k = 9" using sp k by (metis length_append length_replicate)
    then show ?thesis by (simp add: k take_replicate)
  qed
  ultimately show ?thesis using False sp assms(3)
    by (simp add: rd_frac_def frac_text_def take_digits_append flip: ds_def)
qed

lemma zone_text_head: "no_digit (zone_text z)" "zone_text z \<noteq> CHR ''.'' # t"
  by (auto simp: zone_text_def no_digit_def is_digit_def)

lemma rd_zone_text:
  assumes "\<bar>z\<bar> < 24 * 60"
  shows "rd_zone (zone_text z) = Some z"
proof (cases "z = 0")
  case False
  have h: "0 \<le> \<bar>z\<bar> div 60" "\<bar>z\<bar> div 60 \<le> 23" "0 \<le> \<bar>z\<bar> mod 60" "\<bar>z\<bar> mod 60 \<le> 59" using assms by auto
  have "60 * (\<bar>z\<bar> div 60) + \<bar>z\<bar> mod 60 = \<bar>z\<bar>" by simp
  then show ?thesis using False h rd2_two [of "\<bar>z\<bar> div 60"] rd2_two [of "\<bar>z\<bar> mod 60" "[]"]
    by (auto simp: zone_text_def rd_zone_def)
qed (simp add: zone_text_def rd_zone_def)

lemma parse_parts:
  assumes "0 \<le> y" "y < 10000" and "1 \<le> m" "m \<le> 12" and "1 \<le> d" "d \<le> 31"
    and "0 \<le> hh" "hh \<le> 23" and "0 \<le> mm" "mm \<le> 59" and "0 \<le> ss" "ss \<le> 59"
    and "rd_frac (f @ zt) = Some (ns, zt)" and "rd_zone zt = Some z" and "civil_of (days_of_civil (y, m, d)) = (y, m, d)"
  shows "rfc3339_parse (four y @ CHR ''-'' # two m @ CHR ''-'' # two d @ CHR ''T'' #
      two hh @ CHR '':'' # two mm @ CHR '':'' # two ss @ f @ zt) =
    Some (days_of_civil (y, m, d) * (24 * hour) + hh * hour + mm * minute + ss * second + ns - z * minute)"
  using assms by (simp add: rfc3339_parse_def rd4_four rd2_two)

lemma rfc3339_roundtrip:
  assumes "rfc3339_text z t = Some s"
  shows "rfc3339_parse s = Some t"
proof -
  define l where "l = t + z * minute"
  define n where "n = l mod (24 * hour)"
  obtain y m d where c: "civil_of (l div (24 * hour)) = (y, m, d)" by (metis prod_cases3)
  have y: "0 \<le> y" "y < 10000" "\<bar>z\<bar> < 24 * 60" and s: "s = four y @ CHR ''-'' # two m @ CHR ''-'' # two d @ CHR ''T'' #
      two (n div hour) @ CHR '':'' # two (n div minute mod 60) @ CHR '':'' # two (n div second mod 60) @
      frac_text (n mod second) @ zone_text z"
    using assms c by (auto simp: rfc3339_text_def Let_def l_def n_def split: if_splits)
  note r = civil_of_range [OF c]
  have n: "0 \<le> n" "n < 24 * hour" by (simp_all add: n_def)
  have h: "0 \<le> n div hour" "n div hour \<le> 23" using n by auto
  have mm: "0 \<le> n div minute mod 60" "n div minute mod 60 \<le> 59" "0 \<le> n div second mod 60" "n div second mod 60 \<le> 59"
    by auto
  have parts: "n div hour * hour + n div minute mod 60 * minute + n div second mod 60 * second + n mod second = n"
  proof -
    have "n div minute div 60 = n div hour" "n div second div 60 = n div minute"
      using zdiv_zmult2_eq [of 60 n minute] zdiv_zmult2_eq [of 60 n second] by simp_all
    then show ?thesis
      using div_mult_mod_eq [of n second] div_mult_mod_eq [of "n div second" 60] div_mult_mod_eq [of "n div minute" 60]
      by linarith
  qed
  have "rfc3339_parse s = Some (days_of_civil (y, m, d) * (24 * hour) + (n div hour) * hour +
      (n div minute mod 60) * minute + (n div second mod 60) * second + n mod second - z * minute)"
    unfolding s
    by (rule parse_parts [OF y(1,2) _ _ _ _ h mm rd_frac_text rd_zone_text [OF y(3)]])
      (use r c zone_text_head n in auto)
  also have "\<dots> = Some (l div (24 * hour) * (24 * hour) + n - z * minute)" using parts r by simp
  also have "l div (24 * hour) * (24 * hour) + n = l" unfolding n_def by (rule div_mult_mod_eq)
  finally show ?thesis by (simp add: l_def)
qed

end
