(* ===== verification/Codec.thy ===== *)
theory Codec
  imports Go_Time Message
begin

text \<open>
  The libraries of the \<open>codec\<close> interface, put together: JSON text and instants as in the Go standard
  library, and the canonical text of a UUID (RFC 4122). They satisfy the laws, so whatever follows from
  \<open>codec\<close> holds of the program with these libraries.
\<close>

subsection \<open>UUIDs\<close>

fun hexn :: "nat \<Rightarrow> nat \<Rightarrow> string" where
  "hexn 0 n = []"
| "hexn (Suc k) n = hexn k (n div 16) @ [hex_char (n mod 16)]"

definition hex_val :: "string \<Rightarrow> nat option" where
  "hex_val s = foldl (\<lambda>acc c. Option.bind acc (\<lambda>x. map_option (\<lambda>d. 16 * x + d) (hex_digit_val c))) (Some 0) s"

definition uuid_text :: "uuid \<Rightarrow> string" where
  "uuid_text u =
     (let h = hexn 32 (unat u)
      in take 8 h @ CHR ''-'' # take 4 (drop 8 h) @ CHR ''-'' # take 4 (drop 12 h) @ CHR ''-'' #
         take 4 (drop 16 h) @ CHR ''-'' # drop 20 h)"

definition uuid_read :: "string \<Rightarrow> uuid option" where
  "uuid_read s =
     (if length s = 36 \<and> (\<forall>i \<in> set [8, 13, 18, 23]. s ! i = CHR ''-'')
      then map_option of_nat
        (hex_val (take 8 s @ take 4 (drop 9 s) @ take 4 (drop 14 s) @ take 4 (drop 19 s) @ drop 24 s))
      else None)"

lemma hexn_length [simp]: "length (hexn k n) = k"
  by (induction k n rule: hexn.induct) auto

lemma hex_val_snoc: "hex_val (s @ [c]) = Option.bind (hex_val s) (\<lambda>x. map_option (\<lambda>d. 16 * x + d) (hex_digit_val c))"
  by (simp add: hex_val_def)

lemma hex_val_hexn: "hex_val (hexn k n) = Some (n mod 16 ^ k)"
proof (induction k arbitrary: n)
  case (Suc k)
  have "16 * (n div 16 mod 16 ^ k) + n mod 16 = n mod (16 * 16 ^ k)" by (simp add: mod_mult2_eq)
  then show ?case by (simp add: hex_val_snoc hex_char_val Suc)
qed (simp add: hex_val_def)

lemma uuid_text_read: "uuid_read (uuid_text u) = Some u"
proof -
  define h where "h = hexn 32 (unat u)"
  define a b c d e where "a = take 8 h" and "b = take 4 (drop 8 h)" and "c = take 4 (drop 12 h)"
    and "d = take 4 (drop 16 h)" and "e = drop 20 h"
  have l: "length a = 8" "length b = 4" "length c = 4" "length d = 4" "length e = 12"
    by (simp_all add: a_def b_def c_def d_def e_def h_def)
  have "drop 8 h = b @ drop 12 h" "drop 12 h = c @ drop 16 h" "drop 16 h = d @ e" "h = a @ drop 8 h"
    unfolding a_def b_def c_def d_def e_def
    using append_take_drop_id [of 4 "drop 8 h"] append_take_drop_id [of 4 "drop 12 h"]
      append_take_drop_id [of 4 "drop 16 h"] by simp_all
  then have "h = a @ b @ c @ d @ e" by simp
  moreover have "uuid_text u = a @ CHR ''-'' # b @ CHR ''-'' # c @ CHR ''-'' # d @ CHR ''-'' # e"
    by (simp add: uuid_text_def Let_def a_def b_def c_def d_def e_def h_def)
  moreover have "hex_val h = Some (unat u)"
  proof -
    have "unat u < 2 ^ 128" using unsigned_less [of u, where 'a = nat] by simp
    then have "unat u mod 16 ^ 32 = unat u" by simp
    then show ?thesis by (simp add: h_def hex_val_hexn)
  qed
  ultimately show ?thesis using l by (simp add: uuid_read_def nth_append)
qed

subsection \<open>Plain ASCII\<close>

lemma valid_utf8_ascii: "list_all (\<lambda>c. byte c < 0x80) s \<Longrightarrow> valid_utf8 s"
proof (induction s)
  case (Cons c s)
  then show ?case by (subst valid_utf8.simps) (simp add: decode_rune_ascii)
qed (simp add: valid_utf8.simps)

abbreviation ascii :: "string \<Rightarrow> bool" where
  "ascii \<equiv> list_all (\<lambda>c. byte c < 0x80)"

lemma is_digit_ascii: "list_all is_digit s \<Longrightarrow> ascii s"
  by (auto simp: list_all_iff is_digit_def)

lemma hexn_ascii: "ascii (hexn k n)"
  by (induction k n rule: hexn.induct) (auto simp: hex_char_def)

lemma ascii_take_drop: "ascii s \<Longrightarrow> ascii (take n s) \<and> ascii (drop n s)"
  by (metis append_take_drop_id list_all_append)

lemma uuid_text_ascii: "ascii (uuid_text u)"
  using ascii_take_drop [OF hexn_ascii [of 32 "unat u"]] ascii_take_drop [OF conjunct2 [OF ascii_take_drop [OF hexn_ascii [of 32 "unat u"]]]]
  by (simp add: uuid_text_def Let_def)

lemma two_ascii: "0 \<le> n \<Longrightarrow> n < 100 \<Longrightarrow> ascii (two n)"
  using digit_char_val [of "nat n div 10"] digit_char_val [of "nat n mod 10"]
  by (simp add: two_def is_digit_def nat_less_iff div_less_iff_less_mult)

lemma frac_ascii:
  assumes "0 \<le> n" and "n < second"
  shows "ascii (frac_text n)"
proof -
  have "ascii (nine n)" using nine_spec [OF assms] is_digit_ascii by blast
  then have "ascii (rev (dropWhile (\<lambda>c. c = CHR ''0'') (rev (nine n))))"
    by (auto simp: list_all_iff dest!: set_dropWhileD)
  then show ?thesis by (simp add: frac_text_def)
qed

lemma zone_ascii: "\<bar>z\<bar> < 24 * 60 \<Longrightarrow> ascii (zone_text z)"
  using two_ascii [of "\<bar>z\<bar> div 60"] two_ascii [of "\<bar>z\<bar> mod 60"] by (simp add: zone_text_def)

lemma rfc3339_ascii:
  assumes "rfc3339_text z t = Some s"
  shows "ascii s"
proof -
  define l where "l = t + z * minute"
  define n where "n = l mod (24 * hour)"
  obtain y m d where c: "civil_of (l div (24 * hour)) = (y, m, d)" by (metis prod_cases3)
  have y: "0 \<le> y" "y < 10000" "\<bar>z\<bar> < 24 * 60" and s: "s = four y @ CHR ''-'' # two m @ CHR ''-'' # two d @ CHR ''T'' #
      two (n div hour) @ CHR '':'' # two (n div minute mod 60) @ CHR '':'' # two (n div second mod 60) @
      frac_text (n mod second) @ zone_text z"
    using assms c by (auto simp: rfc3339_text_def Let_def l_def n_def split: if_splits)
  have "0 \<le> n" "n < 24 * hour" by (simp_all add: n_def)
  then have "0 \<le> n div hour" "n div hour < 100" by auto
  then have "ascii (two (n div hour))" by (rule two_ascii)
  moreover have "ascii (two m)" "ascii (two d)" using civil_of_range [OF c] by (auto intro!: two_ascii)
  moreover have "0 \<le> y div 100" "y div 100 < 100" using y by auto
  then have "ascii (four y)" by (simp add: four_def two_ascii)
  moreover have "ascii (two (n div minute mod 60))" "ascii (two (n div second mod 60))"
    by (rule two_ascii; use pos_mod_bound [of 60] in \<open>simp add: less_imp_le less_trans [OF pos_mod_bound [of 60]]\<close>)+
  moreover have "ascii (frac_text (n mod second))" by (rule frac_ascii) simp_all
  ultimately show ?thesis using zone_ascii [OF y(3)] unfolding s by simp
qed

subsection \<open>The instance\<close>

text \<open>\<open>z\<close> is the zone of the process, in minutes.\<close>

definition go_externs :: "int \<Rightarrow> externs" where
  "go_externs z =
     \<lparr>json_decode = parse_json, json_encode = print_json, uuid_Parse = uuid_read, uuid_String = uuid_text,
      time_text = rfc3339_text z, time_parse = rfc3339_parse\<rparr>"

lemma go_externs_codec: "codec (go_externs z)"
  by unfold_locales
    (auto simp: go_externs_def uuid_text_read rfc3339_roundtrip print_json_finite parse_print_json
      intro: valid_utf8_ascii uuid_text_ascii rfc3339_ascii)

interpretation go: codec "go_externs 0"
  by (rule go_externs_codec)

end
