(* ===== verification/Mini_Redis.thy ===== *)
theory Mini_Redis
  imports Redis_Storage Codec
begin

text \<open>
  A small Redis server of the kind the tests of the repository run against: a keyspace of hashes and a
  script of faults to come. It shows that the laws of \<open>redis_server\<close> can hold together, with commands
  that fail before or after they took effect and scans that take several calls.
\<close>

datatype fault = Fine | Refused | ReplyLost

record mini =
  keyspace :: "(string, (string, string) gomap) gomap"
  script :: "fault list"

definition mini_hashes :: "mini \<Rightarrow> hash_db" where
  "mini_hashes r k = gm_get (gm_list (keyspace r) k)"

fun mini_run :: "redis_cmd \<Rightarrow> (string, (string, string) gomap) gomap \<Rightarrow> (string, (string, string) gomap) gomap" where
  "mini_run (Del k) ks = gm_del k ks"
| "mini_run (HSet k f v) ks = gm_put k (gm_put f v (gm_list ks k)) ks"
| "mini_run (HDel k f) ks =
     (let h = gm_del f (gm_list ks k) in if h = [] then gm_del k ks else gm_put k h ks)"
| "mini_run (Expire_key k d) ks = ks"

definition next_fault :: "mini \<Rightarrow> fault \<times> mini" where
  "next_fault r = (case script r of [] \<Rightarrow> (Fine, r) | x # xs \<Rightarrow> (x, r\<lparr>script := xs\<rparr>))"

definition mini_exec :: "redis_cmd list \<Rightarrow> mini \<Rightarrow> error option \<times> mini" where
  "mini_exec cs r =
     (let (x, r1) = next_fault r; done = r1\<lparr>keyspace := fold mini_run cs (keyspace r1)\<rparr> in
      case x of Fine \<Rightarrow> (None, done) | Refused \<Rightarrow> (Some ''io'', r1) | ReplyLost \<Rightarrow> (Some ''io'', done))"

definition mini_hgetall :: "string \<Rightarrow> mini \<Rightarrow> (error + (string, string) gomap) \<times> mini" where
  "mini_hgetall k r =
     (let (x, r1) = next_fault r in
      (if x = Fine then Inr (AList.clearjunk (gm_list (keyspace r1) k)) else Inl ''io'', r1))"

definition mini_scan :: "64 word \<Rightarrow> string \<Rightarrow> nat \<Rightarrow> mini \<Rightarrow> (error + string list \<times> 64 word) \<times> mini" where
  "mini_scan c p n r =
     (let (x, r1) = next_fault r; ks = gm_keys (keyspace r1); i = unat c; j = i + max 1 n in
      if x \<noteq> Fine \<or> 2 ^ 64 \<le> length ks then (Inl ''io'', r1)
      else (Inr (filter (\<lambda>k. take (length p - 1) k = take (length p - 1) p) (take (j - i) (drop i ks)),
                 if j < length ks then of_nat j else 0), r1))"

definition mini_ping :: "mini \<Rightarrow> error option \<times> mini" where
  "mini_ping r = (let (x, r1) = next_fault r in (if x = Fine then None else Some ''io'', r1))"

definition mini_redis :: "(mini, string) redis" where
  "mini_redis =
     \<lparr>rd_ParseURL = (\<lambda>u. if take 8 u = ''redis://'' then Inr u else Inl ''url''),
      rd_NewClient = (\<lambda>_. \<lparr>keyspace = [], script = []\<rparr>), rd_Ping = mini_ping,
      rd_Do = (\<lambda>c. mini_exec [c]), rd_TxExec = mini_exec, rd_HGetAll = mini_hgetall,
      rd_Scan = mini_scan, rd_Publish = (\<lambda>_ _. mini_ping)\<rparr>"

definition mini_pending :: "mini \<Rightarrow> 64 word \<Rightarrow> string set" where
  "mini_pending r c = set (drop (unat c) (gm_keys (keyspace r)))"

definition mini_rank :: "mini \<Rightarrow> 64 word \<Rightarrow> nat" where
  "mini_rank r c = (let n = length (keyspace r) in if 2 ^ 64 \<le> n then 0 else n - unat c)"

lemma mini_hashes_upd: "mini_hashes (r\<lparr>keyspace := ks\<rparr>) k = gm_get (gm_list ks k)"
  by (simp add: mini_hashes_def)

lemma mini_run_effect:
  "mini_hashes (r\<lparr>keyspace := mini_run c ks\<rparr>) = cmd_effect c (mini_hashes (r\<lparr>keyspace := ks\<rparr>))"
proof (cases c)
  case (HDel k f)
  have "gm_del f (gm_list ks k) = [] \<Longrightarrow> (gm_get (gm_list ks k))(f := None) = Map.empty"
    by (metis gm_get_del map_of.simps(1))
  then show ?thesis using HDel by (auto simp: fun_eq_iff mini_hashes_upd gomap_simps Let_def)
qed (auto simp: fun_eq_iff mini_hashes_upd gomap_simps)

lemma mini_fold_effect:
  "mini_hashes (r\<lparr>keyspace := fold mini_run cs ks\<rparr>) = fold cmd_effect cs (mini_hashes (r\<lparr>keyspace := ks\<rparr>))"
  by (induction cs arbitrary: ks) (simp_all add: mini_run_effect)

lemma next_fault_frame: "next_fault r = (x, r1) \<Longrightarrow> keyspace r1 = keyspace r"
  by (auto simp: next_fault_def split: list.splits)

lemma mini_hashes_cong: "keyspace r' = keyspace r \<Longrightarrow> mini_hashes r' = mini_hashes r"
  by (simp add: mini_hashes_def fun_eq_iff)

lemma mini_exec_effect:
  assumes "mini_exec cs r = (e, r')"
  shows "mini_hashes r' \<in> {mini_hashes r, fold cmd_effect cs (mini_hashes r)} \<and>
         (e = None \<longrightarrow> mini_hashes r' = fold cmd_effect cs (mini_hashes r))"
proof -
  obtain x r1 where f: "next_fault r = (x, r1)" by fastforce
  note k = next_fault_frame [OF f]
  have "mini_hashes (r1\<lparr>keyspace := keyspace r1\<rparr>) = mini_hashes r"
    by (rule mini_hashes_cong) (simp add: k)
  then have "mini_hashes (r1\<lparr>keyspace := fold mini_run cs (keyspace r1)\<rparr>) = fold cmd_effect cs (mini_hashes r)"
    by (simp only: mini_fold_effect)
  then show ?thesis using assms mini_hashes_cong [OF k] by (cases x) (auto simp: mini_exec_def f)
qed

interpretation mini: redis_server mini_redis mini_hashes mini_pending mini_rank
proof (unfold_locales, goal_cases)
  case (3 cmd r e r')
  then show ?case using mini_exec_effect [of "[cmd]"] by (simp add: mini_redis_def)
next
  case (4 cs r e r')
  then show ?case using mini_exec_effect by (simp add: mini_redis_def)
next
  case (5 k r res r')
  obtain x r1 where f: "next_fault r = (x, r1)" by fastforce
  note k = next_fault_frame [OF f]
  have "res = (if x = Fine then Inr (AList.clearjunk (gm_list (keyspace r) k)) else Inl ''io'')" "r' = r1"
    using 5 f k by (auto simp: mini_redis_def mini_hgetall_def)
  then show ?case using mini_hashes_cong [OF k]
    by (auto simp: gm_ok_def mini_hashes_def map_of_clearjunk distinct_clearjunk simp del: set_map split: if_splits)
next
  case (6 r k)
  then show ?case
    by (auto simp: mini_pending_def mini_hashes_def gm_list_def gm_keys_iff simp del: set_map split: option.splits)
next
  case (7 c p n r batch "next" r')
  obtain x r1 where f: "next_fault r = (x, r1)" by fastforce
  note k = next_fault_frame [OF f]
  let ?ks = "gm_keys (keyspace r)" and ?j = "unat c + max 1 n"
  have l: "length ?ks < 2 ^ 64" and r': "r' = r1"
    and b: "batch = filter (\<lambda>k. take (length p) k = p) (take (?j - unat c) (drop (unat c) ?ks))"
    and nx: "next = (if ?j < length ?ks then of_nat ?j else 0)"
    using 7 by (auto simp: mini_redis_def mini_scan_def f k Let_def split: if_splits)
  have u: "unat (of_nat ?j :: 64 word) = ?j" if "?j < length ?ks" 
  proof -
    have "?j < 2 ^ LENGTH(64)" using that l by simp
    then show ?thesis unfolding unat_of_nat by (rule mod_less)
  qed
  have "drop (unat c) ?ks = take (?j - unat c) (drop (unat c) ?ks) @ drop ?j ?ks"
    using append_take_drop_id [of "?j - unat c" "drop (unat c) ?ks", symmetric]
    by (simp add: add.commute)
  then have "set (drop (unat c) ?ks) \<subseteq> set (take (?j - unat c) (drop (unat c) ?ks)) \<union> set (drop ?j ?ks)"
    by (metis set_append subset_refl)
  moreover have "?j < length ?ks \<Longrightarrow> next \<noteq> 0"
    using u nx by (metis add_is_0 max.cobounded1 not_one_le_zero unat_0)
  ultimately show ?case using u l nx
    by (auto simp: b r' mini_pending_def mini_rank_def k Let_def split: if_splits)
next
  case (8 c p n r sres r')
  then show ?case
    by (auto simp: mini_redis_def mini_scan_def Let_def dest!: next_fault_frame mini_hashes_cong
        split: prod.splits if_splits)
next
  case (9 r c)
  then show ?case by (auto simp: mini_rank_def Let_def)
qed (auto simp: mini_redis_def mini_ping_def dest!: next_fault_frame mini_hashes_cong split: prod.splits)

text \<open>The Redis backend on this server, with the codecs of the Go library.\<close>

interpretation rdb: redis_backend mini_redis mini_hashes mini_pending mini_rank "go_externs 0" "\<lambda>ks. ks"
  by unfold_locales simp

end
