(* ===== verification/Backends.thy ===== *)
theory Backends
  imports Mini_Redis Memory_Storage
begin

text \<open>
  What the two backends promise the engine, stated over the code: both implement the mailbox of
  \<open>storage_contract\<close>, the in-process one without ever failing; the queue that Redis gives back is in
  the order of publication; listing the keys ends; a stored message survives.
\<close>

definition mini_start :: "mini RedisStorage" where
  "mini_start = \<lparr>rs_client = \<lparr>keyspace = [], script = []\<rparr>, rs_keyTTL = 0\<rparr>"

definition parcel :: "uuid \<Rightarrow> time \<Rightarrow> Message" where
  "parcel u t = \<lparr>msg_id = u, Key = ''k'', Keys = [], MessageID = [], Value = JBool True, Expire = ''30m'', date = t\<rparr>"

context redis_backend
begin

lemma is_contract: "storage_contract (RedisStorage_methods R X ord) rinv rbox (redis_keep X)"
  by unfold_locales

end

lemma redis_backendI:
  "redis_server R hashes scan_left rank \<Longrightarrow> codec X \<Longrightarrow> range_order_ok ord \<Longrightarrow> redis_backend R hashes scan_left rank X ord"
  by (simp add: redis_backend_def redis_backend_axioms_def)

text \<open>C24: The Redis backend implements the mailbox: on any server that keeps what Redis documents, each method
  of \<^verbatim>\<open>redis_storage.go\<close> has exactly the effect on the mailbox that the contract of
  \<^verbatim>\<open>storage.go\<close> states, failures included (a failed write has happened or not, a read
  changes nothing), where the mailbox of a state is what its hashes decode to.\<close>

theorem redis_refines:
  assumes "redis_server R hashes scan_left rank" and "codec X" and "range_order_ok ord"
  shows "storage_contract (RedisStorage_methods R X ord) (redis_inv X hashes) (redis_box X hashes) (redis_keep X)"
  by (rule redis_backend.is_contract [OF redis_backendI [OF assms]])

theorem redis_refines_witness:
  "\<exists>e s. st_AddMessage (RedisStorage_methods mini_redis (go_externs 0) (\<lambda>ks. ks)) ''k'' (parcel 7 5) mini_start = (e, s) \<and>
     redis_box (go_externs 0) mini_hashes s ''k'' \<in>
       {redis_box (go_externs 0) mini_hashes mini_start ''k'',
        (redis_box (go_externs 0) mini_hashes mini_start ''k'')(7 := redis_keep (go_externs 0) (parcel 7 5))}"
proof -
  let ?S = "RedisStorage_methods mini_redis (go_externs 0) (\<lambda>ks. ks)"
  note c = redis_refines [OF mini.redis_server_axioms go_externs_codec range_order_id]
  have i: "redis_inv (go_externs 0) mini_hashes mini_start"
    by (simp add: redis_inv_def mini_start_def mini_hashes_def)
  obtain e s where a: "st_AddMessage ?S ''k'' (parcel 7 5) mini_start = (e, s)" by fastforce
  show ?thesis using storage_contract.add_message [OF c i a] a by (auto simp: box_put_def parcel_def)
qed

text \<open>C25: The queue of a key comes back from Redis in the order of publication, each message once, and it is
  the whole of the key's mailbox.\<close>

theorem redis_queue_order:
  assumes "redis_server R hashes scan_left rank" and "codec X" and "range_order_ok ord"
    and "redis_inv X hashes s" and "redis_GetQueue R X ord k s = (Inr q, s')"
  shows "sorted (map date q) \<and> distinct (map msg_id q) \<and>
         (\<forall>m. m \<in> set q \<longleftrightarrow> redis_box X hashes s k (msg_id m) = Some m)"
  using redis_backend.GetQueue_spec [OF redis_backendI [OF assms(1-3)] assms(4,5)] queue_map_iff by metis

definition mini_two :: "mini RedisStorage" where
  "mini_two = snd (redis_AddMessage mini_redis (go_externs 0) ''k'' (parcel 8 3)
     (snd (redis_AddMessage mini_redis (go_externs 0) ''k'' (parcel 7 5) mini_start)))"

lemma print_members: "\<forall>kv \<in> set kvs. print_json (snd kv) \<noteq> None \<Longrightarrow> print_json (JObj kvs) \<noteq> None"
  by (auto simp: Let_def image_iff)

lemma epoch_text: "rfc3339_text 0 3 \<noteq> None" "rfc3339_text 0 5 \<noteq> None"
proof -
  have "year_of_day 719468 = 1969" by (simp add: year_of_day_def Let_def)
  then have "civil_of 0 = (1970, 1, 1)" by (simp add: civil_of_def days_of_era_def Let_def)
  then show "rfc3339_text 0 3 \<noteq> None" "rfc3339_text 0 5 \<noteq> None" by (simp_all add: rfc3339_text_def Let_def)
qed

lemma parcel_encode: "t \<in> {3, 5} \<Longrightarrow> \<exists>b. encode (go_externs 0) (parcel u t) = Some b"
proof -
  assume "t \<in> {3, 5}"
  then obtain d where d: "rfc3339_text 0 t = Some d" using epoch_text by auto
  have "encode (go_externs 0) (parcel u t) \<noteq> None"
    using print_members [of "[(''id'', JStr (uuid_text u)), (''key'', JStr ''k''), (''value'', JBool True),
      (''expire'', JStr ''30m''), (''date'', JStr d)]"]
    by (simp add: encode_def go_externs_def parcel_def d del: print_json.simps(7))
  then show ?thesis by blast
qed

lemma parcel_kept:
  assumes "t \<in> {3, 5}"
  shows "redis_keep (go_externs 0) (parcel u t) = Some (parcel u t)"
proof -
  obtain b where b: "encode (go_externs 0) (parcel u t) = Some b" using parcel_encode [OF assms, of u] by blast
  have "decodeMessage (go_externs 0) b = Some (stored_form (parcel u t))"
    using go.decode_encode [OF b] by (simp add: parcel_def max_depth_def)
  moreover have "stored_form (parcel u t) = parcel u t"
    by (subst stored_form_plain) (simp_all add: parcel_def valid_utf8_ascii)
  ultimately show ?thesis by (simp add: redis_keep_def b)
qed

text \<open>Adding a parcel to a server with no faults to come.\<close>

lemma add_parcel:
  assumes "t \<in> {3, 5}" and "script (rs_client s) = []" and "rs_keyTTL s = 0"
    and "redis_inv (go_externs 0) mini_hashes s"
  shows "let s' = snd (redis_AddMessage mini_redis (go_externs 0) ''k'' (parcel u t) s) in
    script (rs_client s') = [] \<and> rs_keyTTL s' = 0 \<and> redis_inv (go_externs 0) mini_hashes s' \<and>
    redis_box (go_externs 0) mini_hashes s' ''k'' = (redis_box (go_externs 0) mini_hashes s ''k'')(u \<mapsto> parcel u t)"
proof -
  let ?add = "redis_AddMessage mini_redis (go_externs 0) ''k'' (parcel u t) s"
  have ok: "fst ?add = None \<and> script (rs_client (snd ?add)) = [] \<and> rs_keyTTL (snd ?add) = 0"
    using parcel_encode [OF assms(1), of u] assms(2,3)
    by (auto simp: redis_AddMessage_def lift_client_def mini_redis_def mini_exec_def next_fault_def Let_def)
  then have "?add = (None, snd ?add)" by (simp add: prod_eq_iff)
  from rdb.contract_add [OF assms(4) this] show ?thesis
    using ok parcel_kept [OF assms(1), of u] by (simp add: Let_def box_put_def parcel_def)
qed

lemma mini_two_box:
  "script (rs_client mini_two) = []" "redis_inv (go_externs 0) mini_hashes mini_two"
  "redis_box (go_externs 0) mini_hashes mini_two ''k'' = [7 \<mapsto> parcel 7 5, 8 \<mapsto> parcel 8 3]"
proof -
  let ?s = "snd (redis_AddMessage mini_redis (go_externs 0) ''k'' (parcel 7 5) mini_start)"
  have 0: "script (rs_client mini_start) = []" "rs_keyTTL mini_start = 0" "redis_inv (go_externs 0) mini_hashes mini_start"
    "redis_box (go_externs 0) mini_hashes mini_start ''k'' = Map.empty"
    by (simp_all add: mini_start_def redis_inv_def redis_box_def mini_hashes_def fun_eq_iff)
  have 1: "script (rs_client ?s) = []" "rs_keyTTL ?s = 0" "redis_inv (go_externs 0) mini_hashes ?s"
    "redis_box (go_externs 0) mini_hashes ?s ''k'' = [7 \<mapsto> parcel 7 5]"
    using add_parcel [of 5, OF _ 0(1-3), of 7] 0(4) by (simp_all add: Let_def)
  show "script (rs_client mini_two) = []" "redis_inv (go_externs 0) mini_hashes mini_two"
    "redis_box (go_externs 0) mini_hashes mini_two ''k'' = [7 \<mapsto> parcel 7 5, 8 \<mapsto> parcel 8 3]"
    using add_parcel [of 3, OF _ 1(1-3), of 8] 1(4) by (simp_all add: Let_def mini_two_def)
qed

theorem redis_queue_order_witness:
  "\<exists>s'. redis_GetQueue mini_redis (go_externs 0) (\<lambda>ks. ks) ''k'' mini_two = (Inr [parcel 8 3, parcel 7 5], s')"
proof -
  obtain q s' where q: "redis_GetQueue mini_redis (go_externs 0) (\<lambda>ks. ks) ''k'' mini_two = (Inr q, s')"
    using mini_two_box(1)
    by (auto simp: redis_GetQueue_def mini_redis_def mini_hgetall_def next_fault_def Let_def case_prod_beta)
  note p = redis_queue_order [OF mini.redis_server_axioms go_externs_codec range_order_id mini_two_box(2) q]
  have set: "m \<in> set q \<longleftrightarrow> m = parcel 7 5 \<or> m = parcel 8 3" for m
    using p mini_two_box(3) by (auto simp: parcel_def split: if_splits)
  then have sq: "set q = {parcel 7 5, parcel 8 3}" by blast
  have "distinct q" using p distinct_map by blast
  then have "length q = 2" using distinct_card [of q] sq by (simp add: parcel_def)
  then obtain a b where ab: "q = [a, b]" by (metis One_nat_def Suc_1 length_0_conv length_Suc_conv)
  have "a = parcel 7 5 \<and> b = parcel 8 3 \<or> a = parcel 8 3 \<and> b = parcel 7 5"
    using sq unfolding ab by (simp add: doubleton_eq_iff)
  moreover have "date a \<le> date b" "date (parcel 7 5) = 5" "date (parcel 8 3) = 3"
    using p by (simp_all add: ab) (simp_all add: parcel_def)
  ultimately show ?thesis using q ab by fastforce
qed

text \<open>C26: Listing the keys ends: the cursor loop never runs out of its \<open>2 ^ 64\<close> rounds, changes nothing, and if
  no call fails it has found every key that has a queue.\<close>

theorem redis_keys_complete:
  assumes "redis_server R hashes scan_left rank" and "scan_loop (2 ^ 64) R 0 [] r = (res, r')"
  shows "res \<noteq> None \<and> hashes r' = hashes r \<and>
         (\<forall>ks k. res = Some (Inr ks) \<longrightarrow> hashes r (queueKey k) \<noteq> Map.empty \<longrightarrow> k \<in> set ks)"
  using redis_server.scan_loop_spec [OF assms(1) redis_server.scan_bound [OF assms(1)] assms(2)]
    redis_server.scan_start [OF assms(1)] by blast

theorem redis_keys_complete_witness:
  "\<exists>ks r'. scan_loop (2 ^ 64) mini_redis 0 [] \<lparr>keyspace = [(''goctopus:q:k'', [(''f'', ''v'')])], script = []\<rparr> =
     (Some (Inr ks), r') \<and> ''k'' \<in> set ks"
proof -
  let ?r = "\<lparr>keyspace = [(''goctopus:q:k'', [(''f'', ''v'')])], script = []\<rparr>"
  have "fst (scan_loop (2 ^ 64) mini_redis 0 [] ?r) = Some (Inr [''k''])"
    by (subst scan_loop.simps)
      (simp add: mini_redis_def mini_scan_def next_fault_def redisQueuePfx_def redisPrefix_def TrimPrefix_def Let_def)
  then obtain r' where r: "scan_loop (2 ^ 64) mini_redis 0 [] ?r = (Some (Inr [''k'']), r')" by (metis prod.collapse)
  have "mini_hashes ?r (queueKey ''k'') \<noteq> Map.empty"
    by (simp add: mini_hashes_def gm_list_def queueKey_def redisQueuePfx_def redisPrefix_def)
  then show ?thesis using redis_keys_complete [OF mini.redis_server_axioms r] r by blast
qed

text \<open>C27: The in-process backend implements the same mailbox and never fails, whatever the order in which Go
  ranges over its map.\<close>

theorem memory_refines:
  assumes "range_order_ok ord"
  shows "reliable_storage (MemoryStorage_methods ord) mem_inv mem_box Some"
  by (rule MemoryStorage_reliable [OF assms])

theorem memory_refines_witness:
  "let s = snd (mem_AddMessage ''k'' (parcel 8 3) (snd (mem_AddMessage ''k'' (parcel 7 5) \<lparr>storage_map = []\<rparr>))) in
     mem_box (snd (mem_DeleteMessage ''k'' 7 s)) ''k'' 7 = None \<and> mem_box s ''k'' 7 \<noteq> None"
proof -
  let ?s = "snd (mem_AddMessage ''k'' (parcel 8 3) (snd (mem_AddMessage ''k'' (parcel 7 5) \<lparr>storage_map = []\<rparr>)))"
  let ?S = "MemoryStorage_methods (\<lambda>ks. ks)"
  note c = memory_refines [OF range_order_id, THEN reliable_storage.axioms(1)]
  have s: "?s = \<lparr>storage_map = [(''k'', [parcel 7 5, parcel 8 3])]\<rparr>"
    by (simp add: mem_AddMessage_def gm_list_def parcel_def)
  have i: "mem_inv ?s" unfolding s by (simp add: mem_inv_def gm_ok_def parcel_def)
  have d: "st_DeleteMessage ?S ''k'' 7 ?s = (None, snd (mem_DeleteMessage ''k'' 7 ?s))"
    unfolding s by (simp add: MemoryStorage_methods_def mem_DeleteMessage_def gm_list_def parcel_def)
  have "mem_box ?s ''k'' 7 \<noteq> None" unfolding s by (simp add: mem_box_def gm_list_def parcel_def)
  then show ?thesis using storage_contract.delete_message [OF c i d] by (simp add: Let_def box_del_def)
qed

text \<open>C28: A message that Redis stores survives: what \<^verbatim>\<open>encode\<close> prints (with the JSON, UUID and
  RFC 3339 formats of the libraries) \<^verbatim>\<open>decodeMessage\<close> reads back with the same id, key,
  expiry and date and the value in canonical form, bytes that are not UTF-8 having become U+FFFD; only
  a value nested to the decoder's limit is refused, and never misread.\<close>

theorem stored_roundtrip:
  assumes "encode (go_externs z) m = Some b"
  shows "decodeMessage (go_externs z) b =
     (if json_depth (Value m) < max_depth
      then Some (m\<lparr>Key := to_utf8 (Key m), Keys := [], MessageID := [],
                   Value := canon (json_clean (Value m)), Expire := to_utf8 (Expire m)\<rparr>)
      else None)"
  using codec.decode_encode [OF go_externs_codec assms] by (simp add: stored_form_def)

theorem stored_roundtrip_witness:
  "\<exists>b. encode (go_externs 0) (parcel 7 5) = Some b \<and> decodeMessage (go_externs 0) b = Some (parcel 7 5)"
proof -
  obtain b where b: "encode (go_externs 0) (parcel 7 5) = Some b" using parcel_encode [of 5 7] by auto
  show ?thesis using b stored_roundtrip [OF b]
    by (simp add: parcel_def max_depth_def to_utf8_valid valid_utf8_ascii)
qed

end
