(* ===== verification/Go_Client.thy ===== *)
theory Go_Client
  imports Message
begin

text \<open>
  The Go client library (\<^verbatim>\<open>clients/go/goctopus.go\<close>): de-duplication of
  re-delivered messages, the session loop that acknowledges every message, and the reconnect loop with
  its backoff. The websocket library is what the lists of reads and write outcomes stand for; the
  context and the random number generator are arguments as well.
\<close>

record Client =
  cl_URL :: string
  MinBackoff :: duration
  MaxBackoff :: duration
  MaxRetries :: int
  DedupeLimit :: int
  seen :: "(string, unit) gomap"
  seenOrder :: "string list"

definition New :: "string \<Rightarrow> Client" where
  "New url = \<lparr>cl_URL = url, MinBackoff = 500 * millisecond, MaxBackoff = 10 * second, MaxRetries = 0,
     DedupeLimit = 1000, seen = [], seenOrder = []\<rparr>"

subsection \<open>De-duplication\<close>

definition markSeen :: "string \<Rightarrow> Client \<Rightarrow> bool \<times> Client" where
  "markSeen i c =
     (if i = [] then (True, c)
      else if gm_get (seen c) i \<noteq> None then (False, c)
      else let c1 = c\<lparr>seen := gm_put i () (seen c), seenOrder := seenOrder c @ [i]\<rparr> in
        if int (length (seenOrder c1)) > DedupeLimit c1
        then (True, c1\<lparr>seenOrder := tl (seenOrder c1), seen := gm_del (hd (seenOrder c1)) (seen c1)\<rparr>)
        else (True, c1))"

text \<open>The window is the set, without repetition, and no longer than the limit.\<close>

definition window_ok :: "Client \<Rightarrow> bool" where
  "window_ok c \<longleftrightarrow> gm_ok (seen c) \<and> set (gm_keys (seen c)) = set (seenOrder c) \<and> distinct (seenOrder c) \<and>
     int (length (seenOrder c)) \<le> max 0 (DedupeLimit c)"

lemma New_window: "window_ok (New url)"
  by (simp add: window_ok_def New_def)

lemma window_seen: "window_ok c \<Longrightarrow> gm_get (seen c) i = None \<longleftrightarrow> i \<notin> set (seenOrder c)"
  using gm_keys_iff [of i "seen c"] unfolding window_ok_def by metis

lemma markSeen_spec:
  assumes "window_ok c"
  shows "window_ok (snd (markSeen i c)) \<and>
         fst (markSeen i c) = (i = [] \<or> i \<notin> set (seenOrder c)) \<and>
         DedupeLimit (snd (markSeen i c)) = DedupeLimit c \<and>
         seenOrder (snd (markSeen i c)) =
           (if i = [] \<or> i \<in> set (seenOrder c) then seenOrder c
            else drop (Suc (length (seenOrder c)) - nat (DedupeLimit c)) (seenOrder c @ [i]))"
proof (cases "i = [] \<or> i \<in> set (seenOrder c)")
  case True
  then show ?thesis using assms window_seen [OF assms, of i] by (auto simp: markSeen_def)
next
  case False
  then have n: "gm_get (seen c) i = None" using window_seen [OF assms, of i] by metis
  let ?o = "seenOrder c @ [i]" and ?s = "gm_put i () (seen c)"
  have w: "gm_ok (seen c)" "distinct (seenOrder c)" "int (length (seenOrder c)) \<le> max 0 (DedupeLimit c)"
    "set (gm_keys (seen c)) = set (seenOrder c)" using assms by (simp_all add: window_ok_def)
  have k: "set (gm_keys ?s) = set ?o" using w(4) by (auto simp: gm_keys_iff gomap_simps set_eq_iff simp del: set_map)
  have d: "distinct ?o" using w(2) False by simp
  show ?thesis
  proof (cases "int (length ?o) > DedupeLimit c")
    case True
    obtain x xs where x: "?o = x # xs" by (cases ?o) auto
    have "markSeen i c = (True, c\<lparr>seen := gm_del x ?s, seenOrder := xs\<rparr>)"
      using False n True x by (simp add: markSeen_def Let_def)
    moreover have "set (gm_keys (gm_del x ?s)) = set xs"
    proof -
      have "k' \<in> set (gm_keys (gm_del x ?s)) \<longleftrightarrow> k' \<noteq> x \<and> k' \<in> set ?o" for k'
        using k by (simp add: gm_keys_iff gomap_simps set_eq_iff del: set_map)
      then show ?thesis using d unfolding x by auto
    qed
    moreover have "length xs = length (seenOrder c)" using x by (metis length_append_singleton length_Cons Suc_inject)
    moreover have "Suc (length (seenOrder c)) - nat (DedupeLimit c) = 1" using True w(3) by auto
    ultimately show ?thesis using False w(1,3) d x by (auto simp: window_ok_def)
  next
    case F: False
    have "markSeen i c = (True, c\<lparr>seen := ?s, seenOrder := ?o\<rparr>)" using False n F by (simp add: markSeen_def Let_def)
    moreover have "Suc (length (seenOrder c)) - nat (DedupeLimit c) = 0" using F by simp
    ultimately show ?thesis using False w(1) d k F by (simp add: window_ok_def)
  qed
qed

subsection \<open>A session\<close>

definition dec_client_message :: "externs \<Rightarrow> string \<Rightarrow> (string \<times> json) option" where
  "dec_client_message X b =
     (case json_decode X b of
        None \<Rightarrow> None
      | Some JNull \<Rightarrow> Some ([], JNull)
      | Some (JObj kvs) \<Rightarrow>
          (let (i, p, ok) = fold (\<lambda>(k, j) (i, p, ok).
               case match_field [''id'', ''payload''] k of
                 None \<Rightarrow> (i, p, ok)
               | Some t \<Rightarrow> if t = ''id'' then (let (s, b) = dec_string j i in (s, p, ok \<and> b))
                           else (i, canon j, ok \<and> nums_fit j)) kvs ([], JNull, True)
           in if ok then Some (i, p) else None)
      | Some _ \<Rightarrow> None)"

text \<open>What a session does that can be seen: an acknowledgement it sends, a call of
  \<^verbatim>\<open>OnMessage\<close>.\<close>

datatype action = Ack string | Handled json string

text \<open>
  One session: the reads of the connection, each with the outcome of the write that would follow. The
  result is what was done, the error the session ended with (\<open>None\<close> while it is still waiting for the next
  frame; the code has no other way out of the loop) and the client.
\<close>

fun session_loop :: "externs \<Rightarrow> (error + string \<times> error option) list \<Rightarrow> Client \<Rightarrow>
    action list \<times> error option \<times> Client" where
  "session_loop X [] c = ([], None, c)"
| "session_loop X (Inl e # rs) c = ([], Some e, c)"
| "session_loop X (Inr (data, w) # rs) c =
     (case dec_client_message X data of
        None \<Rightarrow> session_loop X rs c
      | Some (i, payload) \<Rightarrow>
          (case w of
             Some e \<Rightarrow> ([], Some e, c)
           | None \<Rightarrow>
               (let (fresh, c1) = markSeen i c; (as, e, c2) = session_loop X rs c1
                in (Ack i # (if fresh then [Handled payload i] else []) @ as, e, c2))))"

definition session :: "externs \<Rightarrow> error + (error + string \<times> error option) list \<Rightarrow> Client \<Rightarrow>
    action list \<times> error option \<times> Client" where
  "session X dial c = (case dial of Inl e \<Rightarrow> ([], Some e, c) | Inr reads \<Rightarrow> session_loop X reads c)"

text \<open>The ids handed to \<^verbatim>\<open>OnMessage\<close>, those without an id left out.\<close>

fun handled_ids :: "action list \<Rightarrow> string list" where
  "handled_ids [] = []"
| "handled_ids (Ack i # as) = handled_ids as"
| "handled_ids (Handled p i # as) = (if i = [] then handled_ids as else i # handled_ids as)"

lemma handled_ids_append: "handled_ids (as @ bs) = handled_ids as @ handled_ids bs"
  by (induction as rule: handled_ids.induct) auto

text \<open>The window is always the last ids that were handled.\<close>

definition remembers :: "string list \<Rightarrow> Client \<Rightarrow> bool" where
  "remembers ids c \<longleftrightarrow> window_ok c \<and> seenOrder c = drop (length ids - nat (DedupeLimit c)) ids"

definition no_repeats :: "nat \<Rightarrow> string list \<Rightarrow> bool" where
  "no_repeats limit ids \<longleftrightarrow> (\<forall>i j. i < j \<longrightarrow> j < length ids \<longrightarrow> ids ! i = ids ! j \<longrightarrow> limit < j - i)"

lemma remembers_New: "remembers [] (New url)"
  using New_window by (simp add: remembers_def New_def)

lemma no_repeats_snoc:
  assumes "no_repeats n ids" and "x \<notin> set (drop (length ids - n) ids)"
  shows "no_repeats n (ids @ [x])"
  unfolding no_repeats_def
proof (intro allI impI)
  fix i j
  assume a: "i < j" "j < length (ids @ [x])" "(ids @ [x]) ! i = (ids @ [x]) ! j"
  show "n < j - i"
  proof (cases "j = length ids")
    case True
    then have "ids ! i = x" using a by (simp add: nth_append)
    have "i < length ids - n"
    proof (rule ccontr)
      let ?k = "length ids - n"
      assume "\<not> i < ?k"
      then have "drop ?k ids ! (i - ?k) = x" "i - ?k < length (drop ?k ids)" using a True \<open>ids ! i = x\<close> by auto
      then show False using assms(2) nth_mem by metis
    qed
    then show ?thesis using True by simp
  next
    case False
    then show ?thesis using a assms(1) by (simp add: no_repeats_def nth_append)
  qed
qed

lemma markSeen_remembers:
  assumes "remembers ids c" and "no_repeats (nat (DedupeLimit c)) ids" and "markSeen i c = (fresh, c')"
  defines "ids' \<equiv> ids @ (if fresh \<and> i \<noteq> [] then [i] else [])"
  shows "remembers ids' c' \<and> no_repeats (nat (DedupeLimit c')) ids' \<and> DedupeLimit c' = DedupeLimit c"
proof -
  let ?n = "nat (DedupeLimit c)"
  have w: "window_ok c" and o: "seenOrder c = drop (length ids - ?n) ids" using assms(1) by (auto simp: remembers_def)
  note sp = markSeen_spec [OF w, of i, unfolded assms(3), simplified]
  show ?thesis
  proof (cases "i = [] \<or> i \<in> set (seenOrder c)")
    case True
    then show ?thesis using sp assms(2) o by (auto simp: ids'_def remembers_def)
  next
    case False
    have e: "ids' = ids @ [i]" using False sp by (simp add: ids'_def)
    have "drop (Suc (length (seenOrder c)) - ?n) (seenOrder c @ [i]) = drop (length ids' - ?n) ids'"
    proof (cases "length ids \<le> ?n")
      case True
      then show ?thesis by (simp add: e o)
    next
      case F: False
      then have "length (seenOrder c) = ?n" by (simp add: o)
      then show ?thesis using F by (simp add: e o Suc_diff_le)
    qed
    then show ?thesis using sp False no_repeats_snoc [OF assms(2), of i] unfolding remembers_def e o by auto
  qed
qed

lemma session_loop_dedupe:
  assumes "remembers ids c" and "no_repeats (nat (DedupeLimit c)) ids" and "session_loop X rs c = (as, e, c')"
  shows "remembers (ids @ handled_ids as) c' \<and> no_repeats (nat (DedupeLimit c)) (ids @ handled_ids as) \<and>
         DedupeLimit c' = DedupeLimit c"
  using assms
proof (induction rs arbitrary: c ids as)
  case (Cons r rs)
  consider (err) x where "r = Inl x" | (skip) data w where "r = Inr (data, w)" "dec_client_message X data = None"
    | (lost) data x ip where "r = Inr (data, Some x)" "dec_client_message X data = Some ip"
    | (ok) data i p where "r = Inr (data, None)" "dec_client_message X data = Some (i, p)"
    by (metis not_None_eq prod_cases3 sum.exhaust surj_pair)
  then show ?case
  proof cases
    case err
    then show ?thesis using Cons.prems by simp
  next
    case skip
    then show ?thesis using Cons.IH [OF Cons.prems(1,2)] Cons.prems(3) by simp
  next
    case lost
    then show ?thesis using Cons.prems by (simp add: case_prod_beta)
  next
    case ok
    obtain fresh c1 where m: "markSeen i c = (fresh, c1)" by fastforce
    obtain as1 e1 c2 where s: "session_loop X rs c1 = (as1, e1, c2)" by (metis prod_cases3)
    let ?ids = "ids @ (if fresh \<and> i \<noteq> [] then [i] else [])"
    have r: "remembers ?ids c1" "no_repeats (nat (DedupeLimit c1)) ?ids" "DedupeLimit c1 = DedupeLimit c"
      using markSeen_remembers [OF Cons.prems(1,2) m] by auto
    have res: "as = Ack i # (if fresh then [Handled p i] else []) @ as1" "e = e1" "c' = c2"
      using Cons.prems(3) ok m s by auto
    have "ids @ handled_ids as = ?ids @ handled_ids as1" by (simp add: res)
    then show ?thesis using Cons.IH [OF r(1,2)] s r(3) res by simp
  qed
qed simp

text \<open>Nothing that was read is lost: every frame that decodes is acknowledged, in order, and its message has
  been handled, now or before.\<close>

fun acked_ids :: "action list \<Rightarrow> string list" where
  "acked_ids [] = []"
| "acked_ids (Ack i # as) = i # acked_ids as"
| "acked_ids (Handled p i # as) = acked_ids as"

lemma session_complete:
  assumes "remembers ids c" and "no_repeats (nat (DedupeLimit c)) ids"
    and "session_loop X (map (\<lambda>d. Inr (d, None)) datas) c = (as, e, c')"
  shows "acked_ids as = map fst (List.map_filter (dec_client_message X) datas) \<and>
         (\<forall>i \<in> set (acked_ids as). i = [] \<or> i \<in> set (ids @ handled_ids as))"
  using assms
proof (induction datas arbitrary: c ids as)
  case (Cons d datas)
  show ?case
  proof (cases "dec_client_message X d")
    case None
    then show ?thesis using Cons.IH [OF Cons.prems(1,2)] Cons.prems(3) by (simp add: map_filter_simps)
  next
    case (Some ip)
    obtain i p where ip: "ip = (i, p)" by fastforce
    obtain fresh c1 where m: "markSeen i c = (fresh, c1)" by fastforce
    obtain as1 e1 c2 where s: "session_loop X (map (\<lambda>d. Inr (d, None)) datas) c1 = (as1, e1, c2)" by (metis prod_cases3)
    let ?ids = "ids @ (if fresh \<and> i \<noteq> [] then [i] else [])"
    have r: "remembers ?ids c1" "no_repeats (nat (DedupeLimit c1)) ?ids"
      using markSeen_remembers [OF Cons.prems(1,2) m] by auto
    have res: "as = Ack i # (if fresh then [Handled p i] else []) @ as1" "e1 = e" "c2 = c'"
      using Cons.prems(3) Some ip m s by auto
    have "window_ok c" "seenOrder c = drop (length ids - nat (DedupeLimit c)) ids"
      using Cons.prems(1) by (simp_all add: remembers_def)
    then have "fresh \<or> i \<in> set ids" using markSeen_spec [of c i] m by (metis fst_conv in_set_dropD)
    note fresh = this and ih = Cons.IH [OF r s [unfolded res(2,3)]]
    have "acked_ids as = i # acked_ids as1" "set (ids @ handled_ids as) = set (?ids @ handled_ids as1)"
      by (auto simp: res)
    then show ?thesis using ih fresh by (auto simp: Some ip map_filter_simps simp del: set_map)
  qed
qed (simp add: map_filter_simps)

text \<open>A session only touches the window.\<close>

lemma markSeen_frame: "snd (markSeen i c) = c\<lparr>seen := seen (snd (markSeen i c)), seenOrder := seenOrder (snd (markSeen i c))\<rparr>"
  by (simp add: markSeen_def Let_def)

lemma session_loop_frame: "session_loop X rs c = (as, e, c') \<Longrightarrow> c' = c\<lparr>seen := seen c', seenOrder := seenOrder c'\<rparr>"
proof (induction X rs c arbitrary: as rule: session_loop.induct)
  case (3 X data w rs c)
  show ?case
  proof (cases "dec_client_message X data")
    case None
    then show ?thesis using 3 by simp
  next
    case (Some ip)
    obtain i p where ip: "ip = (i, p)" by fastforce
    obtain fresh c1 where m: "markSeen i c = (fresh, c1)" by fastforce
    show ?thesis
    proof (cases w)
      case None
      obtain as1 e1 c2 where s: "session_loop X rs c1 = (as1, e1, c2)" by (metis prod_cases3)
      have "c' = c2" using "3.prems" Some ip None m s by simp
      moreover have "c2 = c1\<lparr>seen := seen c2, seenOrder := seenOrder c2\<rparr>"
        using "3.IH"(2) [OF Some ip [symmetric] None m [symmetric] refl] s "3.prems" Some ip None m by auto
      moreover have "c1 = c\<lparr>seen := seen c1, seenOrder := seenOrder c1\<rparr>" using markSeen_frame [of i c] m by simp
      ultimately show ?thesis by (metis (no_types, lifting) Client.fold_congs(6,7) Client.select_convs Client.surjective Client.update_convs(6,7))
    qed (use 3 Some ip in simp)
  qed
qed simp_all

subsection \<open>Reconnecting\<close>

text \<open>
  One round of \<^verbatim>\<open>Run\<close>: what \<^verbatim>\<open>ctx.Err()\<close> says at its start, what
  the network gives the session, the random number drawn, and the error of the context when the
  retries are used up or if it is cancelled during the wait.
\<close>

record round =
  ro_ctx :: "error option"
  ro_dial :: "error + (error + string \<times> error option) list"
  ro_rand :: "int \<Rightarrow> int"
  ro_ctx2 :: "error option"
  ro_done :: "error option"

datatype run_state =
    Running duration int
  | InSession
  | Returned "error option"
  | Panicked

text \<open>A session never returns nil, so the branch that resets the backoff is not taken: a session that has not
  ended leaves \<^verbatim>\<open>Run\<close> inside it. \<^verbatim>\<open>Int63n\<close> panics on an argument that is
  not positive. The result is the new state, what the session did, the wait and the client.\<close>

definition run_round :: "externs \<Rightarrow> round \<Rightarrow> duration \<Rightarrow> int \<Rightarrow> Client \<Rightarrow>
    run_state \<times> action list \<times> duration list \<times> Client" where
  "run_round X r backoff retries c =
     (case ro_ctx r of
        Some e \<Rightarrow> (Returned (Some e), [], [], c)
      | None \<Rightarrow>
          (let (as, res, c1) = session X (ro_dial r) c in
           case res of
             None \<Rightarrow> (InSession, as, [], c1)
           | Some e \<Rightarrow>
               if 0 < MaxRetries c1 \<and> MaxRetries c1 \<le> retries then (Returned (ro_ctx2 r), as, [], c1)
               else let retries1 = int64 (retries + 1); n = int64 (backoff + 1) in
                 if n \<le> 0 then (Panicked, as, [], c1)
                 else let delay = ro_rand r n in
                   case ro_done r of
                     Some e' \<Rightarrow> (Returned (Some e'), as, [delay], c1)
                   | None \<Rightarrow>
                       (let b = int64 (backoff * 2) in
                        (Running (if MaxBackoff c1 < b then MaxBackoff c1 else b) retries1, as, [delay], c1))))"

fun run_loop :: "externs \<Rightarrow> round list \<Rightarrow> run_state \<Rightarrow> Client \<Rightarrow>
    run_state \<times> action list \<times> duration list \<times> Client" where
  "run_loop X (r # rs) (Running b n) c =
     (let (st, as, ds, c1) = run_round X r b n c; (st', as', ds', c2) = run_loop X rs st c1
      in (st', as @ as', ds @ ds', c2))"
| "run_loop X rs st c = (st, [], [], c)"

definition Run :: "externs \<Rightarrow> round list \<Rightarrow> Client \<Rightarrow> run_state \<times> action list \<times> duration list \<times> Client" where
  "Run X rs c = run_loop X rs (Running (MinBackoff c) 0) c"

text \<open>The window holds across the sessions.\<close>

lemma session_dedupe:
  assumes "remembers ids c" and "no_repeats (nat (DedupeLimit c)) ids" and "session X dial c = (as, res, c')"
  shows "remembers (ids @ handled_ids as) c' \<and> no_repeats (nat (DedupeLimit c)) (ids @ handled_ids as) \<and>
         DedupeLimit c' = DedupeLimit c"
  using assms session_loop_dedupe [OF assms(1,2)] by (cases dial) (auto simp: session_def)

lemma run_round_session:
  assumes "run_round X r b n c = (st, as, ds, c1)"
  shows "(as = [] \<and> c1 = c) \<or> (\<exists>res. session X (ro_dial r) c = (as, res, c1))"
  using assms by (auto simp: run_round_def Let_def split: option.splits prod.splits if_splits)

lemma run_loop_dedupe:
  assumes "remembers ids c" and "no_repeats (nat (DedupeLimit c)) ids" and "run_loop X rs st c = (st', as, ds, c')"
  shows "remembers (ids @ handled_ids as) c' \<and> no_repeats (nat (DedupeLimit c)) (ids @ handled_ids as) \<and>
         DedupeLimit c' = DedupeLimit c"
  using assms
proof (induction X rs st c arbitrary: ids as ds rule: run_loop.induct)
  case (1 X r rs b n c)
  obtain st1 as1 ds1 c1 where r: "run_round X r b n c = (st1, as1, ds1, c1)" by (metis prod_cases4)
  obtain st2 as2 ds2 c2 where l: "run_loop X rs st1 c1 = (st2, as2, ds2, c2)" by (metis prod_cases4)
  have e: "as = as1 @ as2" "c' = c2" "st2 = st'" using "1.prems"(3) r l by auto
  have d: "remembers (ids @ handled_ids as1) c1" "no_repeats (nat (DedupeLimit c)) (ids @ handled_ids as1)"
    "DedupeLimit c1 = DedupeLimit c"
    using run_round_session [OF r] session_dedupe [OF "1.prems"(1,2)] "1.prems"(1,2) by auto
  show ?case
    using "1.IH" [OF r [symmetric] refl refl refl d(1)] d l unfolding e by (simp add: handled_ids_append)
qed simp_all

text \<open>The backoff before round \<open>k\<close>: doubled every round, up to the maximum.\<close>

definition backoff_at :: "Client \<Rightarrow> nat \<Rightarrow> duration" where
  "backoff_at c k = min (MaxBackoff c) (MinBackoff c * 2 ^ k)"

definition client_ok :: "Client \<Rightarrow> bool" where
  "client_ok c \<longleftrightarrow> 0 \<le> MinBackoff c \<and> MinBackoff c \<le> MaxBackoff c \<and> MaxBackoff c < 2 ^ 62"

text \<open>The random number is in range.\<close>

definition round_ok :: "round \<Rightarrow> bool" where
  "round_ok r \<longleftrightarrow> (\<forall>n > 0. 0 \<le> ro_rand r n \<and> ro_rand r n < n)"

lemma New_ok: "client_ok (New url)"
  by (simp add: client_ok_def New_def)

lemma backoff_at_bounds: "client_ok c \<Longrightarrow> 0 \<le> backoff_at c k \<and> backoff_at c k \<le> MaxBackoff c"
  by (auto simp: backoff_at_def client_ok_def min_def)

lemma backoff_at_Suc:
  assumes "client_ok c"
  shows "(if MaxBackoff c < backoff_at c k * 2 then MaxBackoff c else backoff_at c k * 2) = backoff_at c (Suc k)"
  using assms by (auto simp: backoff_at_def client_ok_def min_def)

lemma session_frame: "session X dial c = (as, res, c') \<Longrightarrow> c' = c\<lparr>seen := seen c', seenOrder := seenOrder c'\<rparr>"
  using session_loop_frame by (cases dial) (auto simp: session_def)

lemma frame_fields:
  assumes "c' = c\<lparr>seen := s, seenOrder := o'\<rparr>"
  shows "MaxRetries c' = MaxRetries c" "MaxBackoff c' = MaxBackoff c" "backoff_at c' k = backoff_at c k"
    "client_ok c' = client_ok c"
  using assms by (simp_all add: backoff_at_def client_ok_def)

lemma run_round_step:
  assumes c: "client_ok c" and k: "int k < 2 ^ 62" and "run_round X r (backoff_at c k) (int k) c = (st, as, ds, c1)"
  shows "\<exists>s o'. c1 = c\<lparr>seen := s, seenOrder := o'\<rparr>"
    and "(\<exists>e. st = Returned e) \<and> ds = [] \<or> st = InSession \<and> ds = [] \<or>
         \<not> (0 < MaxRetries c \<and> MaxRetries c \<le> int k) \<and> ds = [ro_rand r (backoff_at c k + 1)] \<and>
         ((\<exists>e. st = Returned e) \<or> st = Running (backoff_at c (Suc k)) (int (Suc k)))"
proof -
  obtain as' res c' where s: "session X (ro_dial r) c = (as', res, c')" by (metis prod_cases3)
  show f: "\<exists>s o'. c1 = c\<lparr>seen := s, seenOrder := o'\<rparr>"
    using run_round_session [OF assms(3)] session_frame by (metis Client.surjective Client.update_convs(6,7))
  note fr = frame_fields [OF session_frame [OF s]]
  note b = backoff_at_bounds [OF c, of k]
  have m: "MaxBackoff c < 2 ^ 62" using c by (simp add: client_ok_def)
  define d where "d = backoff_at c k * 2"
  have i: "int64 (backoff_at c k + 1) = backoff_at c k + 1" "int64 (backoff_at c k * 2) = d"
    "int64 (int k + 1) = int (Suc k)" using b m k by (simp_all add: int64_id d_def)
  have nb: "backoff_at c (Suc k) = (if MaxBackoff c < d then MaxBackoff c else d)"
    unfolding d_def by (rule backoff_at_Suc [OF c, symmetric])
  show "(\<exists>e. st = Returned e) \<and> ds = [] \<or> st = InSession \<and> ds = [] \<or>
         \<not> (0 < MaxRetries c \<and> MaxRetries c \<le> int k) \<and> ds = [ro_rand r (backoff_at c k + 1)] \<and>
         ((\<exists>e. st = Returned e) \<or> st = Running (backoff_at c (Suc k)) (int (Suc k)))"
    using assms(3) b by (auto simp: run_round_def s fr i nb Let_def split: option.splits if_splits)
qed

lemma run_loop_backoff:
  assumes "client_ok c" and "\<forall>r \<in> set rs. round_ok r" and "int (k + length rs) < 2 ^ 62"
    and "run_loop X rs (Running (backoff_at c k) (int k)) c = (st, as, ds, c')"
  shows "st \<noteq> Panicked \<and> (\<forall>i < length ds. 0 \<le> ds ! i \<and> ds ! i \<le> backoff_at c (k + i)) \<and>
    (0 < MaxRetries c \<longrightarrow> int (k + length ds) \<le> max (int k) (MaxRetries c))"
  using assms
proof (induction rs arbitrary: k c as ds)
  case (Cons r rs)
  obtain st1 as1 ds1 c1 where r: "run_round X r (backoff_at c k) (int k) c = (st1, as1, ds1, c1)" by (metis prod_cases4)
  obtain st2 as2 ds2 c2 where l: "run_loop X rs st1 c1 = (st2, as2, ds2, c2)" by (metis prod_cases4)
  have e: "st = st2" "ds = ds1 @ ds2" "c' = c2" using Cons.prems(4) r l by auto
  have k: "int k < 2 ^ 62" using Cons.prems(3) by simp
  note step = run_round_step [OF Cons.prems(1) k r]
  obtain s o' where f: "c1 = c\<lparr>seen := s, seenOrder := o'\<rparr>" using step(1) by blast
  have rnd: "0 \<le> ro_rand r (backoff_at c k + 1)" "ro_rand r (backoff_at c k + 1) \<le> backoff_at c k"
  proof -
    have "0 < backoff_at c k + 1" using backoff_at_bounds [OF Cons.prems(1), of k] by simp
    then show "0 \<le> ro_rand r (backoff_at c k + 1)" "ro_rand r (backoff_at c k + 1) \<le> backoff_at c k"
      using Cons.prems(2) unfolding round_ok_def by fastforce+
  qed
  have stop: "run_loop X rs st1 c1 = (st1, [], [], c1)" if "\<And>b n. st1 \<noteq> Running b n"
    using that by (cases st1; cases rs) auto
  consider (over) "ds = []" "st \<noteq> Panicked"
    | (last) "\<not> (0 < MaxRetries c \<and> MaxRetries c \<le> int k)" "ds = [ro_rand r (backoff_at c k + 1)]" "st \<noteq> Panicked"
    | (again) "\<not> (0 < MaxRetries c \<and> MaxRetries c \<le> int k)" "ds1 = [ro_rand r (backoff_at c k + 1)]"
        "st1 = Running (backoff_at c (Suc k)) (int (Suc k))"
    using step(2) stop l unfolding e by fastforce
  then show ?case
  proof cases
    case over
    then show ?thesis by simp
  next
    case last
    then show ?thesis using rnd by auto
  next
    case again
    have "run_loop X rs (Running (backoff_at c1 (Suc k)) (int (Suc k))) c1 = (st, as2, ds2, c')"
      using l again(3) e by (simp add: frame_fields [OF f])
    from Cons.IH [OF _ _ _ this] have ih: "st \<noteq> Panicked \<and> (\<forall>i < length ds2. 0 \<le> ds2 ! i \<and> ds2 ! i \<le> backoff_at c (Suc k + i)) \<and>
        (0 < MaxRetries c \<longrightarrow> int (Suc k + length ds2) \<le> max (int (Suc k)) (MaxRetries c))"
      using Cons.prems(1-3) by (simp add: frame_fields [OF f])
    have "0 \<le> ds ! i \<and> ds ! i \<le> backoff_at c (k + i)" if "i < length ds" for i
      using that ih rnd by (cases i) (auto simp: e(2) again(2))
    then show ?thesis using ih again(1) by (auto simp: e(2) again(2))
  qed
qed (auto simp: backoff_at_def)

text \<open>C38: The application sees no message twice: over any number of sessions and reconnects of a new client
  with a de-duplication limit \<open>n\<close>, two calls of \<^verbatim>\<open>OnMessage\<close> with the same id
  have at least \<open>n\<close> other ids between them, and the memory for it holds at most \<open>n\<close> ids.\<close>

theorem client_dedupe:
  assumes "Run X rs ((New url)\<lparr>DedupeLimit := n\<rparr>) = (st, as, ds, c)"
  shows "no_repeats (nat n) (handled_ids as) \<and> int (length (seenOrder c)) \<le> max 0 n"
proof -
  let ?c = "(New url)\<lparr>DedupeLimit := n\<rparr>"
  have "remembers [] ?c" by (simp add: remembers_def window_ok_def New_def)
  moreover have "no_repeats (nat (DedupeLimit ?c)) []" by (simp add: no_repeats_def)
  note run_loop_dedupe [OF calculation this assms [unfolded Run_def]]
  then show ?thesis by (simp add: remembers_def window_ok_def)
qed

text \<open>Frames for the examples: the bytes of a frame are its id.\<close>

definition echo_X :: externs where
  "echo_X = \<lparr>json_decode = (\<lambda>b. Some (JObj [(''id'', JStr b), (''payload'', JBool True)])), json_encode = (\<lambda>j. None),
     uuid_Parse = (\<lambda>s. None), uuid_String = (\<lambda>u. []), time_text = (\<lambda>t. None), time_parse = (\<lambda>s. None)\<rparr>"

lemma echo_decode: "dec_client_message echo_X b = Some (b, JBool True)"
  by (simp add: dec_client_message_def echo_X_def match_field_def dec_string_def)

definition echo_round :: round where
  "echo_round = \<lparr>ro_ctx = None, ro_dial = Inr [Inr (''m'', None), Inr (''m'', None), Inl ''eof''],
     ro_rand = (\<lambda>n. n - 1), ro_ctx2 = None, ro_done = None\<rparr>"

lemma echo_run:
  "\<exists>c st. Run echo_X [echo_round, echo_round] ((New ''u'')\<lparr>DedupeLimit := 5\<rparr>) =
     (st, [Ack ''m'', Handled (JBool True) ''m'', Ack ''m'', Ack ''m'', Ack ''m''], [500 * millisecond, 1000 * millisecond], c) \<and>
     seenOrder c = [''m'']"
  by (simp add: Run_def run_round_def echo_round_def session_def echo_decode markSeen_def New_def int64_def Let_def)

theorem client_dedupe_witness:
  "\<exists>as ds st c. Run echo_X [echo_round, echo_round] ((New ''u'')\<lparr>DedupeLimit := 5\<rparr>) = (st, as, ds, c) \<and>
     length as = 5 \<and> handled_ids as = [''m''] \<and> no_repeats 5 (handled_ids as)"
proof -
  obtain c st where r: "Run echo_X [echo_round, echo_round] ((New ''u'')\<lparr>DedupeLimit := 5\<rparr>) =
     (st, [Ack ''m'', Handled (JBool True) ''m'', Ack ''m'', Ack ''m'', Ack ''m''], [500 * millisecond, 1000 * millisecond], c)"
    using echo_run by blast
  from client_dedupe [OF r] r show ?thesis by simp
qed

text \<open>C39: No message is lost by the client: in a session that follows any history of the client, every frame that
  decodes is acknowledged, in order, and its message is handed to the application, now or before.\<close>

theorem client_complete:
  assumes "Run X rs ((New url)\<lparr>DedupeLimit := n\<rparr>) = (st, as0, ds, c)"
    and "session X (Inr (map (\<lambda>d. Inr (d, None)) datas)) c = (as, res, c')"
  shows "acked_ids as = map fst (List.map_filter (dec_client_message X) datas) \<and>
         (\<forall>i \<in> set (acked_ids as). i = [] \<or> i \<in> set (handled_ids (as0 @ as)))"
proof -
  let ?c = "(New url)\<lparr>DedupeLimit := n\<rparr>"
  have "remembers [] ?c" by (simp add: remembers_def window_ok_def New_def)
  moreover have "no_repeats (nat (DedupeLimit ?c)) []" by (simp add: no_repeats_def)
  note run_loop_dedupe [OF calculation this assms(1) [unfolded Run_def]]
  then have "remembers (handled_ids as0) c" "no_repeats (nat (DedupeLimit c)) (handled_ids as0)" by simp_all
  from session_complete [OF this assms(2) [unfolded session_def sum.case]] show ?thesis
    by (simp add: handled_ids_append)
qed

theorem client_complete_witness:
  "\<exists>as res c'. session echo_X (Inr (map (\<lambda>d. Inr (d, None)) [''a'', ''b'', ''a''])) ((New ''u'')\<lparr>DedupeLimit := 5\<rparr>) = (as, res, c') \<and>
     acked_ids as = [''a'', ''b'', ''a''] \<and> ''a'' \<in> set (handled_ids as)"
proof -
  let ?c = "(New ''u'')\<lparr>DedupeLimit := 5\<rparr>"
  obtain as res c' where s: "session echo_X (Inr (map (\<lambda>d. Inr (d, None)) [''a'', ''b'', ''a''])) ?c = (as, res, c')"
    by (metis prod_cases3)
  have "Run echo_X [] ?c = (Running (MinBackoff ?c) 0, [], [], ?c)" by (simp add: Run_def)
  note w = client_complete [OF this s]
  have "acked_ids as = [''a'', ''b'', ''a'']" using w by (simp add: echo_decode map_filter_simps)
  then show ?thesis using w s by auto
qed

text \<open>C40: The reconnect loop is safe: with sensible settings it never panics, every wait lies between zero and
  the backoff of its round, which doubles from the minimum up to the maximum, and with a limit on
  retries it waits at most that often.\<close>

theorem client_backoff:
  assumes "client_ok c" and "\<forall>r \<in> set rs. round_ok r" and "int (length rs) < 2 ^ 62"
    and "Run X rs c = (st, as, ds, c')"
  shows "st \<noteq> Panicked \<and>
    (\<forall>i < length ds. 0 \<le> ds ! i \<and> ds ! i \<le> min (MaxBackoff c) (MinBackoff c * 2 ^ i)) \<and>
    (0 < MaxRetries c \<longrightarrow> int (length ds) \<le> MaxRetries c)"
proof -
  have "backoff_at c 0 = MinBackoff c" using assms(1) by (simp add: backoff_at_def client_ok_def)
  then have "run_loop X rs (Running (backoff_at c 0) (int 0)) c = (st, as, ds, c')" using assms(4) by (simp add: Run_def)
  from run_loop_backoff [OF assms(1,2) _ this] show ?thesis using assms(3) by (simp add: backoff_at_def)
qed

theorem client_backoff_witness:
  "\<exists>as ds st c'. Run echo_X [echo_round, echo_round] ((New ''u'')\<lparr>DedupeLimit := 5\<rparr>) = (st, as, ds, c') \<and>
     st \<noteq> Panicked \<and> length ds = 2 \<and> ds ! 1 \<le> 1000 * millisecond"
proof -
  let ?c = "(New ''u'')\<lparr>DedupeLimit := 5\<rparr>"
  obtain c st where r: "Run echo_X [echo_round, echo_round] ?c =
     (st, [Ack ''m'', Handled (JBool True) ''m'', Ack ''m'', Ack ''m'', Ack ''m''], [500 * millisecond, 1000 * millisecond], c)"
    using echo_run by blast
  have "client_ok ?c" by (simp add: client_ok_def New_def)
  moreover have "\<forall>r \<in> set [echo_round, echo_round]. round_ok r" by (simp add: round_ok_def echo_round_def)
  ultimately show ?thesis using client_backoff [OF _ _ _ r] r by simp
qed

end
