(* ===== verification/Spec2Isabelle.thy ===== *)
theory Spec2Isabelle
  imports Races Process Backends Go_Client
begin

text \<open>
  Goctopus is a websocket gateway written in Go. A backend publishes messages over a JSON API; the
  gateway queues each one under its keys, writes it to every connected browser client that listens
  to the key, and drops it from the queue once a client has acknowledged it, or when it has expired.
  Clients are admitted by an authorizer; queues live in memory or in Redis; keys may be subscribed to
  by wildcard patterns. This development models the server (\<^verbatim>\<open>src/\<close>) and the Go
  client library (\<^verbatim>\<open>clients/go/\<close>), one theory per component, and proves that
  messages reach those they are meant for and nobody else, once until acknowledged, and are not lost.

  Foundations.
  \<^item> \<open>Go_Prelude\<close>: strings as bytes, instants, durations and int64, maps as association lists,
    the order of a range over a map as an argument (\<open>range_order_ok\<close>), generic lemmas.
  \<^item> \<open>Go_Strings\<close>, \<open>Go_Strconv\<close>, \<open>Go_Float\<close>, \<open>Go_Duration\<close>, \<open>Go_Time\<close>: what the program uses of the
    standard library, executable: UTF-8 decoding, number and duration parsing, binary64 arithmetic on
    rationals, RFC 3339. \<open>Json\<close> holds JSON trees, decoding into structs, and the record \<open>externs\<close> of
    what is a parameter (JSON text, UUIDs, instants as text) with its laws, the locale \<open>codec\<close>;
    \<open>Json_Text\<close> and \<open>Codec\<close> show that Go's own syntax satisfies them. \<open>Http\<close> holds requests, replies,
    Basic Auth, FNV hashes.

  Components of the server.
  \<^item> \<open>Const\<close> (\<^verbatim>\<open>const.go\<close>): names of engines, environment variables, query
    parameters, routes and headers.
  \<^item> \<open>Config\<close> (\<^verbatim>\<open>config.go\<close>, \<^verbatim>\<open>main.go\<close> to
    \<^verbatim>\<open>validateConfig\<close>): flags over file over environment over defaults, the
    \<^verbatim>\<open>Config\<close> literal. \<open>Process\<close> (the rest of \<^verbatim>\<open>main\<close>):
    boot, serving, signal, shutdown, exit as a step relation.
  \<^item> \<open>Message\<close> (\<^verbatim>\<open>message.go\<close>), \<open>Topics\<close> (\<^verbatim>\<open>topics.go\<close> with
    \<^verbatim>\<open>path.Match\<close>), \<open>History\<close> (\<^verbatim>\<open>history.go\<close>),
    \<open>Rate_Limit\<close> (\<^verbatim>\<open>ratelimit.go\<close>), \<open>Authorizer\<close> (the proxy and dummy
    authorizers and the interface \<open>authorizer\<close>).
  \<^item> \<open>Storage\<close> (\<^verbatim>\<open>storage.go\<close>): the interface, and the abstract specification
    every backend implements: a mailbox, for each key a finite map from ids to messages (locale
    \<open>storage_contract\<close>; \<open>reliable_storage\<close> adds that nothing fails). \<open>Memory_Storage\<close> and
    \<open>Redis_Storage\<close> (over any server with the documented behaviour of Redis, locale
    \<open>redis_server\<close>) interpret it; \<open>Mini_Redis\<close> is such a server; \<open>Backends\<close> states the refinements.
  \<^item> \<open>Client_Conn\<close>, \<open>Sessions\<close> (\<^verbatim>\<open>client.go\<close>): one connection with its in-flight
    table; reading, pinging, acknowledging, leaving. \<open>Registry\<close>: the invariant of
    \<^verbatim>\<open>Conns\<close> and \<^verbatim>\<open>patterns\<close>.
  \<^item> \<open>Engine\<close> (\<^verbatim>\<open>engine.go\<close>): start, work queue, flush of a key, sweep,
    reconciliation, stop. \<open>Server\<close> (\<^verbatim>\<open>server.go\<close>,
    \<^verbatim>\<open>metrics.go\<close>, \<^verbatim>\<open>version.go\<close>): routing and handlers.
  \<^item> \<open>System\<close>: the composition, a step relation \<open>step\<close> over the engine, the running read and ping
    loops and the background goroutines; \<open>reach\<close> and \<open>run\<close> are its executions.

  The lemmas. \<open>Delivery\<close> computes a flush per connection. \<open>Conservation\<close> (inside \<open>storage_contract\<close>)
  says what each operation does to the mailbox, \<open>Reliable\<close> the same exactly when nothing fails,
  \<open>System\<close> what each does to the registry. \<open>Lifecycle\<close> follows a connection, \<open>Authenticity\<close> a message,
  along an execution. This theory holds the properties that span components; the others stand with
  their component. \<open>Scenario\<close> is a concrete gateway for the examples.

  The Go client is \<open>Go_Client\<close>: de-duplication, the session loop, the reconnect loop with its backoff.

  Granularity. A step of \<open>System\<close> is a whole handler, task, tick or frame, in any order: workers are not
  identified, any queued or overflowing task may run next. \<open>Interleaving\<close> takes apart the operations on
  queues that make several accesses to shared state: the delivering goroutines (workers, overflow tasks, reconciliation),
  the sweep, the acknowledgement of a frame and a DELETE of everything become sequences of critical
  sections, storage calls and writes, with the send locks, that interleave with each other and with the
  other steps; one that nothing interrupts is the step of \<open>System\<close> (\<open>task_refines\<close>). About all these
  interleavings: \<open>Progress\<close>, no message is stuck; \<open>Provenance\<close>, no message goes without a reason;
  \<open>Once\<close>, no message is sent twice without an acknowledgement; \<open>Drain\<close>, accepted work is finished; \<open>Races\<close>, an execution in which a sweep deletes a message that was
  published again after the sweep had read the queue. What is proved of \<open>System\<close> about sweeps, acknowledgements and flushes (\<open>sweep_complete\<close>,
  \<open>ack_removes\<close>, \<open>publish_delivers\<close>) is about one that nothing interrupts. The remaining handlers stay
  whole; so does the upgrade, which registers the connection in one critical section and then schedules its
  task, and \<^verbatim>\<open>GetQueue\<close> over Redis, one read followed by the removal of the
  entries that cannot be decoded. \<open>client_run\<close> in \<open>Client_Conn\<close> is the
  in-flight table of one connection, one operation at a time.
  Other instances on the same Redis, and its key expiry, are the step \<open>EvBackend\<close>.

  Bounds and fuel. Loops are structural or have a termination proof, with two exceptions: the JSON reader
  takes twice the length of its input as fuel, which is proved enough (\<open>parse_json_fuel\<close>), and the
  \<^verbatim>\<open>SCAN\<close> loop of Redis has the \<open>2 ^ 64\<close> cursors as its bound and is proved to end
  before (\<open>redis_keys_complete\<close>). int64 arithmetic that can wrap is written with \<open>int64\<close>, hashes are
  words, floats are rounded after each operation.

  Not modelled: logging (\<^verbatim>\<open>Log\<close> and the templates of \<^verbatim>\<open>const.go\<close>
  have no effect on the state); TLS and the listener; the websocket handshake and framing, compression, the HTTP call of the proxy
  authorizer, YAML and URL syntax and the Prometheus text format, which are third-party or operating
  system code and arguments of the definitions that call them; a worker or handler that never
  returns, since the calls it would hang in are library calls.
\<close>

section \<open>Delivery\<close>

text \<open>The clients of a key are exactly the registered connections one of whose keys is this key or
  a wildcard pattern that matches it, each of them once, whatever the iteration order of the pattern
  table.\<close>

lemma clientsForKey_exact:
  assumes "reg_ok g" and "range_order_ok ord"
  shows "distinct (clientsForKey ord key g) \<and>
         set (clientsForKey ord key g) =
           {c. registered g c \<and> (\<exists>p \<in> set (ckeys (heap g c)). p = key \<or> keyMatches p key)}"
  using clients_distinct clients_set_exact [OF assms] by blast

text \<open>C3: A flush of one key is exact. For every connection that the key concerns and that is open, the
  frames written are the marshalled messages of the queue, in queue order, without the expired ones
  and those already in flight on that connection, up to the first write that fails; these messages
  are then in flight for this key, the connection is closed exactly if a write failed, and no other
  connection changes at all.\<close>

theorem flush_exact:
  assumes "storage_contract S sinv box keep" and "sinv (store g)" and "reg_ok g" and "range_order_ok (se_ord E)"
    and "st_GetQueue S key (store g) = (Inr q, s')"
  shows "let cl = heap g c; cl' = heap (sendMessages S X E key g) c; s = sent X E c cl q in
    if registered g c \<and> (\<exists>p \<in> set (ckeys cl). p = key \<or> keyMatches p key) \<and> \<not> is_closed cl
    then wire cl' = wire cl @ frames (compress cl) s \<and>
         inflight cl' = (\<lambda>u. if u \<in> sent_ids s then Some key else inflight cl u) \<and>
         (is_closed cl' \<longleftrightarrow> s \<noteq> pending X E cl 0 q)
    else cl' = cl"
proof -
  have d: "distinct (map msg_id q)"
    using storage_contract.get_queue [OF assms(1,2,5)] by blast
  have h: "heap (sendMessages S X E key g) c =
      (if registered g c \<and> (\<exists>p \<in> set (ckeys (heap g c)). p = key \<or> keyMatches p key)
       then deliver X E 0 key c q (heap g c) else heap g c)"
    unfolding sendMessages_heap [OF assms(5)] clients_set_exact [OF assms(3,4)] by auto
  show ?thesis
    using deliver_exact [OF d _ refl refl, where cl = "heap g c" and X = X and E = E and i = 0 and c = c and key = key] deliver_closed [of "heap g c" X E 0 key c q]
    unfolding h sent_def Let_def by auto
qed


lemma clientsForKey_exact_example:
  "distinct (clientsForKey (\<lambda>ks. ks) ''k'' demo_c) \<and> set (clientsForKey (\<lambda>ks. ks) ''k'' demo_c) = {0}"
  using clientsForKey_exact [OF demo_reg(3) range_order_id, of "''k''"]
  by (auto simp: demo_c_def registered_def newClient_def gm_list_def demo_q_def demo_g_def split: if_splits)

theorem flush_exact_witness:
  "wire (heap (sendMessages demo_S demo_X demo_env ''k'' demo_c) 0) = [TextFrame False ''frame''] \<and>
   inflight (heap (sendMessages demo_S demo_X demo_env ''k'' demo_c) 0) 7 = Some ''k''"
proof -
  have q: "st_GetQueue demo_S ''k'' (store demo_c) = (Inr [demo_msg], store demo_c)"
    by (simp add: MemoryStorage_methods_def mem_GetQueue_def demo_c_def demo_q_def gm_list_def)
  have o: "range_order_ok (se_ord demo_env)" by (simp add: demo_env_def)
  have r: "registered demo_c 0" by (auto simp: demo_c_def registered_def gm_list_def)
  have cl: "ckeys (heap demo_c 0) = [''k'']" "is_closed (heap demo_c 0) = False" "wire (heap demo_c 0) = []"
    "compress (heap demo_c 0) = False" "inflight (heap demo_c 0) = Map.empty"
    by (simp_all add: demo_c_def newClient_def)
  have m: "marshal demo_X demo_msg False = Some ''frame''"
    by (simp add: marshal_def map_json_def toMap_def demo_X_def demo_msg_def Let_def)
  have s: "sent demo_X demo_env 0 (heap demo_c 0) [demo_msg] = [(0, demo_msg, ''frame'')]"
    using demo_not_expired m by (simp add: sent_def cl demo_env_def)
  have f: "frames False [(0, demo_msg, ''frame'')] = [TextFrame False ''frame'']"
    "sent_ids [(0, demo_msg, ''frame'')] = {7}" by (simp_all add: frames_def sent_ids_def demo_msg_def)
  from flush_exact [OF demo_contract demo_store(3) demo_reg(3) o q, where X = demo_X and c = 0]
  show ?thesis unfolding Let_def s by (simp add: r cl f)
qed

section \<open>Executions\<close>

text \<open>Whole steps. In an execution of whole operations, over any backend that meets the storage contract, a step
  after which a queued message is gone (or replaced) is one of: an authorized DELETE request covering
  its key and id; an ACK of its id read from a connection on which it was in flight for this key; a
  sweep that found it expired; the task of a publish that carries the same id to the same key; a foreign writer of the
  backend. (The interleavings of the code are the subject of \<open>fine_no_loss\<close>.)\<close>

lemma no_message_lost:
  assumes "deployment_ok D sinv box keep ainv"
    and "sys_inv sinv ainv \<lparr>eng = g0, readers = {}, pingers = {}, loops = all_loops\<rparr>"
    and "reach D g0 y" and "step D y ev y'"
    and "box (store (eng y)) k (msg_id m) = Some m" and "box (store (eng y')) k (msg_id m) \<noteq> Some m"
  shows "may_remove D (eng y) ev k m"
proof -
  have "sinv (store (eng y))" using reach_inv [OF assms(1,3,2)] by (simp add: sys_inv_def)
  then show ?thesis using step_store [OF assms(1) _ assms(4), of k m] assms(5,6) by blast
qed

definition demo_delete :: request where
  "demo_delete = \<lparr>r_Method = ''DELETE'', r_Path = ''/'', r_Query = [], r_Header = [], r_RemoteAddr = [],
                  r_Body = Inr []\<rparr>"

definition demo_http :: http_env where
  "demo_http = \<lparr>he_limit = 5, he_now = (\<lambda>_. 5), he_newid = Inr 9, he_auth = (\<lambda>_. Inl []), he_clk = (\<lambda>_. 5),
                he_upgrade = Inr True\<rparr>"

lemma no_message_lost_example:
  "\<exists>y'. step demo_D \<lparr>eng = demo_q, readers = {}, pingers = {}, loops = all_loops\<rparr> (EvHTTP demo_http demo_delete) y' \<and>
     mem_box (store (eng y')) ''k'' 7 = None \<and>
     may_remove demo_D demo_q (EvHTTP demo_http demo_delete) ''k'' demo_msg"
proof -
  let ?y = "\<lparr>eng = demo_q, readers = {}, pingers = {}, loops = all_loops\<rparr>"
  obtain rep g' where r: "ServeHTTP (dS demo_D) (dA demo_D) (dX demo_D) (drender demo_D) (dver demo_D)
      demo_http demo_delete (eng ?y) = (rep, g')" by fastforce
  have "store g' = \<lparr>storage_map = []\<rparr>"
    using r by (auto simp: ServeHTTP_def route_of_def demo_delete_def handleHTTP_def allow_def demo_q_def demo_g_def
      authorizeBackend_def demo_cfg_def handleDelete_def Get_def demo_D_def MemoryStorage_methods_def
      get_keys_def mem_GetKeys_def deleteMsgQueue_def mem_DeleteQueue_def)
  then have e: "mem_box (store g') ''k'' 7 = None" by (simp add: mem_box_def)
  have id: "msg_id demo_msg = 7" by (simp add: demo_msg_def)
  note st = step.http [OF r]
  have "may_remove demo_D (eng ?y) (EvHTTP demo_http demo_delete) ''k'' demo_msg"
    by (rule no_message_lost [OF demo_ok demo_inv(2) reach.init st]) (simp_all add: id demo_box e)
  then show ?thesis using st e by auto
qed

text \<open>C4: The registry is exact in every execution: a connection is listed under each of its keys as long as
  its read loop runs and under no key afterwards, no key has an empty list, and the pattern table is
  exactly the set of wildcard keys with a connection.\<close>

theorem registry_invariant:
  assumes "deployment_ok D sinv box keep ainv"
    and "sys_inv sinv ainv \<lparr>eng = g0, readers = {}, pingers = {}, loops = all_loops\<rparr>" and "reach D g0 y"
  shows "(c \<in> set (gm_list (Conns (eng y)) k) \<longleftrightarrow> c \<in> readers y \<and> k \<in> set (ckeys (heap (eng y) c))) \<and>
         gm_get (Conns (eng y)) k \<noteq> Some [] \<and>
         (k \<in> set (gm_keys (patterns (eng y))) \<longleftrightarrow> hasWildcard k \<and> k \<in> set (gm_keys (Conns (eng y))))"
proof -
  have ok: "reg_ok (eng y)" and rd: "registered (eng y) c \<longleftrightarrow> c \<in> readers y"
    using reach_inv [OF assms(1,3,2)] by (simp_all add: sys_inv_def sys_ok_def)
  note d = reg_okD [OF ok]
  have "k \<in> set (gm_keys (Conns (eng y))) \<longleftrightarrow> gm_list (Conns (eng y)) k \<noteq> []"
    using d(3) [rule_format, of k] unfolding gm_keys_iff by (auto simp: gm_list_def split: option.splits)
  moreover have "c \<in> set (gm_list (Conns (eng y)) k) \<longleftrightarrow> c \<in> readers y \<and> k \<in> set (ckeys (heap (eng y) c))"
    using d(6,7) rd unfolding registered_def by blast
  ultimately show ?thesis using d(3) d(4) by blast
qed

definition demo_ws :: request where
  "demo_ws = \<lparr>r_Method = ''GET'', r_Path = ''/ws'', r_Query = [], r_Header = [], r_RemoteAddr = [],
              r_Body = Inr []\<rparr>"

theorem registry_invariant_witness:
  "\<exists>y. reach demo_D demo_g y \<and> 0 \<in> readers y \<and> gm_list (Conns (eng y)) ''k'' = [0] \<and>
       0 \<in> set (gm_list (Conns (eng y)) ''k'')"
proof -
  let ?y = "\<lparr>eng = demo_g, readers = {}, pingers = {}, loops = all_loops\<rparr>"
  obtain rep g' where r: "ServeHTTP (dS demo_D) (dA demo_D) (dX demo_D) (drender demo_D) (dver demo_D)
      demo_http demo_ws (eng ?y) = (rep, g')" by fastforce
  have "ServeHTTP (dS demo_D) (dA demo_D) (dX demo_D) (drender demo_D) (dver demo_D) demo_http demo_ws demo_g =
      (Hijacked, accept_conn [''k''] False demo_g)"
    by (simp add: ServeHTTP_def route_of_def demo_ws_def handleWs_def allow_def demo_g_def originAllowed_def
      Get_def demo_D_def DummyAuthorizer_methods_def dummy_Authorize_def upgrade_def demo_http_def
      demo_cfg_def build_config_def parseBool_def ParseBool_def flag_get_def)
  then have g': "g' = accept_conn [''k''] False demo_g" using r by simp
  let ?y' = "?y\<lparr>eng := g', readers := readers ?y \<union> {next_cid (eng ?y)..<next_cid g'},
      pingers := pingers ?y \<union> {next_cid (eng ?y)..<next_cid g'}\<rparr>"
  have re: "reach demo_D demo_g ?y'" by (rule reach.next_step [OF reach.init step.http [OF r]])
  have z: "next_cid demo_g = 0" "ckeys (heap g' 0) = [''k'']" "gm_list (Conns g') ''k'' = [0]"
    by (simp_all add: g' accept_conn_def schedule_def set_client_def demo_g_def newClient_def register_key_def
      gm_list_def Let_def)
  have "0 \<in> set (gm_list (Conns (eng ?y')) ''k'')"
    using registry_invariant [OF demo_ok demo_inv(1) re, of 0 "''k''"] z by (simp add: g')
  then show ?thesis using re z by (intro exI [of _ ?y']) (simp add: g')
qed

text \<open>Whole steps: in any execution of whole operations in
  which no frame read from the connection acknowledges the id, the entry stays, so that no flush whatever
  writes the message again; no frame is taken back and a closed connection is not reopened.\<close>

lemma inflight_until_ack:
  assumes "deployment_ok D sinv box keep ainv" and "sys_inv sinv ainv y" and "c \<in> readers y"
    and "run D y evs z" and "\<forall>ev \<in> set evs. i \<notin> acked D (eng y) ev c"
    and "inflight (heap (eng y) c) i = Some k"
  shows "inflight (heap (eng z) c) i = Some k \<and>
         prefix (wire (heap (eng y) c)) (wire (heap (eng z) c)) \<and>
         (is_closed (heap (eng y) c) \<longrightarrow> is_closed (heap (eng z) c)) \<and>
         (\<forall>X E q. i \<notin> sent_ids (sent X E c (heap (eng z) c) q))"
proof -
  have "reg_ok (eng y)" "registered (eng y) c" using assms(2,3) by (simp_all add: sys_inv_def sys_ok_def)
  then have "c < next_cid (eng y)" using reg_okD(5) by (auto simp: registered_def)
  note le = run_client_le [OF assms(1,2) this assms(4)]
  then have "inflight (heap (eng z) c) i = Some k" using assms(5,6) unfolding client_le_def by blast
  then show ?thesis using le sent_skips [of "heap (eng z) c" i] by (simp add: client_le_def)
qed

definition demo_busy :: "(MemoryStorage, DummyAuthorizer) sys" where
  "demo_busy = \<lparr>eng = set_client 0 (snd (markInflight 7 ''k'' (heap demo_c 0))) demo_c, readers = {0}, pingers = {0}, loops = all_loops\<rparr>"

lemma demo_busy_inv: "sys_inv mem_inv (\<lambda>d. good_keys (d_keys d)) demo_busy"
proof -
  have "reg_ok (eng demo_busy)" unfolding demo_busy_def
    by (simp, rule reg_ok_client [OF demo_reg(3)]) (simp add: markInflight_def)
  moreover have "registered (eng demo_busy) c \<longleftrightarrow> c \<in> readers demo_busy" for c
    by (auto simp: demo_busy_def registered_def set_client_def demo_c_def gm_list_def split: if_splits)
  ultimately show ?thesis
    by (simp add: sys_inv_def sys_ok_def) (simp add: demo_busy_def set_client_def demo_c_def demo_store(2) [unfolded demo_c_def])
qed

lemma inflight_until_ack_example:
  "\<exists>z. run demo_D demo_busy [EvReconcile (\<lambda>ks. ks) (\<lambda>ks. ks) (\<lambda>_. demo_env), EvStop] z \<and>
       inflight (heap (eng z) 0) 7 = Some ''k''"
proof -
  let ?evs = "[EvReconcile (\<lambda>ks. ks) (\<lambda>ks. ks) (\<lambda>_. demo_env), EvStop]"
  have n: "ReconcileLoop \<in> loops demo_busy" by (simp add: demo_busy_def)
  obtain z where r: "run demo_D demo_busy ?evs z"
    using run.run_step [OF run.run_step [OF run.run_init step.reconcile [OF n]] step.stop] by fastforce
  have a: "\<forall>ev \<in> set ?evs. 7 \<notin> acked demo_D (eng demo_busy) ev 0" by (simp add: acked_def)
  have "0 \<in> readers demo_busy" "inflight (heap (eng demo_busy) 0) 7 = Some ''k''"
    by (simp_all add: demo_busy_def set_client_def markInflight_def newClient_def demo_c_def)
  then show ?thesis using inflight_until_ack [OF demo_ok demo_busy_inv _ r a] r by blast
qed

text \<open>C29: No message is forged. In every execution without a foreign writer to the backend, a message that is
  in a queue was there at the start, or an authenticated POST of this execution carried a body that
  was accepted as this message, with this key among its targets; what is stored is what the backend
  keeps of it.\<close>

theorem no_message_forged:
  assumes "deployment_ok D sinv box keep ainv" and "sys_inv sinv ainv y" and "tasks (eng y) = {}"
    and "run D y evs z" and "EvBackend \<notin> set evs" and "box (store (eng z)) k i = Some m'"
  shows "box (store (eng y)) k i = Some m' \<or>
    (\<exists>m. posted D (config (eng y)) evs m \<and> k \<in> set (targets m) \<and> keep (m\<lparr>Key := k\<rparr>) = Some m')"
  using run_posted [OF assms(1-5)] assms(6) by blast

definition demo_post :: request where
  "demo_post = demo_delete\<lparr>r_Method := ''POST'', r_Body := Inr ''pub''\<rparr>"

definition demo_task_env :: task_env where
  "demo_task_env = \<lparr>te_hist = \<lambda>_. 5, te_send = \<lambda>_ _. demo_env\<rparr>"

abbreviation demo_start :: "(MemoryStorage, DummyAuthorizer) sys" where
  "demo_start \<equiv> \<lparr>eng = demo_g, readers = {}, pingers = {}, loops = all_loops\<rparr>"

definition demo_posted :: Message where
  "demo_posted = demo_msg\<lparr>msg_id := 9, date := 5\<rparr>"

abbreviation demo_pending :: "(MemoryStorage, DummyAuthorizer) goctopus" where
  "demo_pending \<equiv> demo_g\<lparr>received := 1, work := [PostTask demo_posted [''k'']]\<rparr>"

lemma demo_post_step: "step demo_D demo_start (EvHTTP demo_http demo_post) (demo_start\<lparr>eng := demo_pending\<rparr>)"
proof -
  have "unmarshal demo_X (Inr ''pub'') ''30m'' 5 (Inr 9) zero_Message = UOk demo_posted"
    by (simp add: unmarshal_def demo_X_def dec_message_def dec_member_def message_tags_def dec_string_def zero_Message_def
      targets_def ParseDuration_eval demo_posted_def demo_msg_def Let_def)
  moreover have "targets demo_posted = [''k'']"
    by (simp add: targets_def demo_posted_def demo_msg_def zero_Message_def)
  ultimately have "ServeHTTP (dS demo_D) (dA demo_D) (dX demo_D) (drender demo_D) (dver demo_D) demo_http demo_post demo_g =
      (reply_json 202 [], demo_pending)"
    by (simp add: ServeHTTP_def route_of_def demo_post_def demo_delete_def handleHTTP_def allow_def demo_g_def
      authorizeBackend_def demo_cfg_def handlePost_def demo_D_def demo_http_def MaxBytesReader_def schedule_def)
  then show ?thesis
    using step.http [of demo_D demo_http demo_post demo_start "reply_json 202 []" demo_pending] by (simp add: demo_g_def)
qed

text \<open>A publish and the worker that runs its task.\<close>

lemma demo_run:
  obtains z where "run demo_D demo_start [EvHTTP demo_http demo_post, EvWorker demo_task_env] z"
    "mem_box (store (eng z)) ''k'' 9 = Some demo_posted"
proof -
  let ?y = "demo_start\<lparr>eng := demo_pending\<rparr>"
  have 2: "step demo_D ?y (EvWorker demo_task_env) (?y\<lparr>eng := worker demo_S demo_X demo_task_env demo_pending\<rparr>)" (is "step _ _ _ ?z")
    using step.worker [of ?y demo_D demo_task_env] by (simp add: demo_D_def)
  have "mem_box (store (eng ?z)) ''k'' 9 = Some demo_posted"
    using mem.post_keys_exact [of "demo_pending\<lparr>work := []\<rparr>" demo_X demo_task_env 0 demo_posted "[''k'']"] demo_store(1)
    by (simp add: worker_def demo_posted_def demo_msg_def zero_Message_def)
  then show ?thesis
    using that [OF run.run_step [OF run.run_step [OF run.run_init demo_post_step] 2, simplified]] by simp
qed

text \<open>An accepted publish can be lost by an orderly exit: \<^verbatim>\<open>main\<close> returns as soon as
  \<^verbatim>\<open>Stop\<close> has cancelled the context, without waiting for the workers to drain.\<close>

lemma exit_before_drain:
  "\<exists>evs p. process_run demo_D (boot demo_g) evs p \<and> main_at p = Exited 0 \<and>
     work (eng (gateway p)) = [PostTask demo_posted [''k'']] \<and> received (eng (gateway p)) = 1 \<and>
     mem_box (store (eng (gateway p))) ''k'' = Map.empty"
proof -
  have "process_step demo_D (boot demo_g) (PServe (EvHTTP demo_http demo_post)) ((boot demo_g)\<lparr>gateway := demo_start\<lparr>eng := demo_pending\<rparr>\<rparr>)"
    using demo_post_step by (intro serve) (simp_all add: boot_def)
  from quiet_shutdown_run [OF process_next [OF process_init this]]
  show ?thesis by (fastforce simp: boot_def stop_exact demo_g_def reg_ok_def gm_list_def mem_box_def)
qed

theorem no_message_forged_witness:
  "\<exists>z m. run demo_D demo_start [EvHTTP demo_http demo_post, EvWorker demo_task_env] z \<and>
     mem_box (store (eng z)) ''k'' 9 = Some demo_posted \<and>
     posted demo_D demo_cfg [EvHTTP demo_http demo_post, EvWorker demo_task_env] m \<and> ''k'' \<in> set (targets m)"
proof -
  obtain z where z: "run demo_D demo_start [EvHTTP demo_http demo_post, EvWorker demo_task_env] z"
    "mem_box (store (eng z)) ''k'' 9 = Some demo_posted" by (rule demo_run)
  have "tasks (eng demo_start) = {}" "mem_box (store (eng demo_start)) ''k'' 9 = None" "config (eng demo_start) = demo_cfg"
    by (simp_all add: tasks_def mem_box_def demo_g_def gm_list_def)
  then show ?thesis using no_message_forged [OF demo_ok demo_inv(1) _ z(1) _ z(2)] z by auto
qed

text \<open>C30: Queues are well typed. In every execution that starts with empty queues, over a backend that gives
  back what was stored, a message in the queue of a key carries this key and its own id, the key is not
  empty, the value is not null and the expiry is a duration, so that expiry tests never fall back to
  the zero duration.\<close>

theorem queued_messages_typed:
  assumes "deployment_ok D sinv box Some ainv" and "sys_inv sinv ainv y" and "tasks (eng y) = {}"
    and "\<forall>k. box (store (eng y)) k = Map.empty"
    and "run D y evs z" and "EvBackend \<notin> set evs" and "box (store (eng z)) k i = Some m"
  shows "msg_id m = i \<and> Key m = k \<and> k \<noteq> [] \<and> Value m \<noteq> JNull \<and> (\<exists>d. ParseDuration (Expire m) = Some d)"
proof -
  note r = run_posted [OF assms(1-3,5,6)]
  have c: "storage_contract (dS D) sinv box Some" "sinv (store (eng z))"
    using assms(1) r by (simp_all add: deployment_ok_def sys_inv_def)
  have "box (store (eng y)) k i = Some m \<or> (\<exists>m0. posted D (config (eng y)) evs m0 \<and> k \<in> set (targets m0) \<and>
      Some (m0\<lparr>Key := k\<rparr>) = Some m)" using r assms(7) by blast
  then obtain m0 where m0: "posted D (config (eng y)) evs m0" "k \<in> set (targets m0)" "m = m0\<lparr>Key := k\<rparr>"
    using assms(4) by auto
  then obtain now where "accepted (dX D) now m0" unfolding posted_def by (blast dest: unmarshal_accepted)
  then show ?thesis using m0 storage_contract.box_id [OF c assms(7)] by (simp add: accepted_def)
qed

theorem queued_messages_typed_witness:
  "\<exists>z. run demo_D demo_start [EvHTTP demo_http demo_post, EvWorker demo_task_env] z \<and>
     mem_box (store (eng z)) ''k'' 9 = Some demo_posted \<and> Key demo_posted = ''k'' \<and> Value demo_posted \<noteq> JNull \<and>
     (\<exists>d. ParseDuration (Expire demo_posted) = Some d)"
proof -
  obtain z where z: "run demo_D demo_start [EvHTTP demo_http demo_post, EvWorker demo_task_env] z"
    "mem_box (store (eng z)) ''k'' 9 = Some demo_posted" by (rule demo_run)
  have "tasks (eng demo_start) = {}" "\<forall>k. mem_box (store (eng demo_start)) k = Map.empty"
    by (simp_all add: tasks_def mem_box_def demo_g_def gm_list_def)
  then show ?thesis using queued_messages_typed [OF demo_ok demo_inv(1) _ _ z(1) _ z(2)] z by auto
qed

section \<open>Delivery happens\<close>

text \<open>C19: A publish is delivered. When the task of a publish runs and the writes succeed, an open connection
  that listens to one of the targets, and on which the id is not in flight yet, is sent the message of
  one of the targets it listens to, and the message is in flight there for this target. (The message
  must be due: not expired at the flush and representable in JSON.)\<close>

theorem publish_delivers:
  assumes "reliable_storage S sinv box keep" and "sinv (store g)" and "reg_ok g"
    and "\<exists>k \<in> set ks. concerns g c k" and "\<not> is_closed (heap g c)" and "inflight (heap g c) (msg_id m) = None"
    and "\<forall>k \<in> set ks. \<exists>m'. keep (m\<lparr>Key := k\<rparr>) = Some m' \<and> (\<forall>j. due X (te_send T j) m' (text k))"
    and "\<forall>j i. writes_ok (te_send T j i) c"
  shows "let cl = heap g c; cl' = heap (run_task S X T (PostTask m ks) g) c in
    \<exists>k \<in> set ks. concerns g c k \<and> inflight cl' (msg_id m) = Some k \<and>
      (\<exists>fs. wire cl' = wire cl @ fs \<and> TextFrame (compress cl) (text k) \<in> set fs)"
  using reliable_storage.post_keys_sends [OF assms(1-7), of 0] assms(8) by (simp add: Let_def)

lemma demo_due:
  "due demo_X (\<lambda>_. demo_env) (demo_msg\<lparr>msg_id := i, Key := k\<rparr>) ''frame''" "due demo_X (\<lambda>_. demo_env) demo_msg ''frame''"
  "writes_ok demo_env c"
proof -
  have "isExpired 5 (demo_msg\<lparr>msg_id := i, Key := k\<rparr>) = isExpired 5 demo_msg" for i k by (simp add: isExpired_def)
  moreover have "marshal demo_X (demo_msg\<lparr>msg_id := i, Key := k\<rparr>) False = Some ''frame''"
    "marshal demo_X demo_msg False = Some ''frame''" for i k
    by (simp_all add: marshal_def map_json_def toMap_def demo_X_def demo_msg_def Let_def)
  ultimately show "due demo_X (\<lambda>_. demo_env) (demo_msg\<lparr>msg_id := i, Key := k\<rparr>) ''frame''"
    "due demo_X (\<lambda>_. demo_env) demo_msg ''frame''" "writes_ok demo_env c"
    using demo_not_expired by (simp_all add: due_def demo_env_def writes_ok_def)
qed

lemma demo_conn: "registered demo_c 0" "ckeys (heap demo_c 0) = [''k'']" "\<not> is_closed (heap demo_c 0)"
  "inflight (heap demo_c 0) = Map.empty" "concerns demo_c 0 ''k''" "wire (heap demo_c 0) = []"
  "keyMatches ''k'' ''k''"
  by (auto simp: concerns_def demo_c_def newClient_def registered_def gm_list_def keyMatches_def hasWildcard_def
      ContainsAny_def)

theorem publish_delivers_witness:
  "TextFrame False ''frame'' \<in> set (wire (heap (run_task demo_S demo_X \<lparr>te_hist = \<lambda>_. 5, te_send = \<lambda>_ _. demo_env\<rparr>
      (PostTask (demo_msg\<lparr>msg_id := 8\<rparr>) [''x'', ''k'']) demo_c) 0))"
proof -
  have "compress (heap demo_c 0) = False" by (simp add: demo_c_def newClient_def)
  then show ?thesis
    using publish_delivers [OF mem.reliable_storage_axioms demo_store(3) demo_reg(3), of "[''x'', ''k'']" 0
        "demo_msg\<lparr>msg_id := 8\<rparr>" demo_X "\<lparr>te_hist = \<lambda>_. 5, te_send = \<lambda>_ _. demo_env\<rparr>" "\<lambda>_. ''frame''"]
      demo_conn demo_due by (auto simp: Let_def)
qed

text \<open>C20: Nothing is left behind by reconciliation. After one tick, every message that is queued under a key
  that a key or pattern of an open connection matches, and that is due, is in flight on the
  connection, provided its writes succeed.\<close>

theorem reconcile_delivers:
  assumes "reliable_storage S sinv box keep" and "sinv (store g)" and "reg_ok g"
    and "range_order_ok o1" and "range_order_ok o2" and "0 < ReconcileInterval (config g)"
    and "registered g c" and "p \<in> set (ckeys (heap g c))" and "keyMatches p k" and "\<not> is_closed (heap g c)"
    and "box (store g) k (msg_id m) = Some m" and "due X E m data" and "\<forall>i. writes_ok (E i) c"
  shows "inflight (heap (reconcile S X o1 o2 E g) c) (msg_id m) \<noteq> None"
  by (rule reliable_storage.reconcile_sends [OF assms])

theorem reconcile_delivers_witness:
  "inflight (heap (reconcile demo_S demo_X (\<lambda>ks. ks) (\<lambda>ks. ks) (\<lambda>_. demo_env)
     (demo_c\<lparr>config := demo_cfg\<lparr>ReconcileInterval := second\<rparr>\<rparr>)) 0) 7 \<noteq> None"
proof -
  let ?g = "demo_c\<lparr>config := demo_cfg\<lparr>ReconcileInterval := second\<rparr>\<rparr>"
  have "reg_ok ?g" by (rule reg_ok_cong [OF _ _ _ _ demo_reg(3)]) simp_all
  moreover have "registered ?g 0" using demo_conn(1) by (simp add: registered_def)
  moreover have "mem_box (store ?g) ''k'' (msg_id demo_msg) = Some demo_msg"
    using demo_box by (simp add: demo_c_def demo_msg_def)
  ultimately show ?thesis
    using reconcile_delivers [OF mem.reliable_storage_axioms, of ?g "\<lambda>ks. ks" "\<lambda>ks. ks" 0 "''k''" "''k''" demo_msg demo_X
        "\<lambda>_. demo_env" "''frame''"] demo_conn demo_due demo_store(3) by (simp add: demo_msg_def)
qed

text \<open>A new connection gets its backlog. When the task that a new websocket schedules runs, every due
  message queued under a key that one of the connection's keys or patterns matches is in flight on it
  afterwards, provided its writes succeed.\<close>

lemma backlog_delivered:
  assumes "reliable_storage S sinv box keep" and "sinv (store g)" and "reg_ok g"
    and "registered g c" and "set ks \<subseteq> set (ckeys (heap g c))" and "p \<in> set ks" and "keyMatches p k"
    and "\<not> is_closed (heap g c)" and "box (store g) k (msg_id m) = Some m"
    and "\<forall>j. due X (te_send T j) m data" and "\<forall>j i. writes_ok (te_send T j i) c"
  shows "inflight (heap (run_task S X T (ConnectTask ks) g) c) (msg_id m) \<noteq> None"
  using reliable_storage.connect_keys_sends [OF assms, of 0] by simp

lemma backlog_delivered_example:
  "inflight (heap (run_task demo_S demo_X \<lparr>te_hist = \<lambda>_. 5, te_send = \<lambda>_ _. demo_env\<rparr> (ConnectTask [''k'']) demo_c) 0) 7 \<noteq> None"
proof -
  have "mem_box (store demo_c) ''k'' (msg_id demo_msg) = Some demo_msg"
    using demo_box by (simp add: demo_c_def demo_msg_def)
  then show ?thesis
    using backlog_delivered [OF mem.reliable_storage_axioms demo_store(3) demo_reg(3) demo_conn(1), of "[''k'']" "''k''" "''k''"
        demo_msg demo_X "\<lparr>te_hist = \<lambda>_. 5, te_send = \<lambda>_ _. demo_env\<rparr>" "''frame''"]
      demo_conn demo_due by (simp add: demo_msg_def)
qed

text \<open>C1: No message gets stuck, however the goroutines interleave. At any point of an execution from the
  start, over a backend that does not fail and is not written by others, a queued message that can be
  represented and has not expired at the latest clock reading, and that an open connection listens to,
  is on its way to it: a task that flushes its key is scheduled, or a goroutine has an instruction ahead
  that serves this message to the connection or closes it, or the message is in flight on the
  connection, or the connection has acknowledged its id before. Writes may fail at any time.\<close>

theorem no_message_stuck:
  assumes "deployment_ok D sinv box keep ainv" and "reliable_storage (dS D) sinv box keep"
    and "\<forall>s s' k. dext D s s' \<longrightarrow> box s' k \<subseteq>\<^sub>m box s k" and "sys_inv sinv ainv y" and "readers y = {}"
    and "fine_run D \<lparr>base = y, threads = [], held = {}\<rparr> evs z" and "\<forall>ev \<in> set evs. fits_fine now ev"
    and "registered (eng (base z)) c" and "\<not> is_closed (heap (eng (base z)) c)"
    and "p \<in> set (ckeys (heap (eng (base z)) c))" and "keyMatches p k"
    and "box (store (eng (base z))) k (msg_id m) = Some m" and "live (dX D) now m"
  shows "(\<exists>t \<in> tasks (eng (base z)). flushes t k) \<or> (\<exists>cs \<in> set (threads z). \<exists>i \<in> set cs. aims i c k m) \<or>
    inflight (heap (eng (base z)) c) (msg_id m) \<noteq> None \<or>
    msg_id m \<in> fine_acked D \<lparr>base = y, threads = [], held = {}\<rparr> evs c"
proof -
  let ?f = "\<lparr>base = y, threads = [], held = {}\<rparr>"
  have x: "\<forall>s s'. dext D s s' \<longrightarrow> shrinks (box s) (box s')" using assms(3) by (simp add: shrinks_def)
  have "fine_ok sinv ainv ?f" "readers (base ?f) = {}" using assms(4,5) by (simp_all add: fine_ok_def)
  from fine_run_attended [OF assms(1,2) x this assms(6,7), of c k m]
  have "waits box (dX D) now c k m z \<longrightarrow> attended c k m (fine_acked D ?f evs c) z" by blast
  moreover have "waits box (dX D) now c k m z" using assms(8,10-13) by (auto simp: waits_def listens_def)
  ultimately show ?thesis using assms(9) unfolding attended_def by blast
qed

text \<open>A connection that arrives while a message waits, and the worker that runs its task.\<close>

definition demo_arrived :: "(MemoryStorage, DummyAuthorizer) goctopus" where
  "demo_arrived = accept_conn [''k''] False demo_q"

abbreviation demo_waiting :: "(MemoryStorage, DummyAuthorizer) sys" where
  "demo_waiting \<equiv> \<lparr>eng = demo_q, readers = {}, pingers = {}, loops = all_loops\<rparr>"

lemma demo_arrival:
  "step demo_D demo_waiting (EvHTTP demo_http demo_ws)
     \<lparr>eng = demo_arrived, readers = {0}, pingers = {0}, loops = all_loops\<rparr>"
proof -
  have "ServeHTTP (dS demo_D) (dA demo_D) (dX demo_D) (drender demo_D) (dver demo_D) demo_http demo_ws demo_q =
      (Hijacked, demo_arrived)"
    by (simp add: ServeHTTP_def route_of_def demo_ws_def handleWs_def allow_def demo_q_def demo_g_def originAllowed_def
      Get_def DummyAuthorizer_methods_def dummy_Authorize_def upgrade_def demo_http_def demo_cfg_def build_config_def
      parseBool_def ParseBool_def flag_get_def splitCSV_def demo_D_def demo_arrived_def)
  moreover have "next_cid demo_arrived = 1" "next_cid demo_q = 0"
    by (simp_all add: demo_arrived_def accept_conn_def schedule_def set_client_def register_key_def demo_q_def demo_g_def Let_def)
  ultimately show ?thesis
    using step.http [of demo_D demo_http demo_ws "\<lparr>eng = demo_q, readers = {}, pingers = {}, loops = all_loops\<rparr>" Hijacked demo_arrived]
    by (simp add: atLeastLessThan_singleton)
qed

theorem task_refines_witness:
  "alone demo_S demo_X [Purge] demo_q [] (snd (handleHTTP demo_S demo_X demo_http demo_delete demo_q)) \<and>
   reconcile demo_S demo_X id id (\<lambda>_. demo_env) demo_q = demo_q"
proof -
  have p: "purges demo_http demo_delete demo_q = Some demo_q" "ReconcileInterval (config demo_q) = 0"
    by (simp_all add: purges_def demo_q_def demo_g_def allow_def authorizeBackend_def demo_delete_def Get_def demo_cfg_def
      build_config_def parseDurationOr_def flag_get_def ParseDuration_eval)
  show ?thesis
    using Interleaving.task_refines [of demo_S demo_X _ demo_q _ _ _ id id "\<lambda>_. demo_env" 0 "[]" demo_http demo_delete demo_q] p by simp
qed

theorem delivery_locks_witness:
  "\<exists>n M z'. fine_step demo_D (\<lparr>base = demo_waiting\<lparr>eng := demo_arrived\<lparr>work := []\<rparr>\<rparr>, threads = [flush_code ''k''], held = {}\<rparr>)
     (FRun n M) z'"
proof -
  let ?y = "demo_waiting\<lparr>eng := demo_arrived\<rparr>"
  have "work demo_arrived = [ConnectTask [''k'']]"
    by (simp add: demo_arrived_def accept_conn_def schedule_def set_client_def register_key_def demo_q_def demo_g_def Let_def)
  then have "fine_step demo_D \<lparr>base = ?y, threads = [], held = {}\<rparr> FWorker
      \<lparr>base = demo_waiting\<lparr>eng := demo_arrived\<lparr>work := []\<rparr>\<rparr>, threads = [flush_code ''k''], held = {}\<rparr>"
    using work_start [of "\<lparr>base = ?y, threads = [], held = {}\<rparr>" "ConnectTask [''k'']" "[]" demo_D]
    by (simp add: hasWildcard_def ContainsAny_def)
  from Interleaving.delivery_locks [OF fine_next [OF fine_init this], where th = "flush_code ''k''"]
  show ?thesis by (simp add: flush_code_def)
qed

definition demo_micro :: micro where
  "demo_micro = \<lparr>mi_now = 5, mi_ok = True, mi_ord = \<lambda>ks. ks\<rparr>"

text \<open>The connection as it is when the waiting message has been taken in flight, and the execution so far.\<close>

definition demo_taken :: client where
  "demo_taken = snd (markInflight 7 ''k'' (newClient [''k''] (WriteTimeout demo_cfg) False))"

definition demo_sending :: "(MemoryStorage, DummyAuthorizer) goctopus" where
  "demo_sending = set_client 0 demo_taken (demo_arrived\<lparr>work := []\<rparr>)"

abbreviation demo_from :: "(MemoryStorage, DummyAuthorizer) fine" where
  "demo_from \<equiv> \<lparr>base = demo_waiting, threads = [], held = {}\<rparr>"

abbreviation demo_at :: "(MemoryStorage, DummyAuthorizer) goctopus \<Rightarrow> instr list \<Rightarrow> nat set \<Rightarrow> (MemoryStorage, DummyAuthorizer) fine" where
  "demo_at g cs h \<equiv> \<lparr>base = \<lparr>eng = g, readers = {0}, pingers = {0}, loops = all_loops\<rparr>, threads = [cs], held = h\<rparr>"

abbreviation demo_events :: "fine_event list" where
  "demo_events \<equiv> [FStep (EvHTTP demo_http demo_ws), FWorker, FRun 0 demo_micro, FRun 0 demo_micro, FRun 0 demo_micro,
    FRun 0 demo_micro, FRun 0 demo_micro]"

abbreviation demo_ahead :: "instr list" where
  "demo_ahead \<equiv> [Write ''k'' 0 ''frame'' demo_msg, Mark ''k'' [] ''frame'' demo_msg, Each ''k'' [0] [], Unlock ''k'']"

lemma demo_arrived_fields:
  "work demo_arrived = [ConnectTask [''k'']]" "spawned demo_arrived = []" "store demo_arrived = store demo_q"
  "heap demo_arrived 0 = newClient [''k''] (WriteTimeout demo_cfg) False" "Conns demo_arrived = [(''k'', [0])]" "patterns demo_arrived = []"
  by (simp_all add: demo_arrived_def accept_conn_def schedule_def set_client_def register_key_def demo_q_def demo_g_def
    hasWildcard_def ContainsAny_def gm_list_def Let_def)

lemma demo_delivery: "fine_run demo_D demo_from demo_events (demo_at demo_sending demo_ahead {sendLock ''k''})"
proof -
  let ?g = "demo_arrived\<lparr>work := []\<rparr>" and ?h = "{sendLock ''k''}"
  note w = demo_arrived_fields and D = demo_D_def demo_micro_def
  have "fine_step demo_D demo_from (FStep (EvHTTP demo_http demo_ws))
      (demo_from\<lparr>base := \<lparr>eng = demo_arrived, readers = {0}, pingers = {0}, loops = all_loops\<rparr>\<rparr>)" (is "fine_step _ _ _ ?f1")
    by (rule other) (simp add: demo_arrival, simp add: apart_def purges_def demo_ws_def case_prod_beta Let_def)
  moreover have "fine_step demo_D ?f1 FWorker (demo_at ?g (flush_code ''k'') {})"
    using work_start [of ?f1 "ConnectTask [''k'']" "[]" demo_D] w by (simp add: hasWildcard_def ContainsAny_def)
  ultimately have 0: "fine_run demo_D demo_from (take 2 demo_events) (demo_at ?g (flush_code ''k'') {})"
    using fine_next [OF fine_next [OF fine_init]] by fastforce
  have cl: "clientsForKey (\<lambda>ks. ks) ''k'' ?g = [0]" by (simp add: clientsForKey_def w gm_list_def)
  have q: "getMsgQueue demo_S ''k'' ?g = (Inr [demo_msg], ?g)"
    by (simp add: getMsgQueue_def MemoryStorage_methods_def mem_GetQueue_def w demo_q_def gm_list_def)
  have d: "marshal demo_X demo_msg False = Some ''frame''" "\<not> isExpired 5 demo_msg"
    using demo_due(2) demo_not_expired by (simp_all add: due_def)
  have "markInflight 7 ''k'' (newClient [''k''] (WriteTimeout demo_cfg) False) = (True, demo_taken)"
    by (simp add: demo_taken_def markInflight_def newClient_def)
  then have mk: "exec demo_S demo_X M (Mark ''k'' [0] ''frame'' demo_msg) ?g =
      ([Write ''k'' 0 ''frame'' demo_msg, Mark ''k'' [] ''frame'' demo_msg], demo_sending)" for M
    by (simp add: w demo_sending_def demo_msg_def)
  have 1: "fine_run demo_D demo_from (take 3 demo_events) (demo_at ?g [Snapshot ''k'', Unlock ''k''] ?h)"
    using fine_run1 [OF 0 _ _ surjective_pairing, of "Lock ''k''" "[Snapshot ''k'', Unlock ''k'']" demo_micro] by (simp add: flush_code_def)
  have 2: "fine_run demo_D demo_from (take 4 demo_events) (demo_at ?g [Fetch ''k'' [0], Unlock ''k''] ?h)"
    using fine_run1 [OF 1 _ _ surjective_pairing, of "Snapshot ''k''" "[Unlock ''k'']" demo_micro] cl by (simp add: D)
  have 3: "fine_run demo_D demo_from (take 5 demo_events) (demo_at ?g [Each ''k'' [0] [demo_msg], Unlock ''k''] ?h)"
    using fine_run1 [OF 2 _ _ surjective_pairing, of "Fetch ''k'' [0]" "[Unlock ''k'']" demo_micro] q by (simp add: D)
  have 4: "fine_run demo_D demo_from (take 6 demo_events) (demo_at ?g [Mark ''k'' [0] ''frame'' demo_msg, Each ''k'' [0] [], Unlock ''k''] ?h)"
    using fine_run1 [OF 3 _ _ surjective_pairing, of "Each ''k'' [0] [demo_msg]" "[Unlock ''k'']" demo_micro] d by (simp add: D)
  show ?thesis
    using fine_run1 [OF 4 _ _ surjective_pairing, of "Mark ''k'' [0] ''frame'' demo_msg" "[Each ''k'' [0] [], Unlock ''k'']" demo_micro] mk by (simp add: D)
qed

lemma demo_sending_fields:
  "tasks (eng (base (demo_at demo_sending cs h))) = {}" "registered demo_sending 0" "ckeys (heap demo_sending 0) = [''k'']"
  "\<not> is_closed (heap demo_sending 0)" "mem_box (store demo_sending) ''k'' (msg_id demo_msg) = Some demo_msg"
  "inflight (heap demo_sending 0) 7 = Some ''k''"
  using demo_box by (auto simp: demo_sending_def demo_taken_def tasks_def registered_def set_client_def demo_arrived_fields
    gm_list_def markInflight_def newClient_def demo_msg_def)

theorem no_message_stuck_witness:
  "\<exists>evs z. fine_run demo_D demo_from evs z \<and> tasks (eng (base z)) = {} \<and> inflight (heap (eng (base z)) 0) 7 \<noteq> None"
proof -
  have fit: "\<forall>ev \<in> set demo_events. fits_fine 5 ev" by (simp add: fits_fine_def demo_micro_def)
  have live: "live demo_X 5 demo_msg" using demo_due(2) demo_not_expired by (simp add: live_def due_def)
  have ack: "fine_acked demo_D demo_from demo_events 0 = {}"
    unfolding fine_acked_def by (auto simp: append_eq_Cons_conv Cons_eq_append_conv)
  from no_message_stuck [OF demo_ok _ _ demo_inv(2) _ demo_delivery fit, of 0 "''k''" "''k''" demo_msg]
  have "inflight (heap demo_sending 0) (msg_id demo_msg) \<noteq> None"
    using demo_sending_fields live ack mem.reliable_storage_axioms demo_conn(7) by (simp add: demo_D_def)
  then show ?thesis using demo_delivery demo_sending_fields(1) by (intro exI conjI) (auto simp: demo_msg_def)
qed

text \<open>The same execution goes on with the write: one frame, no acknowledgement, and the id is in flight.\<close>

theorem sent_once_witness:
  "\<exists>evs z w a. tally demo_D demo_from 0 7 evs z w a \<and> 1 \<le> w \<and>
     w \<le> a + (if inflight (heap (eng (base z)) 0) 7 = None then 0 else 1)"
proof -
  let ?z = "demo_at demo_sending demo_ahead {sendLock ''k''}"
  obtain w a where t: "tally demo_D demo_from 0 7 demo_events ?z w a" using run_tally [OF demo_delivery] by blast
  obtain cs' g where e: "exec (dS demo_D) (dX demo_D) demo_micro (Write ''k'' 0 ''frame'' demo_msg) demo_sending = (cs', g)"
    by fastforce
  obtain z' where st: "fine_step demo_D ?z (FRun 0 demo_micro) z'"
    using instr [of ?z "[]" "Write ''k'' 0 ''frame'' demo_msg" "tl demo_ahead" "[]" demo_D demo_micro cs' g] e by force
  have "writes_in ?z (FRun 0 demo_micro) 0 7 = 1"
    by (simp add: writes_in_def writeMessage_def demo_micro_def demo_msg_def Let_def)
  then have t': "tally demo_D demo_from 0 7 (demo_events @ [FRun 0 demo_micro]) z' (w + 1) (a + acks_in demo_D ?z (FRun 0 demo_micro) 0 7)"
    using tally_next [OF t st] by metis
  from Once.sent_once [OF demo_ok demo_inv(2) t'] t' show ?thesis by (metis le_add2)
qed

text \<open>And with the acknowledgement of the connection.\<close>

definition demo_ack :: inbound where
  "demo_ack = Inbound OpText False ''ack'' False"

theorem inflight_leaves_witness:
  "\<exists>z'. fine_step demo_D (demo_at demo_sending demo_ahead {sendLock ''k''}) (FAck demo_ack 0) z' \<and>
     acks demo_X (dflate demo_D) demo_ack 0 demo_sending 7"
proof -
  let ?z = "demo_at demo_sending demo_ahead {sendLock ''k''}"
  have a: "acks demo_X (dflate demo_D) demo_ack 0 demo_sending 7"
    by (simp add: acks_def read_message_def demo_ack_def limit_read_def demo_sending_def demo_taken_def set_client_def newClient_def
      markInflight_def ack_id_def demo_X_def dedup_last_def demo_arrived_def accept_conn_def schedule_def register_key_def
      demo_q_def demo_g_def demo_cfg_def int64_def Let_def)
  obtain k cl where t: "takeInflight 7 (heap demo_sending 0) = (k, cl)" by fastforce
  have "fine_step demo_D ?z (FAck demo_ack 0)
      (?z\<lparr>base := (base ?z)\<lparr>eng := set_client 0 cl demo_sending\<rparr>, threads := [demo_ahead, ack_code k 7]\<rparr>)" (is "fine_step _ _ _ ?z'")
    using ack_start [of 0 ?z demo_D demo_ack 7 k cl] a t by (simp add: demo_D_def)
  moreover have "inflight (heap (eng (base ?z')) 0) 7 \<noteq> Some ''k''"
    using t demo_sending_fields(6) by (auto simp: takeInflight_def set_client_def)
  ultimately show ?thesis
    using Once.inflight_leaves [OF demo_ok demo_inv(2) demo_delivery, of "FAck demo_ack 0" ?z' 0 7 "''k''"] demo_sending_fields
    by (fastforce simp: demo_D_def)
qed

section \<open>Why messages leave\<close>

text \<open>C2: No message is lost without a reason, however the goroutines interleave. At any point of an execution
  from the start, over any backend that meets the contract, if an instruction or a step takes a message
  out of a queue or replaces it, then it is one of: a DELETE request covering its key and id (or a foreign
  writer of a shared backend); the storing of a publish with the same key and id; or the deletion of this
  id by a goroutine that has a reason for it, because a frame acknowledged the id on a connection where it
  was in flight for this key, or because the sweep read a message with this id in this queue and found
  that one expired; or the deletion of the queue for an authorized DELETE of everything.\<close>

theorem fine_no_loss:
  assumes "deployment_ok D sinv box keep ainv" and "sys_inv sinv ainv y"
    and "fine_run D \<lparr>base = y, threads = [], held = {}\<rparr> evs z" and "fine_step D z ev z'"
    and "box (store (eng (base z))) k (msg_id m) = Some m" and "box (store (eng (base z'))) k (msg_id m) \<noteq> Some m"
  shows "(\<exists>e. ev = FStep e \<and> may_remove D (eng (base z)) e k m) \<or>
    (\<exists>a i cs b M. ev = FRun (length a) M \<and> threads z = a @ (i # cs) # b \<and>
       ((\<exists>m'. i = Queue m' \<and> Key m' = k \<and> msg_id m' = msg_id m) \<or>
        i = Drop k (msg_id m) \<and>
          (was_acked D \<lparr>base = y, threads = [], held = {}\<rparr> evs k (msg_id m) \<or>
           was_expired box D \<lparr>base = y, threads = [], held = {}\<rparr> evs k (msg_id m)) \<or>
        i = Wipe k \<and> was_purged D \<lparr>base = y, threads = [], held = {}\<rparr> evs))"
proof -
  have "fine_ok sinv ainv \<lparr>base = y, threads = [], held = {}\<rparr>" using assms(2) by (simp add: fine_ok_def)
  from fine_run_reasoned [OF assms(1,3) this] have "fine_ok sinv ainv z"
    "reasoned box D \<lparr>base = y, threads = [], held = {}\<rparr> evs z" by simp_all
  from fine_step_lost [OF assms(1) this assms(4-6)] show ?thesis .
qed

theorem fine_no_loss_witness:
  "\<exists>z z'. fine_run demo_D demo_racing demo_race z \<and> fine_step demo_D z (FRun 0 demo_late) z' \<and>
     mem_box (store (eng (base z))) ''k'' 7 = Some demo_fresh \<and> mem_box (store (eng (base z'))) ''k'' 7 = None \<and>
     was_expired mem_box demo_D demo_racing demo_race ''k'' 7"
proof -
  obtain z z' cs ts where r: "fine_run demo_D demo_racing demo_race z" "fine_step demo_D z (FRun 0 demo_late) z'"
    "threads z = (Drop ''k'' 7 # cs) # ts"
    "mem_box (store (eng (base z))) ''k'' 7 = Some demo_fresh" "mem_box (store (eng (base z'))) ''k'' 7 = None"
    by (rule demo_stale)
  have id: "msg_id demo_fresh = 7" by (simp add: demo_fresh_def demo_msg_def)
  have na: "\<not> was_acked demo_D demo_racing demo_race ''k'' 7"
    unfolding was_acked_def by (auto simp: append_eq_Cons_conv Cons_eq_append_conv)
  have "was_expired mem_box demo_D demo_racing demo_race ''k'' 7"
    using fine_no_loss [OF demo_ok demo_racing_ok [simplified] r(1,2), of "''k''" demo_fresh] r(3-5) na by (auto simp: id)
  then show ?thesis using r by blast
qed

section \<open>Operations on the mailbox\<close>

text \<open>C5: Publishing stores the message under every target. With a backend that does not fail, running the task
  of an accepted publish leaves in the queue of each target exactly one entry with the message's id,
  what the backend keeps of the message under that target's key (replacing an older one with the same
  id), and touches nothing else of the mailbox.\<close>

theorem publish_stores:
  assumes "reliable_storage S sinv box keep" and "sinv (store g)"
  shows "box (store (run_task S X T (PostTask m ks) g)) =
         (\<lambda>k. if k \<in> set ks then (box (store g) k)(msg_id m := keep (m\<lparr>Key := k\<rparr>)) else box (store g) k)"
  using reliable_storage.post_keys_exact [OF assms, of X T 0 m ks] by simp

theorem publish_stores_witness:
  "\<forall>T. mem_box (store (run_task demo_S demo_X T (PostTask demo_msg [''a'', ''b'']) demo_g)) ''b'' 7 =
     Some (demo_msg\<lparr>Key := ''b''\<rparr>)"
  by (rule allI, subst publish_stores [OF mem.reliable_storage_axioms demo_store(1)]) (simp add: demo_msg_def)

text \<open>C6: An acknowledgement removes exactly the acknowledged message: an ACK whose id is in flight on the
  connection deletes that id from the queue of the key it was delivered for, clears it from the
  in-flight table and changes nothing else of the mailbox.\<close>

theorem ack_removes:
  assumes "reliable_storage S sinv box keep" and "sinv (store g)"
    and "ack_id X payload = Some i" and "inflight (heap g c) i = Some k"
  shows "box (store (handleAck S X c payload g)) = (box (store g))(k := (box (store g) k)(i := None)) \<and>
         inflight (heap (handleAck S X c payload g) c) = (inflight (heap g c))(i := None)"
  using reliable_storage.handleAck_exact [OF assms] by (simp add: box_del_def)

theorem ack_removes_witness:
  "let g = set_client 0 (snd (markInflight 7 ''k'' (heap demo_c 0))) demo_c in
     mem_box (store g) ''k'' 7 = Some demo_msg \<and>
     mem_box (store (handleAck demo_S demo_X 0 ''ack'' g)) ''k'' 7 = None"
proof -
  define g where "g = set_client 0 (snd (markInflight 7 ''k'' (heap demo_c 0))) demo_c"
  have g: "inflight (heap g 0) 7 = Some ''k''" "mem_inv (store g)" "store g = store demo_q"
    using demo_store(3)
    by (simp_all add: g_def set_client_def markInflight_def newClient_def demo_c_def)
  have i: "ack_id demo_X ''ack'' = Some 7" by (simp add: ack_id_def demo_X_def dedup_last_def)
  show ?thesis
    using ack_removes [OF mem.reliable_storage_axioms g(2) i g(1)] demo_box
    by (simp add: g(3) flip: g_def)
qed

text \<open>C7: A sweep is complete and safe. If its clock readings lie between \<open>t\<close> and \<open>t'\<close>, every message that had
  expired by \<open>t\<close> is gone from every queue afterwards, every message that has not expired by \<open>t'\<close> is
  still there, and nothing else has appeared.\<close>

theorem sweep_complete:
  assumes "reliable_storage S sinv box keep" and "sinv (store g)" and "\<forall>i j. t \<le> now i j \<and> now i j \<le> t'"
  shows "swept t t' (box (store g) k) (box (store (sweepExpired S now pnow g)) k)"
  by (rule reliable_storage.sweepExpired_exact [OF assms(1,3,2)])

theorem sweep_complete_witness:
  "mem_box (store (sweepExpired demo_S (\<lambda>i j. 5) 9 demo_q)) ''k'' 7 = Some demo_msg \<and>
   mem_box (store (sweepExpired demo_S (\<lambda>i j. 31 * minute) 9 demo_q)) ''k'' 7 = None"
proof -
  have e: "isExpired (31 * minute) demo_msg"
    by (simp add: isExpired_def demo_msg_def zero_Message_def time_Sub_def ParseDuration_eval)
  show ?thesis
    using sweep_complete [OF mem.reliable_storage_axioms demo_store(2), of 5 "\<lambda>i j. 5" 5 "''k''" 9]
      sweep_complete [OF mem.reliable_storage_axioms demo_store(2), of "31 * minute" "\<lambda>i j. 31 * minute" "31 * minute" "''k''" 9]
      demo_box demo_not_expired e by (auto simp: swept_def)
qed

text \<open>C8: DELETE does what its branches say, whatever fails. An id without a key, or an id that is not a UUID, is
  refused with 400 and changes nothing. Without a key, a failure to list the keys is answered with 400 and
  changes nothing in the mailbox; otherwise the answer is 200, every queue is untouched or empty, and
  empty if the deletion of that queue does not fail (its failure is only logged). With a key and no id, the
  answer is 200 and the same holds of that queue alone. With both, the answer is 200 exactly if the
  deletion does not fail, and then exactly the given id is gone from the key's queue; if it fails the
  answer is 400 and nothing else has changed.\<close>

theorem delete_exact:
  assumes "storage_contract S sinv box keep" and "sinv (store g)" and "handleDelete S X r g = (rep, g')"
  shows "let key = Get (r_Query r) ''key''; i = Get (r_Query r) ''id''; u = the (uuid_Parse X i);
      gone = (box (store g))(key := (box (store g) key)(u := None)) in
    if i \<noteq> [] \<and> (key = [] \<or> uuid_Parse X i = None) then rep = reply_json 400 [] \<and> g' = g
    else if key = [] then
      (case fst (st_GetKeys S (store g)) of
         Inl e \<Rightarrow> rep = reply_json 400 [] \<and> box (store g') = box (store g)
       | Inr ks \<Rightarrow> rep = reply_json 200 [] \<and> (\<forall>k. box (store g') k \<in> {box (store g) k, Map.empty} \<and>
           ((\<forall>s. sinv s \<longrightarrow> fst (st_DeleteQueue S k s) = None) \<longrightarrow> box (store g') k = Map.empty)))
    else if i = [] then
      rep = reply_json 200 [] \<and> box (store g') \<in> {box (store g), (box (store g))(key := Map.empty)} \<and>
      (fst (st_DeleteQueue S key (store g)) = None \<longrightarrow> box (store g') = (box (store g))(key := Map.empty))
    else if fst (st_DeleteMessage S key u (store g)) = None then rep = reply_json 200 [] \<and> box (store g') = gone
    else rep = reply_json 400 [] \<and> box (store g') \<in> {box (store g), gone}"
  using storage_contract.handleDelete_branches [OF assms] unfolding Let_def .

theorem delete_exact_witness:
  "mem_box (store (snd (handleDelete demo_S demo_X (demo_delete\<lparr>r_Query := [(''key'', ''k''), (''id'', ''u'')]\<rparr>) demo_q)))
     ''k'' = Map.empty"
proof -
  let ?r = "demo_delete\<lparr>r_Query := [(''key'', ''k''), (''id'', ''u'')]\<rparr>"
  have "mem_box (store demo_q) ''k'' = [7 \<mapsto> demo_msg]"
    by (simp add: mem_box_def demo_q_def gm_list_def demo_msg_def)
  moreover obtain rep g' where h: "handleDelete demo_S demo_X ?r demo_q = (rep, g')" by fastforce
  moreover have "uuid_Parse demo_X ''u'' = Some 7" by (simp add: demo_X_def)
  ultimately have "mem_box (store g') ''k'' = Map.empty"
    using delete_exact [OF demo_contract demo_store(2) h]
    by (simp add: Get_def Let_def MemoryStorage_methods_def mem_DeleteMessage_def split: option.splits)
  then show ?thesis by (simp add: h)
qed

text \<open>C31: The outcome of a POST. Exactly one of three things happens: 202, the message is valid and exactly one
  task for all its targets has been queued or, when the queue is full, started at once; 400, and
  nothing has changed; or the handler panicked, on the body \<^verbatim>\<open>null\<close> only, and nothing
  has changed.\<close>

theorem post_outcome:
  assumes "handlePost X now newid r g = (rep, g')"
  shows "(\<exists>m. rep = reply_json 202 [] \<and> accepted X now m \<and>
            mset (work g') + mset (spawned g') = add_mset (PostTask m (targets m)) (mset (work g) + mset (spawned g)) \<and>
            (length (work g) \<le> work_cap g \<longrightarrow> length (work g') \<le> work_cap g') \<and>
            g' = g\<lparr>received := received g + 1, work := work g', spawned := spawned g'\<rparr>) \<or>
         (rep = reply_json 400 [] \<and> g' = g) \<or>
         (rep = Aborted \<and> g' = g \<and>
            (\<exists>b. MaxBytesReader (MaxMessageBytes (config g)) (r_Body r) = Inr b \<and> json_decode X b = Some JNull))"
proof -
  define u where "u = unmarshal X (MaxBytesReader (MaxMessageBytes (config g)) (r_Body r)) (DefaultExpire (config g)) now newid zero_Message"
  show ?thesis
  proof (cases u)
    case (UErr e)
    then show ?thesis using assms by (simp add: handlePost_def u_def)
  next
    case UPanic
    then have "\<exists>b. MaxBytesReader (MaxMessageBytes (config g)) (r_Body r) = Inr b \<and> json_decode X b = Some JNull"
      unfolding u_def unmarshal_def by (auto simp: Let_def split: sum.splits option.splits json.splits if_splits)
    then show ?thesis using assms UPanic by (simp add: handlePost_def u_def)
  next
    case (UOk m)
    then have "rep = reply_json 202 []" "g' = schedule (PostTask m (targets m)) (g\<lparr>received := received g + 1\<rparr>)"
      using assms by (auto simp: handlePost_def u_def Let_def)
    then show ?thesis using unmarshal_accepted [OF UOk [unfolded u_def]] by (auto simp: schedule_def)
  qed
qed

theorem post_outcome_witness:
  "\<exists>g'. handlePost demo_X 5 (Inr 9) (demo_post\<lparr>r_Body := Inr ''null''\<rparr>) demo_g = (Aborted, g') \<and> g' = demo_g \<and>
     (\<exists>b. MaxBytesReader (MaxMessageBytes (config demo_g)) (Inr ''null'') = Inr b \<and> json_decode demo_X b = Some JNull)"
proof -
  obtain rep g' where h: "handlePost demo_X 5 (Inr 9) (demo_post\<lparr>r_Body := Inr ''null''\<rparr>) demo_g = (rep, g')"
    by fastforce
  then have "rep = Aborted"
    by (auto simp: handlePost_def unmarshal_def demo_X_def demo_post_def MaxBytesReader_def demo_g_def demo_cfg_def)
  then show ?thesis using post_outcome [OF h] h by (auto simp: demo_post_def)
qed

text \<open>C32: A GET of a queue changes nothing in the mailbox and is answered with what the backend returns: 400 if the
  backend fails or a message of the answer cannot be written as JSON, and otherwise 200 with the list of
  exactly the messages of the key that have not expired, in the order of the queue the backend returned,
  each with id, payload, key, expiry and date.\<close>

theorem get_exact:
  assumes "storage_contract S sinv box keep" and "sinv (store g)"
    and "handleGet S X (\<lambda>_. now) r g = (rep, g')"
    and "Get (r_Query r) ''key'' = k" and "k \<noteq> []" and "\<not> Has (r_Query r) ''presence''" and "\<not> Has (r_Query r) ''history''"
    and "st_GetQueue S k (store g) = (res, s')"
  shows "g' = g\<lparr>store := s'\<rparr> \<and> box s' = box (store g) \<and>
    (case res of
       Inl e \<Rightarrow> rep = reply_json 400 []
     | Inr q \<Rightarrow> distinct (map msg_id q) \<and> queue_map q = box (store g) k \<and>
         rep = (case maps_text X (map (\<lambda>m. toMap m True) (filter (\<lambda>m. \<not> isExpired now m) q)) of
                  Inl e \<Rightarrow> reply_json 400 [] | Inr b \<Rightarrow> reply_json 200 b))"
proof -
  have e: "map (\<lambda>(i, m). toMap m True) (filter (\<lambda>(i, m). \<not> isExpired now m) (enumerate n ms)) =
      map (\<lambda>m. toMap m True) (filter (\<lambda>m. \<not> isExpired now m) ms)" for n ms
    by (induction ms arbitrary: n) auto
  have "g' = g\<lparr>store := s'\<rparr>" "rep = (case res of Inl e \<Rightarrow> reply_json 400 [] | Inr q \<Rightarrow>
      (case maps_text X (map (\<lambda>m. toMap m True) (filter (\<lambda>m. \<not> isExpired now m) q)) of
         Inl e \<Rightarrow> reply_json 400 [] | Inr b \<Rightarrow> reply_json 200 b))"
    using assms(3-8) by (auto simp: handleGet_def getMarshalledMessages_def getMsgQueue_def e split: sum.splits)
  then show ?thesis using storage_contract.get_queue [OF assms(1,2,8)] by (cases res) auto
qed

theorem get_exact_witness:
  "\<exists>g'. handleGet demo_S demo_X (\<lambda>_. 5) (demo_delete\<lparr>r_Method := ''GET'', r_Query := [(''key'', ''k'')]\<rparr>) demo_q =
     (reply_json 200 ''frame'', g')"
proof -
  let ?r = "demo_delete\<lparr>r_Method := ''GET'', r_Query := [(''key'', ''k'')]\<rparr>"
  obtain rep g' where h: "handleGet demo_S demo_X (\<lambda>_. 5) ?r demo_q = (rep, g')" by fastforce
  have q: "st_GetQueue demo_S ''k'' (store demo_q) = (Inr [demo_msg], store demo_q)"
    by (simp add: MemoryStorage_methods_def mem_GetQueue_def demo_q_def gm_list_def)
  have "maps_text demo_X [toMap demo_msg True] = Inr ''frame''"
    by (simp add: maps_text_def map_json_def toMap_def json_text_def demo_X_def demo_msg_def Let_def)
  then have "rep = reply_json 200 ''frame''"
    using get_exact [OF demo_contract demo_store(2) h _ _ _ _ q] demo_not_expired by (simp add: Get_def Has_def)
  then show ?thesis using h by simp
qed

section \<open>The gates\<close>

text \<open>C9: The JSON API fails closed. A request without the right credentials (unless authentication is
  switched off, the configured login and password must be non-empty and match) gets 401, 403 or 429
  with an empty body, and changes nothing but the rate limiter and the counter of failures: no
  message, connection, task or history entry.\<close>

theorem api_fail_closed:
  assumes "\<not> backend_ok (config g) r" and "handleHTTP S X H r g = (rep, g')"
  shows "(\<exists>st \<in> {401, 403, 429}. rep = reply_json st []) \<and>
         (\<exists>l n. g' = g\<lparr>limiter := l, authFail := n\<rparr>)"
  using handleHTTP_denied [OF assms] by blast

theorem api_fail_closed_witness:
  "\<exists>rep g'. handleHTTP demo_S demo_X demo_http demo_delete (demo_q\<lparr>config := demo_cfg\<lparr>InsecureNoAuth := False\<rparr>\<rparr>) = (rep, g') \<and>
     (\<exists>st \<in> {401, 403, 429}. rep = reply_json st [])"
proof -
  let ?g = "demo_q\<lparr>config := demo_cfg\<lparr>InsecureNoAuth := False\<rparr>\<rparr>"
  have "\<not> backend_ok (config ?g) demo_delete"
    by (simp add: backend_ok_def demo_cfg_def build_config_def flag_get_def)
  from api_fail_closed [OF this prod.collapse [symmetric], of demo_S demo_X demo_http] show ?thesis
    by (metis prod.collapse)
qed

text \<open>C10: A websocket is admitted only through both gates. If \<^verbatim>\<open>handleWs\<close> takes the
  connection over, its origin was allowed and the authorizer granted a non-empty list of non-empty
  keys, and exactly these keys list the new connection; in every other case no connection, key or
  task comes into being.\<close>

theorem ws_gate:
  assumes "authorizer A ainv" and "ainv (authz g)" and "handleWs A H r g = (rep, g')"
  shows "(rep = Hijacked \<and> originAllowed (config g) (Get (r_Header r) ''Origin'') \<and>
          (\<exists>keys a. au_Authorize A (he_auth H) (he_clk H) r (authz g) = (Inr keys, a) \<and> good_keys keys \<and>
             (\<forall>k. set (gm_list (Conns g') k) =
                  set (gm_list (Conns g) k) \<union> (if k \<in> set keys then {next_cid g} else {})) \<and>
             (ConnectTask keys \<in> set (work g') \<or> ConnectTask keys \<in> set (spawned g')))) \<or>
         (rep \<noteq> Hijacked \<and> Conns g' = Conns g \<and> heap g' = heap g \<and> next_cid g' = next_cid g \<and>
          work g' = work g \<and> spawned g' = spawned g)"
  using assms(3)
proof (cases rule: handleWs_cases)
  case (accepted l a keys cmpr)
  moreover have "good_keys keys" using authorizer.grants [OF assms(1,2) accepted(1)] .
  moreover have "ConnectTask keys \<in> set (work g') \<or> ConnectTask keys \<in> set (spawned g')"
    by (simp add: accepted(4) accept_conn_def schedule_def Let_def)
  ultimately show ?thesis by (simp add: accept_conn_set)
qed auto

theorem ws_gate_witness:
  "\<exists>rep g'. handleWs DummyAuthorizer_methods demo_http demo_ws demo_g = (rep, g') \<and> rep = Hijacked \<and>
     set (gm_list (Conns g') ''k'') = {0}"
proof -
  obtain rep g' where w: "handleWs DummyAuthorizer_methods demo_http demo_ws demo_g = (rep, g')" by fastforce
  have "rep = Hijacked \<and> au_Authorize DummyAuthorizer_methods b k demo_ws (authz demo_g) = (Inr [''k''], \<lparr>d_keys = [''k'']\<rparr>)"
    for b k
    using w by (simp add: demo_ws_def handleWs_def allow_def demo_g_def originAllowed_def Get_def
      DummyAuthorizer_methods_def dummy_Authorize_def upgrade_def demo_http_def demo_cfg_def build_config_def
      parseBool_def ParseBool_def flag_get_def splitCSV_def)
  then show ?thesis using ws_gate [OF demo_authorizer _ w] w by (auto simp: demo_g_def good_keys_def)
qed

end
